(* ===== verification/Chat_Prelude.thy ===== *)
theory Chat_Prelude
  imports Main "HOL-Library.Word"
begin

text \<open>
  Types and lemmas shared by every theory of the development: the machine integers of the
  program, byte strings, results of operations that may not complete in time, and the list
  facts that the codec and stream proofs use.

  A Rust \<open>String\<close> or \<open>&str\<close> is a HOL \<open>string\<close>: the list of the bytes of its UTF-8 encoding, one
  \<open>char\<close> per byte, so that \<open>length\<close> is \<open>str::len\<close> and indices are byte indices. A \<open>Vec<u8>\<close> or
  \<open>&[u8]\<close> is a list of 8-bit words. A \<open>Result<T, E>\<close> is \<open>'e + 't\<close> with \<open>Inl\<close> the error. An
  operation that can panic returns an option, \<open>None\<close> being the panic.
\<close>

type_synonym u8 = "8 word"
type_synonym u16 = "16 word"
type_synonym u32 = "32 word"
type_synonym u64 = "64 word"
type_synonym bytes = "u8 list"

named_theorems io_simps \<open>what one call of an I/O operation returns and logs\<close>
named_theorems codec_simps \<open>evaluation of the codecs\<close>

text \<open>
  The result of awaiting a future under a timeout: \<open>Elapsed\<close> when it has not completed when the
  timeout fires. For an await without a timeout \<open>Elapsed\<close> means that it never completes.
\<close>

datatype 'a timed = Elapsed | Ready 'a

text \<open>Lifting a \<open>map_err\<close> over a result.\<close>

definition map_err :: "('e \<Rightarrow> 'f) \<Rightarrow> 'e + 'a \<Rightarrow> 'f + 'a" where
  "map_err f r = (case r of Inl e \<Rightarrow> Inl (f e) | Inr v \<Rightarrow> Inr v)"

lemma map_err_simps [simp]:
  "map_err f (Inl e) = Inl (f e)"
  "map_err f (Inr v) = Inr v"
  by (simp_all add: map_err_def)

lemma map_err_eq_Inr [simp]: "map_err f r = Inr v \<longleftrightarrow> r = Inr v"
  by (cases r) auto

lemma map_err_eq_Inl: "map_err f r = Inl e \<longleftrightarrow> (\<exists>e'. r = Inl e' \<and> e = f e')"
  by (cases r) auto

text \<open>Splitting and joining lists at known lengths.\<close>

lemma take_drop_append: "length a = n \<Longrightarrow> take n (a @ b) = a \<and> drop n (a @ b) = b"
  by simp

lemma take_drop_mid: "length a = n \<Longrightarrow> length b = m \<Longrightarrow> take m (drop n (a @ b @ c)) = b"
  by simp

lemma append_eq_split:
  "a @ b = xs \<longleftrightarrow> length a \<le> length xs \<and> a = take (length a) xs \<and> b = drop (length a) xs"
  by (metis append_eq_conv_conj append_take_drop_id length_append le_add1)

lemma drop_eq_append_take: "n \<le> length xs \<Longrightarrow> drop n xs = a @ b \<Longrightarrow> xs = take n xs @ a @ b"
  by (metis append_take_drop_id)

text \<open>A list that is filtered out of another one keeps membership.\<close>

lemma distinct_append_fresh: "distinct xs \<Longrightarrow> x \<notin> set xs \<Longrightarrow> distinct (xs @ [x])"
  by simp

text \<open>A merge that goes on at its end.\<close>

lemma shuffles_snoc_left: "zs \<in> shuffles xs ys \<Longrightarrow> zs @ [z] \<in> shuffles (xs @ [z]) ys"
proof (induction xs ys arbitrary: zs rule: shuffles.induct)
  case (1 ys)
  then have "zs = ys" by simp
  have "ys @ [z] \<in> shuffles [z] ys"
    by (induction ys) (auto intro: Cons_in_shuffles_rightI)
  with \<open>zs = ys\<close> show ?case by simp
next
  case (3 x xs y ys)
  from 3(3) consider w where "zs = x # w" "w \<in> shuffles xs (y # ys)"
    | w where "zs = y # w" "w \<in> shuffles (x # xs) ys" by auto
  then show ?case
  proof cases
    case 1
    with 3(1) [of w] show ?thesis by (auto intro: Cons_in_shuffles_leftI)
  next
    case 2
    with 3(2) [of w] show ?thesis by (auto intro: Cons_in_shuffles_rightI)
  qed
qed simp

lemma shuffles_snoc_right: "zs \<in> shuffles xs ys \<Longrightarrow> zs @ [z] \<in> shuffles xs (ys @ [z])"
  using shuffles_snoc_left [of zs ys xs z] by (simp add: shuffles_commutes)

end
