(* ===== verification/Rust_Std.thy ===== *)
theory Rust_Std
  imports Chat_Prelude
begin

text \<open>
  The parts of the Rust language and its standard library that the program uses: conversions
  between strings and bytes, UTF-8 validity, \<open>char\<close> boundaries and the string operations that
  panic off a boundary, \<open>splitn\<close>, decimal printing and parsing of unsigned integers, big-endian
  conversion of \<open>u32\<close>, and overflow-checked addition.
\<close>

section \<open>Strings as bytes\<close>

definition as_bytes :: "string \<Rightarrow> bytes" where
  "as_bytes s = map of_char s"

definition str_of_bytes :: "bytes \<Rightarrow> string" where
  "str_of_bytes bs = map (\<lambda>b. char_of (unat b)) bs"

lemma length_as_bytes [simp]: "length (as_bytes s) = length s"
  by (simp add: as_bytes_def)

lemma as_bytes_append [simp]: "as_bytes (s @ t) = as_bytes s @ as_bytes t"
  by (simp add: as_bytes_def)

lemma as_bytes_Nil [simp]: "as_bytes [] = []"
  by (simp add: as_bytes_def)

lemma as_bytes_Cons [simp]: "as_bytes (c # s) = of_char c # as_bytes s"
  by (simp add: as_bytes_def)

lemma unat_of_char: "unat (of_char c :: u8) = (of_char c :: nat)"
  by (cases c) (simp add: of_char_def)

lemma char_of_unat_of_char [simp]: "char_of (unat (of_char c :: u8)) = c"
  by (simp add: unat_of_char)

lemma str_of_bytes_as_bytes [simp]: "str_of_bytes (as_bytes s) = s"
  by (simp add: as_bytes_def str_of_bytes_def comp_def)

lemma as_bytes_inject [simp]: "as_bytes s = as_bytes t \<longleftrightarrow> s = t"
  by (metis str_of_bytes_as_bytes)

section \<open>UTF-8\<close>

text \<open>The well-formed byte sequences of \<open>std::str::from_utf8\<close> (table 3-7 of the Unicode standard).\<close>

definition utf8_cont :: "u8 \<Rightarrow> bool" where
  "utf8_cont b \<longleftrightarrow> 0x80 \<le> b \<and> b \<le> 0xBF"

definition utf8_in :: "u8 \<Rightarrow> u8 \<Rightarrow> u8 \<Rightarrow> bool" where
  "utf8_in lo hi b \<longleftrightarrow> lo \<le> b \<and> b \<le> hi"

text \<open>
  The continuation bytes after a lead byte: \<open>n\<close> of them, the first one in a range that depends
  on the lead byte.
\<close>

definition utf8_tail :: "nat \<Rightarrow> u8 \<Rightarrow> u8 \<Rightarrow> bytes \<Rightarrow> nat option" where
  "utf8_tail n lo hi r =
     (if Suc n \<le> length r \<and> utf8_in lo hi (hd r) \<and> list_all utf8_cont (take n (tl r))
      then Some (n + 2) else None)"

text \<open>How many bytes the scalar value at the front takes: \<open>None\<close> when it is ill-formed.\<close>

definition utf8_width :: "bytes \<Rightarrow> nat option" where
  "utf8_width bs = (case bs of
     [] \<Rightarrow> None
   | b # r \<Rightarrow>
      (if b \<le> 0x7F then Some 1
       else if utf8_in 0xC2 0xDF b then utf8_tail 0 0x80 0xBF r
       else if utf8_in 0xE0 0xEF b then
         utf8_tail 1 (if b = 0xE0 then 0xA0 else 0x80) (if b = 0xED then 0x9F else 0xBF) r
       else if utf8_in 0xF0 0xF4 b then
         utf8_tail 2 (if b = 0xF0 then 0x90 else 0x80) (if b = 0xF4 then 0x8F else 0xBF) r
       else None))"

lemma utf8_tail_bounds: "utf8_tail k lo hi r = Some n \<Longrightarrow> 0 < n \<and> n \<le> Suc (length r)"
  by (auto simp: utf8_tail_def split: if_splits)

lemma utf8_tail_append: "utf8_tail k lo hi r = Some n \<Longrightarrow> utf8_tail k lo hi (r @ cs) = Some n"
  by (cases r) (auto simp: utf8_tail_def split: if_splits)

lemma utf8_width_bounds:
  "utf8_width bs = Some n \<Longrightarrow> 0 < n \<and> n \<le> length bs"
  by (cases bs) (auto simp: utf8_width_def split: if_split_asm dest: utf8_tail_bounds)

function utf8_valid :: "bytes \<Rightarrow> bool" where
  "utf8_valid bs = (bs = [] \<or>
     (case utf8_width bs of None \<Rightarrow> False | Some n \<Rightarrow> utf8_valid (drop n bs)))"
  by pat_completeness auto
termination
  by (relation "measure length") (auto dest: utf8_width_bounds)

declare utf8_valid.simps [simp del]

lemma utf8_valid_Nil [simp]: "utf8_valid []"
  by (simp add: utf8_valid.simps)

lemma utf8_width_append:
  "utf8_width bs = Some n \<Longrightarrow> utf8_width (bs @ cs) = Some n"
  by (cases bs) (auto simp: utf8_width_def utf8_tail_append split: if_split_asm)

lemma utf8_valid_append:
  "utf8_valid bs \<Longrightarrow> utf8_valid (bs @ cs) = utf8_valid cs"
proof (induction bs rule: utf8_valid.induct)
  case (1 bs)
  show ?case
  proof (cases "bs = []")
    case False
    with "1.prems" obtain n where n: "utf8_width bs = Some n" and v: "utf8_valid (drop n bs)"
      by (auto simp: utf8_valid.simps [of bs] split: option.splits)
    then have "utf8_valid (drop n bs @ cs) = utf8_valid cs"
      using "1.IH" False by blast
    moreover have "drop n (bs @ cs) = drop n bs @ cs"
      using utf8_width_bounds [OF n] by simp
    ultimately show ?thesis
      using False utf8_width_append [OF n] by (simp add: utf8_valid.simps [of "bs @ cs"])
  qed simp
qed

lemma utf8_valid_ascii:
  "\<forall>b \<in> set bs. b \<le> 0x7F \<Longrightarrow> utf8_valid bs"
proof (induction bs)
  case (Cons b bs)
  then have "utf8_width (b # bs) = Some 1" by (simp add: utf8_width_def)
  with Cons show ?case by (simp add: utf8_valid.simps [of "b # bs"])
qed simp

text \<open>\<open>String::from_utf8\<close>, and the invariant of every Rust string.\<close>

definition from_utf8 :: "bytes \<Rightarrow> string option" where
  "from_utf8 bs = (if utf8_valid bs then Some (str_of_bytes bs) else None)"

definition is_utf8 :: "string \<Rightarrow> bool" where
  "is_utf8 s \<longleftrightarrow> utf8_valid (as_bytes s)"

lemma from_utf8_as_bytes: "is_utf8 s \<Longrightarrow> from_utf8 (as_bytes s) = Some s"
  by (simp add: from_utf8_def is_utf8_def)

lemma is_utf8_append: "is_utf8 s \<Longrightarrow> is_utf8 (s @ t) = is_utf8 t"
  by (simp add: is_utf8_def utf8_valid_append)

lemma is_utf8_Nil [simp]: "is_utf8 []"
  by (simp add: is_utf8_def)

lemma as_bytes_str_of_bytes [simp]: "as_bytes (str_of_bytes bs) = bs"
proof -
  have "(of_char (char_of (unat b)) :: u8) = b" for b :: u8
  proof -
    have "unat b < 2 ^ LENGTH(8)" by (rule unsigned_less)
    then have "unat (of_char (char_of (unat b)) :: u8) = unat b"
      by (subst unat_of_char) simp
    then show ?thesis by (simp add: word_unat_eq_iff)
  qed
  then show ?thesis by (simp add: as_bytes_def str_of_bytes_def comp_def)
qed

definition is_ascii :: "string \<Rightarrow> bool" where
  "is_ascii s \<longleftrightarrow> (\<forall>c \<in> set s. (of_char c :: nat) < 128)"

lemma is_ascii_simps [simp]:
  "is_ascii []"
  "is_ascii (c # s) \<longleftrightarrow> (of_char c :: nat) < 128 \<and> is_ascii s"
  "is_ascii (s @ t) \<longleftrightarrow> is_ascii s \<and> is_ascii t"
  by (auto simp: is_ascii_def)

lemma ascii_is_utf8: "is_ascii s \<Longrightarrow> is_utf8 s"
proof -
  have byte: "(of_char c :: u8) \<le> 0x7F" if "(of_char c :: nat) < 128" for c
    using that by (simp add: word_le_nat_alt unat_of_char)
  assume "is_ascii s"
  then show ?thesis
    unfolding is_utf8_def by (intro utf8_valid_ascii) (auto simp: as_bytes_def is_ascii_def byte)
qed

text \<open>An ASCII character is never inside another one, so UTF-8 text can be split at it.\<close>

lemma utf8_tail_no_ascii:
  assumes "utf8_tail k lo hi (a @ x # b) = Some n" and "x \<le> 0x7F" and "0x80 \<le> lo"
  shows "n \<le> Suc (length a) \<and> utf8_tail k lo hi a = Some n"
proof -
  have n: "n = k + 2" and len: "Suc k \<le> length (a @ x # b)"
    and hd: "utf8_in lo hi (hd (a @ x # b))"
    and tl: "list_all utf8_cont (take k (tl (a @ x # b)))"
    using assms(1) by (auto simp: utf8_tail_def split: if_splits)
  have a: "a \<noteq> []"
  proof
    assume "a = []"
    then have "0x80 \<le> x" using hd assms(3) by (auto simp: utf8_in_def)
    with assms(2) show False by (simp add: word_le_nat_alt)
  qed
  have "k \<le> length (tl a)"
  proof (rule ccontr)
    assume "\<not> k \<le> length (tl a)"
    then have "x \<in> set (take k (tl (a @ x # b)))"
      using a by (cases "k - length (tl a)") (auto simp: take_Cons')
    then have "utf8_cont x" using tl by (auto simp: list_all_iff)
    with assms(2) show False by (auto simp: utf8_cont_def word_le_nat_alt)
  qed
  moreover from this a have "Suc k \<le> length a" by (cases a) auto
  ultimately show ?thesis
    using a hd tl n by (auto simp: utf8_tail_def)
qed

lemma utf8_width_no_ascii:
  assumes "utf8_width (a @ x # b) = Some n" and "a \<noteq> []" and "x \<le> 0x7F"
  shows "n \<le> length a \<and> utf8_width a = Some n"
  using assms
  by (cases a) (auto simp: utf8_width_def dest: utf8_tail_no_ascii split: if_split_asm)

lemma utf8_valid_split_ascii:
  "utf8_valid (a @ x # b) \<Longrightarrow> x \<le> 0x7F \<Longrightarrow> utf8_valid a \<and> utf8_valid b"
proof (induction a rule: length_induct)
  case (1 a)
  show ?case
  proof (cases "a = []")
    case True
    then have "utf8_width (x # b) = Some 1" using "1.prems"(2) by (simp add: utf8_width_def)
    then show ?thesis using "1.prems"(1) True by (simp add: utf8_valid.simps [of "x # b"])
  next
    case False
    obtain n where n: "utf8_width (a @ x # b) = Some n" and v: "utf8_valid (drop n (a @ x # b))"
      using "1.prems"(1) by (auto simp: utf8_valid.simps [of "a @ x # b"] split: option.splits)
    have na: "n \<le> length a" "utf8_width a = Some n"
      using utf8_width_no_ascii [OF n False "1.prems"(2)] by auto
    have "utf8_valid (drop n a) \<and> utf8_valid b"
    proof -
      have "length (drop n a) < length a" using utf8_width_bounds [OF na(2)] False by simp
      moreover have "utf8_valid (drop n a @ x # b)" using v na(1) by simp
      ultimately show ?thesis using "1.IH" "1.prems"(2) by blast
    qed
    then show ?thesis using na False by (simp add: utf8_valid.simps [of a])
  qed
qed

lemma is_utf8_split_ascii:
  assumes "is_utf8 (s @ c # t)" and "(of_char c :: nat) < 128"
  shows "is_utf8 s" and "is_utf8 t"
proof -
  have "(of_char c :: u8) \<le> 0x7F" using assms(2) by (simp add: word_le_nat_alt unat_of_char)
  then show "is_utf8 s" "is_utf8 t"
    using assms(1) utf8_valid_split_ascii [of "as_bytes s" "of_char c" "as_bytes t"]
    by (simp_all add: is_utf8_def)
qed

section \<open>Affixes and splitting\<close>

definition ends_with :: "string \<Rightarrow> string \<Rightarrow> bool" where
  "ends_with s t \<longleftrightarrow> length t \<le> length s \<and> drop (length s - length t) s = t"

lemma ends_with_append [simp]: "ends_with (s @ t) t"
  by (simp add: ends_with_def)

fun split_once :: "char \<Rightarrow> string \<Rightarrow> (string \<times> string) option" where
  "split_once c [] = None"
| "split_once c (x # xs) =
     (if x = c then Some ([], xs)
      else (case split_once c xs of None \<Rightarrow> None | Some (a, b) \<Rightarrow> Some (x # a, b)))"

text \<open>\<open>str::splitn\<close>: at most \<open>n\<close> fields, the last of them the unsplit rest.\<close>

fun splitn :: "nat \<Rightarrow> char \<Rightarrow> string \<Rightarrow> string list" where
  "splitn 0 c s = []"
| "splitn (Suc 0) c s = [s]"
| "splitn (Suc (Suc n)) c s =
     (case split_once c s of None \<Rightarrow> [s] | Some (a, b) \<Rightarrow> a # splitn (Suc n) c b)"

lemma split_once_None: "split_once c s = None \<longleftrightarrow> c \<notin> set s"
  by (induction s) (auto split: option.splits)

lemma split_once_field [simp]: "c \<notin> set a \<Longrightarrow> split_once c (a @ c # b) = Some (a, b)"
  by (induction a) auto

lemma split_once_Some: "split_once c s = Some (a, b) \<Longrightarrow> s = a @ c # b \<and> c \<notin> set a"
  by (induction s arbitrary: a) (auto split: option.splits if_splits)

lemma splitn_bounds: "length (splitn n c s) \<le> n \<and> (0 < n \<longrightarrow> splitn n c s \<noteq> [])"
  by (induction n c s rule: splitn.induct) (auto split: option.splits)

lemma splitn_field [simp]:
  "c \<notin> set a \<Longrightarrow> splitn (Suc (Suc n)) c (a @ c # b) = a # splitn (Suc n) c b"
  by simp

section \<open>Decimal numbers\<close>

definition digit_char :: "nat \<Rightarrow> char" where
  "digit_char d = char_of (48 + d)"

definition digit_val :: "char \<Rightarrow> nat option" where
  "digit_val c = (let n = of_char c in if 48 \<le> n \<and> n \<le> 57 then Some (n - 48) else None)"

fun show_nat :: "nat \<Rightarrow> string" where
  "show_nat n = (if n < 10 then [digit_char n] else show_nat (n div 10) @ [digit_char (n mod 10)])"

declare show_nat.simps [simp del]

definition show_u64 :: "u64 \<Rightarrow> string" where
  "show_u64 w = show_nat (unat w)"

text \<open>The digits of \<open>from_str_radix\<close>: a digit that is not one or a value above \<open>m\<close> is an error.\<close>

fun parse_digits :: "nat \<Rightarrow> nat \<Rightarrow> string \<Rightarrow> nat option" where
  "parse_digits m acc [] = Some acc"
| "parse_digits m acc (c # cs) =
     (case digit_val c of None \<Rightarrow> None
      | Some d \<Rightarrow> if acc * 10 + d \<le> m then parse_digits m (acc * 10 + d) cs else None)"

text \<open>\<open>str::parse::<u64>\<close>: an optional plus sign, then at least one digit.\<close>

definition parse_u64 :: "string \<Rightarrow> u64 option" where
  "parse_u64 s =
     (let ds = (case s of c # cs \<Rightarrow> if c = CHR ''+'' then cs else s | [] \<Rightarrow> s) in
      if ds = [] then None
      else map_option word_of_nat (parse_digits (2 ^ 64 - 1) 0 ds))"

lemma digit_val_char [simp]: "d < 10 \<Longrightarrow> digit_val (digit_char d) = Some d"
  by (simp add: digit_val_def digit_char_def)

lemma parse_digits_append:
  "parse_digits m acc (s @ t) =
     (case parse_digits m acc s of None \<Rightarrow> None | Some v \<Rightarrow> parse_digits m v t)"
  by (induction s arbitrary: acc) (auto split: option.splits)

lemma parse_digits_show: "n \<le> m \<Longrightarrow> parse_digits m 0 (show_nat n) = Some n"
proof (induction n rule: show_nat.induct)
  case (1 n)
  show ?case
  proof (cases "n < 10")
    case True
    with "1.prems" show ?thesis by (simp add: show_nat.simps [of n])
  next
    case False
    then have "parse_digits m 0 (show_nat (n div 10)) = Some (n div 10)"
      using "1.IH" "1.prems" by simp
    with False "1.prems" show ?thesis
      by (simp add: show_nat.simps [of n] parse_digits_append)
  qed
qed

lemma show_nat_set: "c \<in> set (show_nat n) \<Longrightarrow> \<exists>d < 10. c = digit_char d"
proof (induction n rule: show_nat.induct)
  case (1 n)
  show ?case
  proof (cases "n < 10")
    case True
    with "1.prems" show ?thesis by (auto simp: show_nat.simps [of n])
  next
    case False
    then have "c \<in> set (show_nat (n div 10)) \<or> c = digit_char (n mod 10)"
      using "1.prems" by (auto simp: show_nat.simps [of n])
    moreover have "n mod 10 < 10" by simp
    ultimately show ?thesis using "1.IH" False by blast
  qed
qed

lemma show_nat_Nil [simp]: "show_nat n \<noteq> []"
  by (subst show_nat.simps) simp

lemma digit_char_neq:
  assumes "d < 10" and "of_char c < (48::nat) \<or> 57 < (of_char c :: nat)"
  shows "digit_char d \<noteq> c"
proof
  assume "digit_char d = c"
  then have "(of_char c :: nat) = of_char (digit_char d)" by simp
  also have "\<dots> = 48 + d" using assms(1) by (simp add: digit_char_def)
  finally show False using assms by simp
qed

lemma show_nat_no_char:
  "of_char c < (48::nat) \<or> 57 < (of_char c :: nat) \<Longrightarrow> c \<notin> set (show_nat n)"
  using show_nat_set digit_char_neq by blast

lemma show_nat_ascii [simp]: "is_ascii (show_nat n)"
  by (auto simp: is_ascii_def digit_char_def dest!: show_nat_set)

lemma show_u64_no_colon [simp]: "CHR '':'' \<notin> set (show_u64 w)"
  unfolding show_u64_def by (rule show_nat_no_char) simp

lemma show_u64_ascii [simp]: "is_ascii (show_u64 w)"
  by (simp add: show_u64_def)

lemma parse_u64_show [simp]: "parse_u64 (show_u64 w) = Some w"
proof -
  have "CHR ''+'' \<notin> set (show_nat (unat w))"
    by (rule show_nat_no_char) simp
  moreover have "unat w \<le> 2 ^ 64 - 1"
  proof -
    have "unat w < 2 ^ LENGTH(64)" by (rule unsigned_less)
    then show ?thesis by simp
  qed
  ultimately have "parse_digits (2 ^ 64 - 1) 0 (show_nat (unat w)) = Some (unat w)"
    and "(case show_nat (unat w) of c # cs \<Rightarrow> if c = CHR ''+'' then cs else show_nat (unat w)
           | [] \<Rightarrow> show_nat (unat w)) = show_nat (unat w)"
    by (auto simp: parse_digits_show simp del: parse_digits.simps split: list.splits)
  then show ?thesis
    by (simp add: parse_u64_def show_u64_def)
qed

section \<open>Machine integers\<close>

text \<open>\<open>u32::to_be_bytes\<close> and \<open>u32::from_be_bytes\<close>.\<close>

definition to_be_bytes :: "u32 \<Rightarrow> bytes" where
  "to_be_bytes w = [ucast (drop_bit 24 w), ucast (drop_bit 16 w), ucast (drop_bit 8 w), ucast w]"

fun from_be_bytes :: "bytes \<Rightarrow> u32" where
  "from_be_bytes [a, b, c, d] =
     or (push_bit 24 (ucast a)) (or (push_bit 16 (ucast b)) (or (push_bit 8 (ucast c)) (ucast d)))"
| "from_be_bytes _ = 0"

lemma length_to_be_bytes [simp]: "length (to_be_bytes w) = 4"
  by (simp add: to_be_bytes_def)

lemma from_be_bytes_to_be_bytes [simp]: "from_be_bytes (to_be_bytes w) = w"
proof (rule bit_word_eqI)
  fix n
  assume "n < LENGTH(32)"
  then show "bit (from_be_bytes (to_be_bytes w)) n = bit w n"
    unfolding to_be_bytes_def from_be_bytes.simps
    by (cases "n < 8"; cases "n < 16"; cases "n < 24") (auto simp: bit_simps)
qed

text \<open>
  \<open>a + b\<close> on \<open>u64\<close>: with overflow checks (the \<open>dev\<close> profile) an overflow panics, without them
  (the \<open>release\<close> profile) it wraps around.
\<close>

definition add_u64 :: "bool \<Rightarrow> u64 \<Rightarrow> u64 \<Rightarrow> u64 option" where
  "add_u64 checks a b =
     (if checks \<and> 2 ^ 64 \<le> unat a + unat b then None else Some (a + b))"

lemma add_u64_exact:
  assumes "unat a + unat b < 2 ^ 64"
  shows "add_u64 checks a b = Some (a + b)" and "unat (a + b) = unat a + unat b"
  using assms by (simp_all add: add_u64_def unat_word_ariths)

lemma add_u64_release [simp]: "add_u64 False a b = Some (a + b)"
  by (simp add: add_u64_def)

end
