(* ===== verification/Chat_Types.thy ===== *)
theory Chat_Types
  imports Rust_Std "HOL-Library.List_Lexorder" "HOL-Library.Char_ord"
begin

text \<open>
  The data of the program: \<open>ChatError\<close> (\<open>crates/core/src/error.rs\<close>), the public types of
  \<open>crates/core/src/types.rs\<close> (\<open>PeerId\<close>, \<open>PeerInfo\<close>, \<open>ChatEvent\<close>, the configurations), the wire
  message of \<open>crates/core/src/wire.rs\<close> and the invite payload of \<open>crates/core/src/invite.rs\<close>.
\<close>

section \<open>Errors\<close>

text \<open>
  \<open>std::io::Error\<close>: its kind, the text that \<open>to_string()\<close> gives and, for an error reported by
  the operating system, its code.
\<close>

datatype io_kind = UnexpectedEof | BrokenPipe | ConnectionReset | InvalidInput | OtherKind nat

record io_error =
  io_kind :: io_kind
  io_msg :: string
  io_os_code :: "int option"

datatype chat_error =
    InvalidInvite string
  | InviteExpired u64
  | NonceReused
  | OnionService string
  | Connection string
  | ChannelClosed
  | WireError string
  | OversizedMessage nat nat
  | Io io_error
  | PeerNotFound string
  | ShuttingDown

text \<open>\<open>impl Clone for ChatError\<close>: an I/O error is rebuilt from its kind and its text.\<close>

fun clone_chat_error :: "chat_error \<Rightarrow> chat_error" where
  "clone_chat_error (InvalidInvite s) = InvalidInvite s"
| "clone_chat_error (InviteExpired t) = InviteExpired t"
| "clone_chat_error NonceReused = NonceReused"
| "clone_chat_error (OnionService s) = OnionService s"
| "clone_chat_error (Connection s) = Connection s"
| "clone_chat_error ChannelClosed = ChannelClosed"
| "clone_chat_error (WireError s) = WireError s"
| "clone_chat_error (OversizedMessage sz limit) = OversizedMessage sz limit"
| "clone_chat_error (Io e) = Io \<lparr>io_kind = io_kind e, io_msg = io_msg e, io_os_code = None\<rparr>"
| "clone_chat_error (PeerNotFound s) = PeerNotFound s"
| "clone_chat_error ShuttingDown = ShuttingDown"

text \<open>The \<open>#[error(...)]\<close> texts, which are what \<open>Display\<close> prints.\<close>

fun display_chat_error :: "chat_error \<Rightarrow> string" where
  "display_chat_error (InvalidInvite s) = ''invite code invalid: '' @ s"
| "display_chat_error (InviteExpired t) = ''invite expired (issued at '' @ show_u64 t @ '')''"
| "display_chat_error NonceReused = ''nonce already used''"
| "display_chat_error (OnionService s) = ''onion service error: '' @ s"
| "display_chat_error (Connection s) = ''connection failed: '' @ s"
| "display_chat_error ChannelClosed = ''broadcast channel closed''"
| "display_chat_error (WireError s) = ''wire protocol error: '' @ s"
| "display_chat_error (OversizedMessage sz limit) =
     ''message too large: '' @ show_nat sz @ '' bytes (limit '' @ show_nat limit @ '')''"
| "display_chat_error (Io e) = ''I/O error: '' @ io_msg e"
| "display_chat_error (PeerNotFound s) = ''peer not found: '' @ s"
| "display_chat_error ShuttingDown = ''shutdown in progress''"

section \<open>Peers, events and configurations\<close>

datatype peer_id = PeerId string

fun display_peer_id :: "peer_id \<Rightarrow> string" where
  "display_peer_id (PeerId s) = s"

text \<open>
  Identifiers in the order of their texts, so that a set of peers has one sorted list. The program
  has no order on them: it is for comparing rosters whose order is unspecified.
\<close>

instantiation peer_id :: linorder
begin

definition less_eq_peer_id :: "peer_id \<Rightarrow> peer_id \<Rightarrow> bool" where
  "less_eq_peer_id x y \<longleftrightarrow> display_peer_id x \<le> display_peer_id y"

definition less_peer_id :: "peer_id \<Rightarrow> peer_id \<Rightarrow> bool" where
  "less_peer_id x y \<longleftrightarrow> display_peer_id x < display_peer_id y"

instance
proof
  fix x y z :: peer_id
  show "x < y \<longleftrightarrow> x \<le> y \<and> \<not> y \<le> x"
    by (auto simp: less_eq_peer_id_def less_peer_id_def)
  show "x \<le> x" by (simp add: less_eq_peer_id_def)
  show "x \<le> y \<Longrightarrow> y \<le> z \<Longrightarrow> x \<le> z" by (simp add: less_eq_peer_id_def)
  show "x \<le> y \<Longrightarrow> y \<le> x \<Longrightarrow> x = y" by (cases x; cases y) (simp add: less_eq_peer_id_def)
  show "x \<le> y \<or> y \<le> x" by (auto simp: less_eq_peer_id_def)
qed

end

text \<open>\<open>joined_at\<close> is an \<open>Instant\<close>, a reading of the monotonic clock.\<close>

record peer_info =
  pi_id :: peer_id
  pi_name :: string
  pi_joined_at :: nat

datatype chat_event =
    Message peer_id string string
  | PeerJoin peer_info
  | PeerLeave peer_id
  | BootstrapProgress u8
  | RoomReady string u16
  | InviteCreated string
  | RoomClosed
  | ErrorEvent chat_error

record host_config =
  hc_name :: string
  hc_invite_ttl_secs :: u64

record join_config =
  jc_name :: string
  jc_invite_code :: string

section \<open>Wire messages and invites\<close>

datatype message_type = Chat | System | Ping | Pong

record wire_message =
  wm_kind :: message_type
  wm_name :: string
  wm_text :: string

text \<open>Every Rust string is valid UTF-8; this is the invariant of the strings of a message.\<close>

definition wf_wire :: "wire_message \<Rightarrow> bool" where
  "wf_wire m \<longleftrightarrow> is_utf8 (wm_name m) \<and> is_utf8 (wm_text m)"

text \<open>The nonce is a \<open>[u8; 16]\<close>; \<open>wf_nonce\<close> is the length that the array type fixes.\<close>

type_synonym nonce = bytes

definition wf_nonce :: "nonce \<Rightarrow> bool" where
  "wf_nonce n \<longleftrightarrow> length n = 16"

record invite_payload =
  ip_onion_address :: string
  ip_nonce :: nonce
  ip_timestamp :: u64
  ip_suggested_name :: "string option"

section \<open>Lemmas\<close>

lemma display_clone [simp]: "display_chat_error (clone_chat_error e) = display_chat_error e"
  by (cases e) auto

lemma clone_idem [simp]: "clone_chat_error (clone_chat_error e) = clone_chat_error e"
  by (cases e) auto

lemma clone_eq_iff: "clone_chat_error e = e \<longleftrightarrow> (\<forall>ie. e = Io ie \<longrightarrow> io_os_code ie = None)"
proof (cases e)
  case (Io ie)
  then show ?thesis by (cases ie) auto
qed auto

text \<open>
  Cloning an error loses nothing that the program shows: the printed text, and the variant with
  everything but the operating-system code of an I/O error.
\<close>

lemma clone_preserves:
  "display_chat_error (clone_chat_error e) = display_chat_error e
   \<and> ((\<forall>ie. e \<noteq> Io ie) \<longrightarrow> clone_chat_error e = e)
   \<and> (\<forall>ie. e = Io ie \<longrightarrow>
        (\<exists>ie'. clone_chat_error e = Io ie' \<and> io_kind ie' = io_kind ie \<and> io_msg ie' = io_msg ie))"
  by (cases e) auto

end
