(* ===== verification/Crates.thy ===== *)
theory Crates
  imports Chat_Types
begin

text \<open>
  The third-party packages whose functions the program calls as pure functions: \<open>base58\<close>, \<open>hex\<close>
  and \<open>serde_json\<close> (with the derived serialisers of \<open>WireMessage\<close>). They are not part of the
  repository, so they are a parameter of the model: a record of their functions, passed to every
  definition that calls one. The predicates below state the documented behaviour that the
  correctness properties rely on, and each property names those it uses.
\<close>

record crates =
  to_base58 :: "bytes \<Rightarrow> string"
    \<comment> \<open>\<open>ToBase58::to_base58\<close>\<close>
  from_base58 :: "string \<Rightarrow> string + bytes"
    \<comment> \<open>\<open>FromBase58::from_base58\<close>; the error is its \<open>Debug\<close> text\<close>
  hex_encode :: "bytes \<Rightarrow> string"
    \<comment> \<open>\<open>hex::encode\<close>\<close>
  hex_decode :: "string \<Rightarrow> bytes option"
    \<comment> \<open>\<open>hex::decode\<close>; the program drops the error\<close>
  json_to_vec :: "wire_message \<Rightarrow> string + bytes"
    \<comment> \<open>\<open>serde_json::to_vec\<close> on a \<open>WireMessage\<close>; the error is its \<open>Display\<close> text\<close>
  json_from_slice :: "bytes \<Rightarrow> string + wire_message"
    \<comment> \<open>\<open>serde_json::from_slice::<WireMessage>\<close>\<close>

text \<open>Base58 decodes what it encodes, and the empty string is the encoding of nothing.\<close>

definition base58_ok :: "crates \<Rightarrow> bool" where
  "base58_ok K \<longleftrightarrow>
     (\<forall>bs. from_base58 K (to_base58 K bs) = Inr bs) \<and> from_base58 K [] = Inr []"

definition hex_digits :: string where
  "hex_digits = ''0123456789abcdef''"

text \<open>Hex encoding prints two lower-case digits per byte, and decoding reads them back.\<close>

definition hex_ok :: "crates \<Rightarrow> bool" where
  "hex_ok K \<longleftrightarrow>
     (\<forall>bs. hex_decode K (hex_encode K bs) = Some bs)
   \<and> (\<forall>bs. set (hex_encode K bs) \<subseteq> set hex_digits)"

text \<open>
  Serialising a message whose strings are valid UTF-8 succeeds, the output is a JSON text (not
  empty, valid UTF-8), and parsing it gives the message back.
\<close>

definition json_ok :: "crates \<Rightarrow> bool" where
  "json_ok K \<longleftrightarrow> (\<forall>m. wf_wire m \<longrightarrow>
     (\<exists>v. json_to_vec K m = Inr v \<and> v \<noteq> [] \<and> utf8_valid v \<and> json_from_slice K v = Inr m))"

section \<open>Consequences\<close>

lemma base58_inverse [simp]: "base58_ok K \<Longrightarrow> from_base58 K (to_base58 K bs) = Inr bs"
  by (simp add: base58_ok_def)

lemma base58_inject: "base58_ok K \<Longrightarrow> to_base58 K a = to_base58 K b \<longleftrightarrow> a = b"
  by (metis base58_inverse sum.inject(2))

lemma base58_nonempty: "base58_ok K \<Longrightarrow> bs \<noteq> [] \<Longrightarrow> to_base58 K bs \<noteq> []"
proof
  assume K: "base58_ok K" and "bs \<noteq> []" and e: "to_base58 K bs = []"
  from K have "from_base58 K [] = Inr []" by (simp add: base58_ok_def)
  moreover have "from_base58 K [] = Inr bs" using base58_inverse [OF K, of bs] e by simp
  ultimately show False using \<open>bs \<noteq> []\<close> by simp
qed

lemma hex_inverse [simp]: "hex_ok K \<Longrightarrow> hex_decode K (hex_encode K bs) = Some bs"
  by (simp add: hex_ok_def)

lemma hex_inject: "hex_ok K \<Longrightarrow> hex_encode K a = hex_encode K b \<longleftrightarrow> a = b"
  using hex_inverse [of K a] hex_inverse [of K b] by (metis option.inject)

lemma hex_no_colon [simp]:
  assumes "hex_ok K"
  shows "CHR '':'' \<notin> set (hex_encode K bs)"
proof -
  have "set (hex_encode K bs) \<subseteq> set hex_digits" using assms by (simp add: hex_ok_def)
  moreover have "CHR '':'' \<notin> set hex_digits" by (simp add: hex_digits_def)
  ultimately show ?thesis by blast
qed

lemma hex_ascii:
  assumes "hex_ok K"
  shows "is_ascii (hex_encode K bs)"
proof -
  have "set (hex_encode K bs) \<subseteq> set hex_digits" using assms by (simp add: hex_ok_def)
  moreover have "is_ascii hex_digits" by (simp add: hex_digits_def)
  ultimately show ?thesis unfolding is_ascii_def by blast
qed

lemma json_roundtrip:
  assumes "json_ok K" and "wf_wire m"
  obtains v where "json_to_vec K m = Inr v" "v \<noteq> []" "utf8_valid v" "json_from_slice K v = Inr m"
  using assms by (auto simp: json_ok_def)

end
