(* ===== verification/Async_IO.thy ===== *)
theory Async_IO
  imports Crates
begin

text \<open>
  The asynchronous environment of the program: Tor streams and the \<open>tokio\<close> channels. They are third-party code, so what they answer is a parameter of the model. A run
  of a task is described by the log of the calls it has made, each with its answer; an
  environment (record \<open>net\<close>) gives the answer to the next call from the log so far. A theorem
  about every environment is therefore a theorem about every behaviour of the network, of the
  peers and of the other tasks, timeouts and failures included.

  A call that is awaited answers \<open>Elapsed\<close> when the timeout around it fires first, or when it
  never completes if there is no timeout.
\<close>

section \<open>Calls and logs\<close>

text \<open>What a task hands to the other tasks, by channel.\<close>

datatype chan_msg =
    ToEvents chat_event            \<comment> \<open>\<open>event_tx\<close>: the room's event stream\<close>
  | ToMsg peer_id wire_message     \<comment> \<open>\<open>msg_tx\<close>: from a peer's reader to the hub's main loop\<close>
  | ToBroadcast chat_event         \<comment> \<open>\<open>broadcast_tx\<close> of \<open>hub.rs\<close>\<close>
  | ToWire wire_message            \<comment> \<open>\<open>wire_broadcast\<close> of \<open>room.rs\<close>\<close>
  | ToWriter nat bytes             \<comment> \<open>a peer's \<open>PeerTx\<close> of \<open>hub.rs\<close>, by channel: a frame for its writer\<close>
  | ToProgress chat_event          \<comment> \<open>the progress stream of \<open>bootstrap.rs\<close>\<close>
  | ToSend string                  \<comment> \<open>\<open>send_tx\<close>: a text of the local user\<close>

datatype io_call =
    ReadExact nat "(io_error + bytes) timed"
  | ReadSome nat "(io_error + bytes) timed"
  | WriteAll bytes "(io_error + unit) timed"
  | Flush "(io_error + unit) timed"
  | SendAwait chan_msg "bool timed"   \<comment> \<open>\<open>send(..).await\<close>; \<open>False\<close>: the receiver is gone\<close>
  | TrySend chan_msg bool             \<comment> \<open>\<open>try_send\<close> or a send that does not wait\<close>

type_synonym log = "io_call list"

record net =
  n_read_exact :: "log \<Rightarrow> nat \<Rightarrow> (io_error + bytes) timed"
  n_read :: "log \<Rightarrow> nat \<Rightarrow> (io_error + bytes) timed"
  n_write_all :: "log \<Rightarrow> bytes \<Rightarrow> (io_error + unit) timed"
  n_flush :: "log \<Rightarrow> (io_error + unit) timed"
  n_send :: "log \<Rightarrow> chan_msg \<Rightarrow> bool timed"
  n_try_send :: "log \<Rightarrow> chan_msg \<Rightarrow> bool"

text \<open>Making a call: the answer and the log with the call at its end.\<close>

definition read_exact :: "net \<Rightarrow> nat \<Rightarrow> log \<Rightarrow> (io_error + bytes) timed \<times> log" where
  "read_exact N n h = (let r = n_read_exact N h n in (r, h @ [ReadExact n r]))"

definition read_some :: "net \<Rightarrow> nat \<Rightarrow> log \<Rightarrow> (io_error + bytes) timed \<times> log" where
  "read_some N n h = (let r = n_read N h n in (r, h @ [ReadSome n r]))"

definition write_all :: "net \<Rightarrow> bytes \<Rightarrow> log \<Rightarrow> (io_error + unit) timed \<times> log" where
  "write_all N bs h = (let r = n_write_all N h bs in (r, h @ [WriteAll bs r]))"

definition flush :: "net \<Rightarrow> log \<Rightarrow> (io_error + unit) timed \<times> log" where
  "flush N h = (let r = n_flush N h in (r, h @ [Flush r]))"

definition send_await :: "net \<Rightarrow> chan_msg \<Rightarrow> log \<Rightarrow> bool timed \<times> log" where
  "send_await N x h = (let r = n_send N h x in (r, h @ [SendAwait x r]))"

definition try_send :: "net \<Rightarrow> chan_msg \<Rightarrow> log \<Rightarrow> bool \<times> log" where
  "try_send N x h = (let r = n_try_send N h x in (r, h @ [TrySend x r]))"

lemmas call_defs = read_exact_def read_some_def write_all_def flush_def send_await_def
  try_send_def Let_def

text \<open>
  The idiom \<open>timeout(d, f).await.map_err(..)?.map_err(..)\<close> of the program: a timeout and an I/O
  error both become \<open>ChatError::Connection\<close>, with their own texts.
\<close>

definition timed_conn :: "string \<Rightarrow> string \<Rightarrow> (io_error + 'a) timed \<Rightarrow> chat_error + 'a" where
  "timed_conn to_msg io_prefix r = (case r of
     Elapsed \<Rightarrow> Inl (Connection to_msg)
   | Ready (Inl e) \<Rightarrow> Inl (Connection (io_prefix @ io_msg e))
   | Ready (Inr v) \<Rightarrow> Inr v)"

lemma timed_conn_simps [simp]:
  "timed_conn a b Elapsed = Inl (Connection a)"
  "timed_conn a b (Ready (Inl e)) = Inl (Connection (b @ io_msg e))"
  "timed_conn a b (Ready (Inr v)) = Inr v"
  by (simp_all add: timed_conn_def)

lemma timed_conn_Inr [simp]: "timed_conn a b r = Inr v \<longleftrightarrow> r = Ready (Inr v)"
  by (auto simp: timed_conn_def split: timed.splits sum.splits)

lemma timed_conn_Inl: "timed_conn a b r = Inl e \<Longrightarrow> \<exists>s. e = Connection s"
  by (auto simp: timed_conn_def split: timed.splits sum.splits)

section \<open>Observing a log\<close>

text \<open>The bytes that read calls returned, and the sizes that they asked for.\<close>

fun call_read :: "io_call \<Rightarrow> bytes" where
  "call_read (ReadExact n (Ready (Inr bs))) = bs"
| "call_read (ReadSome n (Ready (Inr bs))) = bs"
| "call_read _ = []"

definition read_bytes :: "log \<Rightarrow> bytes" where
  "read_bytes h = concat (map call_read h)"

fun call_read_size :: "io_call \<Rightarrow> nat list" where
  "call_read_size (ReadExact n r) = [n]"
| "call_read_size (ReadSome n r) = [n]"
| "call_read_size _ = []"

definition read_sizes :: "log \<Rightarrow> nat list" where
  "read_sizes h = concat (map call_read_size h)"

text \<open>The buffers passed to \<open>write_all\<close>, in order, and the bytes of those that completed.\<close>

fun call_write :: "io_call \<Rightarrow> bytes list" where
  "call_write (WriteAll bs r) = [bs]"
| "call_write _ = []"

definition writes :: "log \<Rightarrow> bytes list" where
  "writes h = concat (map call_write h)"

fun call_written :: "io_call \<Rightarrow> bytes" where
  "call_written (WriteAll bs (Ready (Inr _))) = bs"
| "call_written _ = []"

definition written :: "log \<Rightarrow> bytes" where
  "written h = concat (map call_written h)"

text \<open>What was offered to a channel, and what a channel took.\<close>

fun call_offer :: "io_call \<Rightarrow> chan_msg list" where
  "call_offer (SendAwait x r) = [x]"
| "call_offer (TrySend x r) = [x]"
| "call_offer _ = []"

definition offers :: "log \<Rightarrow> chan_msg list" where
  "offers h = concat (map call_offer h)"

fun call_accept :: "io_call \<Rightarrow> chan_msg list" where
  "call_accept (SendAwait x (Ready True)) = [x]"
| "call_accept (TrySend x True) = [x]"
| "call_accept _ = []"

definition accepted :: "log \<Rightarrow> chan_msg list" where
  "accepted h = concat (map call_accept h)"

lemmas observer_defs = read_bytes_def read_sizes_def writes_def written_def offers_def accepted_def

lemma observe_Nil [simp]:
  "read_bytes [] = []" "read_sizes [] = []" "writes [] = []" "written [] = []"
  "offers [] = []" "accepted [] = []"
  by (simp_all add: observer_defs)

lemma observe_append [simp]:
  "read_bytes (h @ k) = read_bytes h @ read_bytes k"
  "read_sizes (h @ k) = read_sizes h @ read_sizes k"
  "writes (h @ k) = writes h @ writes k"
  "written (h @ k) = written h @ written k"
  "offers (h @ k) = offers h @ offers k"
  "accepted (h @ k) = accepted h @ accepted k"
  by (simp_all add: observer_defs)

lemma observe_one [simp]:
  "read_bytes [c] = call_read c" "read_sizes [c] = call_read_size c" "writes [c] = call_write c"
  "written [c] = call_written c" "offers [c] = call_offer c" "accepted [c] = call_accept c"
  by (simp_all add: observer_defs)

lemma observe_Cons [simp]:
  "read_bytes (c # k) = call_read c @ read_bytes k"
  "read_sizes (c # k) = call_read_size c @ read_sizes k"
  "writes (c # k) = call_write c @ writes k"
  "written (c # k) = call_written c @ written k"
  "offers (c # k) = call_offer c @ offers k"
  "accepted (c # k) = call_accept c @ accepted k"
  by (simp_all add: observer_defs)

section \<open>Documented behaviour of streams\<close>

text \<open>
  \<open>AsyncReadExt\<close>: a successful \<open>read_exact\<close> fills its buffer; a successful \<open>read\<close> returns at
  most as many bytes as there is room for.
\<close>

definition reads_fit :: "net \<Rightarrow> bool" where
  "reads_fit N \<longleftrightarrow>
     (\<forall>h n bs. n_read_exact N h n = Ready (Inr bs) \<longrightarrow> length bs = n)
   \<and> (\<forall>h n bs. n_read N h n = Ready (Inr bs) \<longrightarrow> length bs \<le> n)"

text \<open>No read of a log has failed or timed out.\<close>

fun call_read_ok :: "io_call \<Rightarrow> bool" where
  "call_read_ok (ReadExact n r) = (case r of Ready (Inr _) \<Rightarrow> True | _ \<Rightarrow> False)"
| "call_read_ok (ReadSome n r) = (case r of Ready (Inr _) \<Rightarrow> True | _ \<Rightarrow> False)"
| "call_read_ok _ = True"

definition reads_ok :: "log \<Rightarrow> bool" where
  "reads_ok h \<longleftrightarrow> (\<forall>c \<in> set h. call_read_ok c)"

lemma reads_ok_simps [simp]:
  "reads_ok []" "reads_ok (c # h) \<longleftrightarrow> call_read_ok c \<and> reads_ok h"
  "reads_ok (h @ k) \<longleftrightarrow> reads_ok h \<and> reads_ok k"
  by (auto simp: reads_ok_def)

text \<open>
  The peer's side of the stream sends \<open>bs\<close> and closes: after reads that returned the first bytes
  of \<open>bs\<close>, \<open>read_exact n\<close> returns the next \<open>n\<close> bytes while there are that many, and fails with
  an \<open>UnexpectedEof\<close> error otherwise.
\<close>

definition feeds :: "net \<Rightarrow> bytes \<Rightarrow> bool" where
  "feeds N bs \<longleftrightarrow> (\<forall>h n. reads_ok h \<longrightarrow>
     (if length (read_bytes h) + n \<le> length bs
      then n_read_exact N h n = Ready (Inr (take n (drop (length (read_bytes h)) bs)))
      else \<exists>e. n_read_exact N h n = Ready (Inl e) \<and> io_kind e = UnexpectedEof))"

lemma feeds_more:
  "feeds N bs \<Longrightarrow> reads_ok h \<Longrightarrow> length (read_bytes h) + n \<le> length bs \<Longrightarrow>
   n_read_exact N h n = Ready (Inr (take n (drop (length (read_bytes h)) bs)))"
  unfolding feeds_def by (drule spec [of _ h], drule spec [of _ n]) simp

lemma feeds_next:
  assumes "feeds N (bs @ x @ rest)" and "reads_ok h" and "length (read_bytes h) = length bs"
    and "length x = n"
  shows "n_read_exact N h n = Ready (Inr x)"
  using feeds_more [OF assms(1,2), of n] assms(3,4) by simp

lemma feeds_eof:
  assumes "feeds N bs" and "reads_ok h" and "length bs < length (read_bytes h) + n"
  obtains e where "n_read_exact N h n = Ready (Inl e)" and "io_kind e = UnexpectedEof"
proof -
  have "\<exists>e. n_read_exact N h n = Ready (Inl e) \<and> io_kind e = UnexpectedEof"
    using assms unfolding feeds_def by (metis not_le)
  then show ?thesis using that by blast
qed

text \<open>Writes, flushes and channels that always succeed.\<close>

definition writes_succeed :: "net \<Rightarrow> bool" where
  "writes_succeed N \<longleftrightarrow>
     (\<forall>h bs. n_write_all N h bs = Ready (Inr ())) \<and> (\<forall>h. n_flush N h = Ready (Inr ()))"

definition sends_succeed :: "net \<Rightarrow> bool" where
  "sends_succeed N \<longleftrightarrow> (\<forall>h x. n_send N h x = Ready True) \<and> (\<forall>h x. n_try_send N h x)"

section \<open>An environment in memory\<close>

text \<open>
  A peer that sends \<open>bs\<close> and takes everything, as the in-memory duplex streams of the tests do:
  the environment on which the witnesses of the development run.
\<close>

definition eof_error :: io_error where
  "eof_error = \<lparr>io_kind = UnexpectedEof, io_msg = ''early eof'', io_os_code = None\<rparr>"

definition mem_net :: "bytes \<Rightarrow> net" where
  "mem_net bs = \<lparr>
     n_read_exact = (\<lambda>h n. let p = length (read_bytes h) in
       if p + n \<le> length bs then Ready (Inr (take n (drop p bs))) else Ready (Inl eof_error)),
     n_read = (\<lambda>h n. Ready (Inr (take n (drop (length (read_bytes h)) bs)))),
     n_write_all = (\<lambda>h w. Ready (Inr ())),
     n_flush = (\<lambda>h. Ready (Inr ())),
     n_send = (\<lambda>h x. Ready True),
     n_try_send = (\<lambda>h x. True)\<rparr>"

lemma mem_net_feeds [simp]: "feeds (mem_net bs) bs"
  by (simp add: feeds_def mem_net_def Let_def eof_error_def)

lemma mem_net_reads_fit [simp]: "reads_fit (mem_net bs)"
  by (simp add: reads_fit_def mem_net_def Let_def)

lemma mem_net_succeeds [simp]: "writes_succeed (mem_net bs)" "sends_succeed (mem_net bs)"
  by (simp_all add: writes_succeed_def sends_succeed_def mem_net_def)

end
