(* ===== verification/Sample_Crates.thy ===== *)
theory Sample_Crates
  imports Crates
begin

text \<open>
  A concrete instance of the package parameter, on which the witnesses run: hexadecimal as the
  \<open>hex\<close> package prints it, also standing in for base58, and a tagged text format standing in for
  JSON. It shows that the hypotheses \<open>base58_ok\<close>, \<open>hex_ok\<close> and \<open>json_ok\<close> can hold together.
\<close>

definition nibble :: "nat \<Rightarrow> char" where
  "nibble n = (if n < 10 then char_of (48 + n) else char_of (87 + n))"

definition nibble_val :: "char \<Rightarrow> nat option" where
  "nibble_val c = (let n = of_char c in
     if 48 \<le> n \<and> n \<le> 57 then Some (n - 48)
     else if 97 \<le> n \<and> n \<le> 102 then Some (n - 87) else None)"

definition hex_byte :: "u8 \<Rightarrow> string" where
  "hex_byte b = [nibble (unat b div 16), nibble (unat b mod 16)]"

definition sample_hex :: "bytes \<Rightarrow> string" where
  "sample_hex bs = concat (map hex_byte bs)"

fun sample_unhex :: "string \<Rightarrow> bytes option" where
  "sample_unhex [] = Some []"
| "sample_unhex [c] = None"
| "sample_unhex (c # d # s) =
     (case (nibble_val c, nibble_val d, sample_unhex s) of
        (Some x, Some y, Some bs) \<Rightarrow> Some (word_of_nat (16 * x + y) # bs)
      | _ \<Rightarrow> None)"

lemma nibble_val_nibble [simp]: "n < 16 \<Longrightarrow> nibble_val (nibble n) = Some n"
  by (simp add: nibble_val_def nibble_def Let_def)

lemma byte_nibbles: "unat (b :: u8) div 16 < 16"
proof -
  have "unat b < 2 ^ LENGTH(8)" by (rule unsigned_less)
  then show ?thesis by simp
qed

lemma sample_unhex_hex: "sample_unhex (sample_hex bs) = Some bs"
  by (induction bs) (simp_all add: sample_hex_def hex_byte_def byte_nibbles)

lemma nibble_in_digits: "n < 16 \<Longrightarrow> nibble n \<in> set hex_digits"
proof -
  have "\<forall>n \<in> set [0..<16]. nibble n \<in> set hex_digits" by code_simp
  then show "n < 16 \<Longrightarrow> nibble n \<in> set hex_digits" by simp
qed

lemma sample_hex_digits: "set (sample_hex bs) \<subseteq> set hex_digits"
  by (auto simp: sample_hex_def hex_byte_def intro!: nibble_in_digits byte_nibbles)

fun kind_char :: "message_type \<Rightarrow> char" where
  "kind_char Chat = CHR ''C''"
| "kind_char System = CHR ''S''"
| "kind_char Ping = CHR ''I''"
| "kind_char Pong = CHR ''O''"

definition char_kind :: "char \<Rightarrow> message_type option" where
  "char_kind c = (if c = CHR ''C'' then Some Chat else if c = CHR ''S'' then Some System
     else if c = CHR ''I'' then Some Ping else if c = CHR ''O'' then Some Pong else None)"

definition sample_json :: "wire_message \<Rightarrow> bytes" where
  "sample_json m = as_bytes (kind_char (wm_kind m) # sample_hex (as_bytes (wm_name m))
     @ CHR '','' # sample_hex (as_bytes (wm_text m)))"

definition sample_unjson :: "bytes \<Rightarrow> wire_message option" where
  "sample_unjson bs = (case str_of_bytes bs of
     [] \<Rightarrow> None
   | c # s \<Rightarrow>
      (case (char_kind c, split_once (CHR '','') s) of
         (Some k, Some (a, b)) \<Rightarrow>
           (case (sample_unhex a, sample_unhex b) of
              (Some name, Some text) \<Rightarrow>
                Some \<lparr>wm_kind = k, wm_name = str_of_bytes name, wm_text = str_of_bytes text\<rparr>
            | _ \<Rightarrow> None)
       | _ \<Rightarrow> None))"

definition sample_crates :: crates where
  "sample_crates = \<lparr>
     to_base58 = sample_hex,
     from_base58 = (\<lambda>s. case sample_unhex s of None \<Rightarrow> Inl ''InvalidBase58Character''
                                            | Some bs \<Rightarrow> Inr bs),
     hex_encode = sample_hex,
     hex_decode = sample_unhex,
     json_to_vec = (\<lambda>m. Inr (sample_json m)),
     json_from_slice = (\<lambda>bs. case sample_unjson bs of None \<Rightarrow> Inl ''expected value''
                                                  | Some m \<Rightarrow> Inr m)\<rparr>"

lemma sample_hex_no_comma: "CHR '','' \<notin> set (sample_hex bs)"
  using sample_hex_digits [of bs] by (auto simp: hex_digits_def)

lemma sample_hex_ascii: "is_ascii (sample_hex bs)"
proof -
  have "is_ascii hex_digits" by (simp add: hex_digits_def)
  then show ?thesis using sample_hex_digits [of bs] unfolding is_ascii_def by blast
qed

lemma char_kind_kind [simp]: "char_kind (kind_char k) = Some k"
  by (cases k) (simp_all add: char_kind_def)

lemma sample_unjson_json: "sample_unjson (sample_json m) = Some m"
  by (simp add: sample_unjson_def sample_json_def sample_hex_no_comma sample_unhex_hex
           del: as_bytes_append as_bytes_Cons)

lemma sample_json_utf8: "utf8_valid (sample_json m)"
proof -
  have "is_ascii (kind_char (wm_kind m) # sample_hex (as_bytes (wm_name m))
     @ CHR '','' # sample_hex (as_bytes (wm_text m)))"
    using sample_hex_ascii by (cases "wm_kind m") simp_all
  then show ?thesis
    unfolding sample_json_def is_utf8_def [symmetric] by (rule ascii_is_utf8)
qed

lemma sample_crates_ok [simp]:
  "base58_ok sample_crates" "hex_ok sample_crates" "json_ok sample_crates"
proof -
  have "sample_hex [] = []" by (simp add: sample_hex_def)
  then show "base58_ok sample_crates"
    by (simp add: base58_ok_def sample_crates_def sample_unhex_hex)
  show "hex_ok sample_crates"
    using sample_hex_digits by (simp add: hex_ok_def sample_crates_def sample_unhex_hex)
  have "sample_json m \<noteq> []" for m by (simp add: sample_json_def)
  then show "json_ok sample_crates"
    by (simp add: json_ok_def sample_crates_def sample_unjson_json sample_json_utf8)
qed

end
