(* ===== verification/Wire.thy ===== *)
theory Wire
  imports Async_IO Sample_Crates
begin

text \<open>
  The length-prefixed wire protocol, \<open>crates/core/src/wire.rs\<close>: the constructors of messages,
  \<open>encode_message\<close>, \<open>decode_message\<close>, and the framed reads and writes on a stream.
\<close>

section \<open>Messages\<close>

definition MAX_PAYLOAD_BYTES :: nat where
  "MAX_PAYLOAD_BYTES = 16 * 1024"

definition wire_chat :: "string \<Rightarrow> string \<Rightarrow> wire_message" where
  "wire_chat name text = \<lparr>wm_kind = Chat, wm_name = name, wm_text = text\<rparr>"

definition wire_system :: "string \<Rightarrow> wire_message" where
  "wire_system text = \<lparr>wm_kind = System, wm_name = [], wm_text = text\<rparr>"

definition wire_ping :: wire_message where
  "wire_ping = \<lparr>wm_kind = Ping, wm_name = [], wm_text = []\<rparr>"

definition wire_pong :: wire_message where
  "wire_pong = \<lparr>wm_kind = Pong, wm_name = [], wm_text = []\<rparr>"

lemma wf_wire_simps [simp]:
  "wf_wire (wire_chat name text) \<longleftrightarrow> is_utf8 name \<and> is_utf8 text"
  "wf_wire (wire_system text) \<longleftrightarrow> is_utf8 text"
  "wf_wire wire_ping" "wf_wire wire_pong"
  by (simp_all add: wf_wire_def wire_chat_def wire_system_def wire_ping_def wire_pong_def)

lemma wire_msg_simps [simp]:
  "wm_kind (wire_chat n t) = Chat" "wm_name (wire_chat n t) = n" "wm_text (wire_chat n t) = t"
  "wm_kind (wire_system t) = System" "wm_name (wire_system t) = []" "wm_text (wire_system t) = t"
  "wm_kind wire_ping = Ping" "wm_kind wire_pong = Pong"
  by (simp_all add: wire_chat_def wire_system_def wire_ping_def wire_pong_def)

section \<open>Encoding and decoding\<close>

definition encode_message :: "crates \<Rightarrow> wire_message \<Rightarrow> chat_error + bytes" where
  "encode_message K msg =
     (case json_to_vec K msg of
        Inl e \<Rightarrow> Inl (WireError (''json encode failed: '' @ e))
      | Inr payload \<Rightarrow>
          if length payload > MAX_PAYLOAD_BYTES
          then Inl (OversizedMessage (length payload) MAX_PAYLOAD_BYTES)
          else Inr (to_be_bytes (word_of_nat (length payload)) @ payload))"

definition decode_message :: "crates \<Rightarrow> bytes \<Rightarrow> chat_error + wire_message" where
  "decode_message K data =
     (if length data < 4 then Inl (WireError ''payload too short for header'')
      else
        let payload_len = unat (from_be_bytes (take 4 data)) in
        if payload_len = 0 then Inl (WireError ''zero-length payload'')
        else if payload_len > MAX_PAYLOAD_BYTES
        then Inl (OversizedMessage payload_len MAX_PAYLOAD_BYTES)
        else if length data < 4 + payload_len then Inl (WireError ''truncated payload'')
        else map_err (\<lambda>e. WireError (''json decode failed: '' @ e))
               (json_from_slice K (take payload_len (drop 4 data))))"

section \<open>Frames on a stream\<close>

text \<open>
  \<open>read_frame\<close> has two awaits and no timeout of its own; its callers put one around it, so that
  \<open>Elapsed\<close> from either await is the outcome of the whole call.
\<close>

definition read_frame :: "net \<Rightarrow> log \<Rightarrow> (chat_error + bytes) timed \<times> log" where
  "read_frame N h =
     (case read_exact N 4 h of
        (Elapsed, h1) \<Rightarrow> (Elapsed, h1)
      | (Ready (Inl e), h1) \<Rightarrow> (Ready (Inl (WireError (''header read failed: '' @ io_msg e))), h1)
      | (Ready (Inr header), h1) \<Rightarrow>
          let payload_len = unat (from_be_bytes header) in
          if payload_len = 0 then (Ready (Inl (WireError ''zero-length payload'')), h1)
          else if payload_len > MAX_PAYLOAD_BYTES
          then (Ready (Inl (OversizedMessage payload_len MAX_PAYLOAD_BYTES)), h1)
          else
            (case read_exact N payload_len h1 of
               (Elapsed, h2) \<Rightarrow> (Elapsed, h2)
             | (Ready (Inl e), h2) \<Rightarrow>
                 (Ready (Inl (WireError (''payload read failed: '' @ io_msg e))), h2)
             | (Ready (Inr payload), h2) \<Rightarrow>
                 if \<not> utf8_valid payload
                 then (Ready (Inl (WireError ''payload is not valid UTF-8'')), h2)
                 else (Ready (Inr (header @ payload)), h2)))"

text \<open>
  The two awaits of every write of the program: \<open>write_all\<close>, then \<open>flush\<close>, each under its own
  timeout and with its own error texts.
\<close>

definition write_flush ::
  "string \<Rightarrow> string \<Rightarrow> string \<Rightarrow> string \<Rightarrow> net \<Rightarrow> bytes \<Rightarrow> log \<Rightarrow> (chat_error + unit) \<times> log" where
  "write_flush w_elapsed w_error f_elapsed f_error N bs h =
     (let (w, h1) = write_all N bs h in
      case timed_conn w_elapsed w_error w of
        Inl e \<Rightarrow> (Inl e, h1)
      | Inr _ \<Rightarrow>
          let (f, h2) = flush N h1 in
          (case timed_conn f_elapsed f_error f of
             Inl e \<Rightarrow> (Inl e, h2)
           | Inr _ \<Rightarrow> (Inr (), h2)))"

definition write_frame :: "net \<Rightarrow> bytes \<Rightarrow> log \<Rightarrow> (chat_error + unit) \<times> log" where
  "write_frame N frame h =
     write_flush ''write timed out'' ''write failed: '' ''flush timed out'' ''flush failed: '' N frame h"

section \<open>Lemmas\<close>

text \<open>The header that announces a payload.\<close>

definition frame_of :: "bytes \<Rightarrow> bytes" where
  "frame_of payload = to_be_bytes (word_of_nat (length payload)) @ payload"

lemma length_frame_of [simp]: "length (frame_of v) = 4 + length v"
  by (simp add: frame_of_def)

lemma drop_frame_of [simp]: "drop 4 (frame_of v) = v"
  by (simp add: frame_of_def)

lemma unat_frame_length:
  "n \<le> MAX_PAYLOAD_BYTES \<Longrightarrow> unat (word_of_nat n :: u32) = n"
  by (simp add: MAX_PAYLOAD_BYTES_def unsigned_of_nat take_bit_nat_eq_self)

lemma encode_message_eq:
  "encode_message K m = Inr f \<longleftrightarrow>
     (\<exists>v. json_to_vec K m = Inr v \<and> length v \<le> MAX_PAYLOAD_BYTES \<and> f = frame_of v)"
  by (auto simp: encode_message_def frame_of_def split: sum.splits if_splits)

lemma decode_frame_of [codec_simps]:
  assumes "v \<noteq> []" and "length v \<le> MAX_PAYLOAD_BYTES"
  shows "decode_message K (frame_of v @ rest) =
    map_err (\<lambda>e. WireError (''json decode failed: '' @ e)) (json_from_slice K v)"
  using assms by (simp add: decode_message_def frame_of_def unat_frame_length Let_def)

lemmas decode_frame [codec_simps] = decode_frame_of [where rest = "[]", simplified]

lemma encode_message_cases:
  assumes "json_ok K" and "wf_wire m"
  obtains v where "json_to_vec K m = Inr v" "v \<noteq> []" "utf8_valid v" "json_from_slice K v = Inr m"
    "encode_message K m =
       (if length v > MAX_PAYLOAD_BYTES then Inl (OversizedMessage (length v) MAX_PAYLOAD_BYTES)
        else Inr (frame_of v))"
proof -
  obtain v where v: "json_to_vec K m = Inr v" "v \<noteq> []" "utf8_valid v" "json_from_slice K v = Inr m"
    using json_roundtrip [OF assms] .
  then show ?thesis
    by (intro that [OF v]) (simp add: encode_message_def frame_of_def)
qed

lemma encode_message_InrE:
  assumes "json_ok K" and "wf_wire m" and "encode_message K m = Inr f"
  obtains v where "f = frame_of v" "v \<noteq> []" "utf8_valid v" "length v \<le> MAX_PAYLOAD_BYTES"
    "json_from_slice K v = Inr m"
  using encode_message_cases [OF assms(1,2)] assms(3) by (metis Inl_Inr_False Inr_inject leI)

text \<open>
  \<open>read_frame\<close> on a stream that holds a frame at the current position: it returns that frame
  and has read exactly its bytes.
\<close>

lemma read_frame_feeds [io_simps]:
  assumes N: "feeds N (pre @ frame_of v @ post)" and h: "reads_ok h"
    and pre: "length (read_bytes h) = length pre"
    and v: "v \<noteq> []" "utf8_valid v" "length v \<le> MAX_PAYLOAD_BYTES"
  shows "read_frame N h = (Ready (Inr (frame_of v)),
    h @ [ReadExact 4 (Ready (Inr (take 4 (frame_of v)))), ReadExact (length v) (Ready (Inr v))])"
proof -
  let ?hdr = "to_be_bytes (word_of_nat (length v)) :: bytes"
  let ?h1 = "h @ [ReadExact 4 (Ready (Inr ?hdr))]"
  have "feeds N (pre @ ?hdr @ (v @ post))" using N by (simp add: frame_of_def)
  then have 1: "n_read_exact N h 4 = Ready (Inr ?hdr)"
    by (rule feeds_next [OF _ h pre]) simp
  have "feeds N ((pre @ ?hdr) @ v @ post)" using N by (simp add: frame_of_def)
  then have 2: "n_read_exact N ?h1 (length v) = Ready (Inr v)"
    by (rule feeds_next) (simp_all add: h pre)
  show ?thesis
    using 1 2 v by (simp add: read_frame_def read_exact_def Let_def unat_frame_length frame_of_def)
qed

text \<open>At the end of the stream, \<open>read_frame\<close> fails.\<close>

lemma read_frame_eof:
  assumes N: "feeds N bs" and h: "reads_ok h" and len: "length bs < length (read_bytes h) + 4"
  obtains e where "read_frame N h = (Ready (Inl (WireError (''header read failed: '' @ io_msg e))),
      h @ [ReadExact 4 (Ready (Inl e))])" and "io_kind e = UnexpectedEof"
proof -
  obtain e where e: "n_read_exact N h 4 = Ready (Inl e)" "io_kind e = UnexpectedEof"
    using feeds_eof [OF N h len] .
  show ?thesis by (rule that [of e]) (simp_all add: read_frame_def read_exact_def Let_def e)
qed

text \<open>Writing a frame where the stream takes it.\<close>

lemma write_flush_succeeds [io_simps]:
  "writes_succeed N \<Longrightarrow>
   write_flush a b c d N f h = (Inr (), h @ [WriteAll f (Ready (Inr ())), Flush (Ready (Inr ()))])"
  by (simp add: write_flush_def write_all_def flush_def writes_succeed_def Let_def)

lemmas write_frame_succeeds [io_simps] =
  write_flush_succeeds [where a = "''write timed out''" and b = "''write failed: ''"
    and c = "''flush timed out''" and d = "''flush failed: ''", folded write_frame_def]

text \<open>A write and flush succeeds or is a connection error; on success all bytes are written.\<close>

lemma write_flush_cases:
  assumes "write_flush a b c d N bs h = (r, h')"
  obtains (ok) "r = Inr ()" "h' = h @ [WriteAll bs (Ready (Inr ())), Flush (Ready (Inr ()))]"
  | (failed) msg k where "r = Inl (Connection msg)" "h' = h @ k" "writes k = [bs]"
      "read_sizes k = []" "read_bytes k = []" "offers k = []" "accepted k = []"
  using assms that
  by (auto simp: write_flush_def write_all_def flush_def Let_def timed_conn_def
           split: timed.splits sum.splits)

text \<open>What a successful \<open>read_frame\<close> has read, in any environment.\<close>

lemma read_frame_Inr:
  assumes "read_frame N h = (Ready (Inr f), h')"
  obtains hdr v where "f = hdr @ v" "unat (from_be_bytes hdr) \<noteq> 0"
    "unat (from_be_bytes hdr) \<le> MAX_PAYLOAD_BYTES" "utf8_valid v"
    "n_read_exact N h 4 = Ready (Inr hdr)"
    "n_read_exact N (h @ [ReadExact 4 (Ready (Inr hdr))]) (unat (from_be_bytes hdr)) = Ready (Inr v)"
    "h' = h @ [ReadExact 4 (Ready (Inr hdr)), ReadExact (unat (from_be_bytes hdr)) (Ready (Inr v))]"
  using assms that
  by (auto simp: read_frame_def read_exact_def Let_def
           split: timed.splits sum.splits if_splits prod.splits)

text \<open>The calls of a \<open>read_frame\<close>: at most two reads, none of them larger than the limit.\<close>

lemma read_frame_log:
  assumes "read_frame N h = (r, h')"
  shows "\<exists>k. h' = h @ k \<and> (\<forall>n \<in> set (read_sizes k). n \<le> MAX_PAYLOAD_BYTES)
      \<and> writes k = [] \<and> written k = [] \<and> offers k = [] \<and> accepted k = [] \<and> k \<noteq> []"
  using assms
  by (auto simp: read_frame_def read_exact_def Let_def MAX_PAYLOAD_BYTES_def
           split: timed.splits sum.splits if_splits prod.splits)

text \<open>Every four bytes are the big-endian form of the number they denote.\<close>

lemma to_be_bytes_from_be_bytes:
  assumes "length hdr = 4"
  shows "to_be_bytes (from_be_bytes hdr) = hdr"
proof -
  obtain a b c d where hdr: "hdr = [a, b, c, d]"
    using assms by (auto simp: length_Suc_conv numeral_eq_Suc)
  have "ucast (drop_bit 24 (from_be_bytes hdr)) = a"
    unfolding hdr by (rule bit_word_eqI) (auto simp: bit_simps dest: bit_imp_le_length)
  moreover have "ucast (drop_bit 16 (from_be_bytes hdr)) = b"
    unfolding hdr by (rule bit_word_eqI) (auto simp: bit_simps dest: bit_imp_le_length)
  moreover have "ucast (drop_bit 8 (from_be_bytes hdr)) = c"
    unfolding hdr by (rule bit_word_eqI) (auto simp: bit_simps dest: bit_imp_le_length)
  moreover have "ucast (from_be_bytes hdr) = d"
    unfolding hdr by (rule bit_word_eqI) (auto simp: bit_simps dest: bit_imp_le_length)
  ultimately show ?thesis by (simp add: hdr to_be_bytes_def)
qed

text \<open>So a frame that \<open>read_frame\<close> returns is the frame of its payload.\<close>

lemma read_frame_canonical:
  assumes N: "reads_fit N" and r: "read_frame N h = (Ready (Inr f), h')"
  obtains v where "f = frame_of v" "v \<noteq> []" "length v \<le> MAX_PAYLOAD_BYTES" "utf8_valid v"
    "h' = h @ [ReadExact 4 (Ready (Inr (take 4 f))), ReadExact (length v) (Ready (Inr v))]"
proof -
  obtain hdr v where f: "f = hdr @ v" and len: "unat (from_be_bytes hdr) \<noteq> 0"
      "unat (from_be_bytes hdr) \<le> MAX_PAYLOAD_BYTES" "utf8_valid v"
    and 1: "n_read_exact N h 4 = Ready (Inr hdr)"
    and 2: "n_read_exact N (h @ [ReadExact 4 (Ready (Inr hdr))]) (unat (from_be_bytes hdr))
      = Ready (Inr v)"
    and h': "h' = h @ [ReadExact 4 (Ready (Inr hdr)),
      ReadExact (unat (from_be_bytes hdr)) (Ready (Inr v))]"
    using read_frame_Inr [OF r] .
  have l4: "length hdr = 4" and lv: "length v = unat (from_be_bytes hdr)"
    using N 1 2 by (auto simp: reads_fit_def)
  have "frame_of v = f"
    using l4 lv f by (simp add: frame_of_def to_be_bytes_from_be_bytes)
  moreover have "v \<noteq> []" using lv len(1) by auto
  ultimately show ?thesis
    using that [of v] len l4 lv f h' by auto
qed

section \<open>Properties\<close>

text \<open>
  Round trip of the wire format: a message that encodes decodes to itself, whatever bytes
  follow the frame.
\<close>

theorem encode_decode_roundtrip:
  assumes "json_ok K" and "wf_wire m" and "encode_message K m = Inr f"
  shows "decode_message K (f @ rest) = Inr m"
proof -
  obtain v where "f = frame_of v" "v \<noteq> []" "length v \<le> MAX_PAYLOAD_BYTES"
      "json_from_slice K v = Inr m"
    using encode_message_InrE [OF assms] .
  then show ?thesis by (simp add: decode_frame_of)
qed

lemma sample_encode:
  "length (sample_json m) \<le> MAX_PAYLOAD_BYTES \<Longrightarrow>
   encode_message sample_crates m = Inr (frame_of (sample_json m))"
  by (simp add: encode_message_eq sample_crates_def)

lemma sample_length_small:
  "length (sample_json (wire_chat ''bob'' ''hi'')) \<le> MAX_PAYLOAD_BYTES"
  by code_simp

theorem encode_decode_roundtrip_witness:
  "\<exists>f. encode_message sample_crates (wire_chat ''bob'' ''hi'') = Inr f
     \<and> decode_message sample_crates (f @ [7]) = Inr (wire_chat ''bob'' ''hi'')"
proof -
  have e: "encode_message sample_crates (wire_chat ''bob'' ''hi'') =
      Inr (frame_of (sample_json (wire_chat ''bob'' ''hi'')))"
    by (rule sample_encode [OF sample_length_small])
  have "wf_wire (wire_chat ''bob'' ''hi'')" by (simp add: ascii_is_utf8)
  from encode_decode_roundtrip [OF _ this e, of "[7]"] e show ?thesis by auto
qed

text \<open>
  Encoding fails only on a payload over the limit, naming its size and the limit; otherwise
  the frame holds at least one and at most \<open>MAX_PAYLOAD_BYTES\<close> bytes of payload.
\<close>

theorem encode_message_bounds:
  assumes "json_ok K" and "wf_wire m"
  shows "case encode_message K m of
      Inl e \<Rightarrow> \<exists>v. json_to_vec K m = Inr v \<and> MAX_PAYLOAD_BYTES < length v
             \<and> e = OversizedMessage (length v) MAX_PAYLOAD_BYTES
    | Inr f \<Rightarrow> 4 < length f \<and> length f \<le> 4 + MAX_PAYLOAD_BYTES"
proof -
  obtain v where "json_to_vec K m = Inr v" "v \<noteq> []"
    "encode_message K m =
       (if length v > MAX_PAYLOAD_BYTES then Inl (OversizedMessage (length v) MAX_PAYLOAD_BYTES)
        else Inr (frame_of v))"
    using encode_message_cases [OF assms] by metis
  then show ?thesis by auto
qed

theorem encode_message_bounds_witness:
  "case encode_message sample_crates wire_ping of
      Inl e \<Rightarrow> \<exists>v. json_to_vec sample_crates wire_ping = Inr v \<and> MAX_PAYLOAD_BYTES < length v
             \<and> e = OversizedMessage (length v) MAX_PAYLOAD_BYTES
    | Inr f \<Rightarrow> 4 < length f \<and> length f \<le> 4 + MAX_PAYLOAD_BYTES"
  by (rule encode_message_bounds) simp_all

text \<open>
  C40. Whatever the stream delivers, \<open>read_frame\<close> makes at most two reads and never asks for more
  than \<open>MAX_PAYLOAD_BYTES\<close> bytes at once: a peer cannot make the program allocate more.
\<close>

theorem read_frame_bounded:
  "\<exists>r k. read_frame N h = (r, h @ k) \<and> length k \<le> 2
     \<and> list_all (\<lambda>n. n \<le> MAX_PAYLOAD_BYTES) (read_sizes k)"
  by (auto simp: read_frame_def read_exact_def Let_def MAX_PAYLOAD_BYTES_def
           split: timed.splits sum.splits if_splits)

text \<open>
  A frame that \<open>read_frame\<close> returns passes every framing check of \<open>decode_message\<close>, so that
  decoding it can only fail in the JSON parser: the two length checks agree.
\<close>

theorem read_frame_decode_agree:
  assumes "reads_fit N" and "read_frame N h = (Ready (Inr f), h')"
  shows "decode_message K f =
    map_err (\<lambda>e. WireError (''json decode failed: '' @ e)) (json_from_slice K (drop 4 f))"
proof -
  obtain v where "f = frame_of v" "v \<noteq> []" "length v \<le> MAX_PAYLOAD_BYTES"
    using read_frame_canonical [OF assms] by metis
  then show ?thesis
    by (simp add: decode_frame)
qed

theorem read_frame_decode_agree_witness:
  "\<exists>f h'. read_frame (mem_net [0, 0, 0, 1, 42, 7]) [] = (Ready (Inr f), h')
     \<and> decode_message sample_crates f =
        map_err (\<lambda>e. WireError (''json decode failed: '' @ e))
          (json_from_slice sample_crates (drop 4 f))"
proof -
  have "read_frame (mem_net [0, 0, 0, 1, 42, 7]) [] = (Ready (Inr [0, 0, 0, 1, 42]),
      [ReadExact 4 (Ready (Inr [0, 0, 0, 1])), ReadExact 1 (Ready (Inr [42]))])"
    by code_simp
  with read_frame_decode_agree [OF mem_net_reads_fit this] show ?thesis by blast
qed

text \<open>
  C23. End to end: what one side writes with \<open>write_frame\<close>, the other side reads with
  \<open>read_frame\<close> and decodes to the message that was sent.
\<close>

theorem write_read_roundtrip:
  assumes K: "json_ok K" "wf_wire m" and e: "encode_message K m = Inr f"
    and w: "write_frame Nw f [] = (Inr (), hw)"
    and r: "feeds Nr (written hw)"
  shows "\<exists>h'. read_frame Nr [] = (Ready (Inr f), h') \<and> decode_message K f = Inr m"
proof -
  obtain v where v: "f = frame_of v" "v \<noteq> []" "utf8_valid v" "length v \<le> MAX_PAYLOAD_BYTES"
    using encode_message_InrE [OF K e] .
  have "written hw = f"
    using w unfolding write_frame_def by (cases rule: write_flush_cases) auto
  with r v have "feeds Nr ([] @ frame_of v @ [])" by simp
  from read_frame_feeds [OF this, of "[]"] v
  have "\<exists>h'. read_frame Nr [] = (Ready (Inr f), h')" by simp
  moreover have "decode_message K (f @ []) = Inr m"
  proof -
    obtain v' where "f = frame_of v'" "v' \<noteq> []" "length v' \<le> MAX_PAYLOAD_BYTES"
      "json_from_slice K v' = Inr m" using encode_message_InrE [OF K e] .
    then show ?thesis by (simp add: decode_frame)
  qed
  ultimately show ?thesis by simp
qed

theorem write_read_roundtrip_witness:
  "\<exists>f hw h'. encode_message sample_crates (wire_chat ''bob'' ''hi'') = Inr f
     \<and> write_frame (mem_net []) f [] = (Inr (), hw)
     \<and> read_frame (mem_net (written hw)) [] = (Ready (Inr f), h')
     \<and> decode_message sample_crates f = Inr (wire_chat ''bob'' ''hi'')"
proof -
  let ?f = "frame_of (sample_json (wire_chat ''bob'' ''hi''))"
  have e: "encode_message sample_crates (wire_chat ''bob'' ''hi'') = Inr ?f"
    by (rule sample_encode [OF sample_length_small])
  have m: "wf_wire (wire_chat ''bob'' ''hi'')" by (simp add: ascii_is_utf8)
  obtain hw where w: "write_frame (mem_net []) ?f [] = (Inr (), hw)"
    using write_frame_succeeds [of "mem_net []" ?f "[]"] by simp
  from write_read_roundtrip [OF _ m e w mem_net_feeds] e w show ?thesis by auto
qed

end
