(* ===== verification/Invite.thy ===== *)
theory Invite
  imports Sample_Crates
begin

text \<open>
  Invite codes, \<open>crates/core/src/invite.rs\<close>: \<open>encode\<close>, \<open>decode\<close> and \<open>validate_address\<close>. The
  clock is an argument: \<open>now\<close> is \<open>Utc::now().timestamp() as u64\<close>. The additions of timestamps are
  checked or wrap, by build profile (argument \<open>checks\<close>); \<open>None\<close> is the panic of a checked one.
\<close>

section \<open>Addresses\<close>

definition validate_address :: "string \<Rightarrow> chat_error + unit" where
  "validate_address addr =
     (if \<not> ends_with addr ''.onion'' then Inl (InvalidInvite ''address must end with .onion'')
      else if length addr < 56 + length ''.onion''
      then Inl (InvalidInvite (''address too short ('' @ show_nat (length addr) @ '' chars)''))
      else Inr ())"

section \<open>Encoding\<close>

definition invite_text :: "crates \<Rightarrow> invite_payload \<Rightarrow> string" where
  "invite_text K p =
     ip_onion_address p @ '':'' @ hex_encode K (ip_nonce p) @ '':'' @ show_u64 (ip_timestamp p)
       @ '':'' @ (case ip_suggested_name p of None \<Rightarrow> '''' | Some s \<Rightarrow> s)"

definition encode_invite :: "crates \<Rightarrow> invite_payload \<Rightarrow> chat_error + string" where
  "encode_invite K p =
     (case validate_address (ip_onion_address p) of
        Inl e \<Rightarrow> Inl e
      | Inr _ \<Rightarrow> Inr (to_base58 K (as_bytes (invite_text K p))))"

section \<open>Decoding\<close>

definition too_far_error :: "u64 \<Rightarrow> u64 \<Rightarrow> chat_error" where
  "too_far_error timestamp now = InvalidInvite
     (''timestamp '' @ show_u64 timestamp @ '' is too far in the future (now '' @ show_u64 now @ '')'')"

text \<open>The last part of \<open>decode\<close>: clock skew of at most 300 s, then expiry.\<close>

definition check_times ::
  "bool \<Rightarrow> u64 \<Rightarrow> u64 option \<Rightarrow> invite_payload \<Rightarrow> (chat_error + invite_payload) option" where
  "check_times checks now ttl_secs p =
     (case add_u64 checks now 300 of
        None \<Rightarrow> None
      | Some limit \<Rightarrow>
          if ip_timestamp p > limit then Some (Inl (too_far_error (ip_timestamp p) now))
          else
            (case ttl_secs of
               None \<Rightarrow> Some (Inr p)
             | Some ttl \<Rightarrow>
                 if ttl > 0 then
                   (case add_u64 checks (ip_timestamp p) ttl of
                      None \<Rightarrow> None
                    | Some expiry \<Rightarrow>
                        if now > expiry then Some (Inl (InviteExpired (ip_timestamp p)))
                        else Some (Inr p))
                 else Some (Inr p)))"

text \<open>The middle part: the colon-separated fields.\<close>

definition parse_fields :: "crates \<Rightarrow> string \<Rightarrow> chat_error + invite_payload" where
  "parse_fields K decoded =
     (let parts = splitn 4 (CHR '':'') decoded in
      if length parts < 3 \<or> length parts > 4
      then Inl (InvalidInvite ''expected three or four colon-separated fields'')
      else
        (case validate_address (parts ! 0) of
           Inl e \<Rightarrow> Inl e
         | Inr _ \<Rightarrow>
             (case hex_decode K (parts ! 1) of
                None \<Rightarrow> Inl (InvalidInvite ''nonce is not valid hex'')
              | Some nonce_bytes \<Rightarrow>
                  if length nonce_bytes \<noteq> 16
                  then Inl (InvalidInvite (''nonce must be 16 bytes, got ''
                              @ show_nat (length nonce_bytes)))
                  else
                    (case parse_u64 (parts ! 2) of
                       None \<Rightarrow> Inl (InvalidInvite ''timestamp is not a valid u64'')
                     | Some timestamp \<Rightarrow>
                         Inr \<lparr>ip_onion_address = parts ! 0, ip_nonce = nonce_bytes,
                              ip_timestamp = timestamp,
                              ip_suggested_name =
                                (if length parts = 4 \<and> parts ! 3 \<noteq> [] then Some (parts ! 3)
                                 else None)\<rparr>))))"

definition decode_invite ::
  "crates \<Rightarrow> bool \<Rightarrow> u64 \<Rightarrow> string \<Rightarrow> u64 option \<Rightarrow> (chat_error + invite_payload) option" where
  "decode_invite K checks now token ttl_secs =
     (if token = [] then Some (Inl (InvalidInvite ''empty token''))
      else
        (case from_base58 K token of
           Inl e \<Rightarrow> Some (Inl (InvalidInvite (''bad base58: '' @ e)))
         | Inr bytes \<Rightarrow>
             (case from_utf8 bytes of
                None \<Rightarrow> Some (Inl (InvalidInvite ''not valid UTF-8''))
              | Some decoded \<Rightarrow>
                  (case parse_fields K decoded of
                     Inl e \<Rightarrow> Some (Inl e)
                   | Inr p \<Rightarrow> check_times checks now ttl_secs p))))"

section \<open>Lemmas\<close>

text \<open>
  The invariant of a payload: an address that the code accepts and that the text format can
  carry, a 16-byte nonce, strings in UTF-8.
\<close>

definition wf_invite :: "invite_payload \<Rightarrow> bool" where
  "wf_invite p \<longleftrightarrow>
     validate_address (ip_onion_address p) = Inr () \<and> CHR '':'' \<notin> set (ip_onion_address p)
   \<and> is_utf8 (ip_onion_address p) \<and> wf_nonce (ip_nonce p)
   \<and> (case ip_suggested_name p of None \<Rightarrow> True | Some s \<Rightarrow> is_utf8 s)"

text \<open>An empty suggested name and no suggested name have the same code.\<close>

definition normalise :: "invite_payload \<Rightarrow> invite_payload" where
  "normalise p = p\<lparr>ip_suggested_name :=
     (case ip_suggested_name p of Some (c # s) \<Rightarrow> Some (c # s) | _ \<Rightarrow> None)\<rparr>"

lemma normalise_simps [simp]:
  "ip_onion_address (normalise p) = ip_onion_address p" "ip_nonce (normalise p) = ip_nonce p"
  "ip_timestamp (normalise p) = ip_timestamp p"
  by (simp_all add: normalise_def)

lemma normalise_id: "ip_suggested_name p \<noteq> Some [] \<Longrightarrow> normalise p = p"
  by (cases p) (auto simp: normalise_def split: option.splits list.splits)

lemma validate_address_Inr:
  "validate_address a = Inr u \<longleftrightarrow> ends_with a ''.onion'' \<and> 62 \<le> length a"
  by (auto simp: validate_address_def)

lemma invite_text_utf8:
  assumes "hex_ok K" and "wf_invite p"
  shows "is_utf8 (invite_text K p)"
proof -
  let ?m = "'':'' @ hex_encode K (ip_nonce p) @ '':'' @ show_u64 (ip_timestamp p) @ '':''"
  let ?n = "case ip_suggested_name p of None \<Rightarrow> '''' | Some s \<Rightarrow> s"
  have "is_utf8 ?m" by (rule ascii_is_utf8) (simp add: hex_ascii [OF assms(1)])
  moreover have "is_utf8 ?n" and "is_utf8 (ip_onion_address p)"
    using assms(2) by (auto simp: wf_invite_def split: option.splits)
  ultimately have "is_utf8 (ip_onion_address p @ ?m @ ?n)"
    using is_utf8_append by blast
  then show ?thesis by (simp add: invite_text_def)
qed

lemma parse_fields_text:
  assumes K: "hex_ok K" and p: "wf_invite p"
  shows "parse_fields K (invite_text K p) = Inr (normalise p)"
proof -
  let ?n = "case ip_suggested_name p of None \<Rightarrow> '''' | Some s \<Rightarrow> s"
  have parts: "splitn 4 (CHR '':'') (invite_text K p) =
      [ip_onion_address p, hex_encode K (ip_nonce p), show_u64 (ip_timestamp p), ?n]"
    using p hex_no_colon [OF K]
    by (simp add: invite_text_def wf_invite_def eval_nat_numeral)
  show ?thesis
    using p K unfolding parse_fields_def parts wf_invite_def wf_nonce_def
    by (cases p) (auto simp: normalise_def eval_nat_numeral split: option.splits list.splits)
qed

lemma decode_encoded:
  assumes K: "base58_ok K" "hex_ok K" and p: "wf_invite p" and e: "encode_invite K p = Inr token"
  shows "decode_invite K checks now token ttl = check_times checks now ttl (normalise p)"
proof -
  have token: "token = to_base58 K (as_bytes (invite_text K p))"
    using e by (auto simp: encode_invite_def split: sum.splits)
  have "as_bytes (invite_text K p) \<noteq> []" by (simp add: invite_text_def as_bytes_def)
  then have "token \<noteq> []" unfolding token by (rule base58_nonempty [OF K(1)])
  then show ?thesis
    using K p by (simp add: decode_invite_def token from_utf8_as_bytes invite_text_utf8
                       parse_fields_text)
qed

lemma encode_wf: "wf_invite p \<Longrightarrow> \<exists>token. encode_invite K p = Inr token"
  by (simp add: encode_invite_def wf_invite_def)

text \<open>The fields of a text that parses.\<close>

lemma splitn_rest_utf8:
  assumes "splitn (Suc (Suc n)) (CHR '':'') s = xs" and "is_utf8 s"
  shows "(CHR '':'' \<notin> set s \<and> xs = [s])
    \<or> (\<exists>a b. CHR '':'' \<notin> set a \<and> is_utf8 a \<and> is_utf8 b \<and> s = a @ CHR '':'' # b
           \<and> xs = a # splitn (Suc n) (CHR '':'') b)"
proof (cases "split_once (CHR '':'') s")
  case None
  with assms show ?thesis by (simp add: split_once_None)
next
  case (Some ab)
  obtain a b where ab: "ab = (a, b)" by (cases ab)
  with Some have s: "s = a @ CHR '':'' # b" "CHR '':'' \<notin> set a"
    using split_once_Some by auto
  have "(of_char (CHR '':'') :: nat) < 128" by simp
  with s(1) assms(2) have "is_utf8 a" "is_utf8 b"
    using is_utf8_split_ascii [of a "CHR '':''" b] by simp_all
  with assms(1) Some ab s show ?thesis by auto
qed

lemma parse_fields_wf:
  assumes u: "is_utf8 s" and p: "parse_fields K s = Inr p"
  shows "wf_invite p \<and> ip_suggested_name p \<noteq> Some []"
proof -
  let ?c = "CHR '':''"
  from splitn_rest_utf8 [OF _ u, of 2] p obtain a b where a: "?c \<notin> set a" "is_utf8 a" "is_utf8 b"
      and 1: "splitn 4 ?c s = a # splitn 3 ?c b"
    by (force simp: parse_fields_def eval_nat_numeral Let_def)
  from splitn_rest_utf8 [OF _ a(3), of 1] p 1 obtain x d where d: "is_utf8 d"
      and 2: "splitn 3 ?c b = x # splitn 2 ?c d"
    by (force simp: parse_fields_def eval_nat_numeral Let_def)
  have "splitn 2 ?c d = [d] \<or> (\<exists>t n. is_utf8 n \<and> splitn 2 ?c d = [t, n])"
    using splitn_rest_utf8 [OF _ d, of 0] by (force simp: eval_nat_numeral)
  then show ?thesis
    using p a 1 2
    by (auto simp: parse_fields_def Let_def wf_invite_def wf_nonce_def eval_nat_numeral
             split: sum.splits option.splits if_splits)
qed

lemma check_times_Inr: "check_times c now ttl p = Some (Inr q) \<Longrightarrow> q = p"
  by (auto simp: check_times_def split: option.splits if_splits)

lemma decode_invite_Inr:
  assumes "decode_invite K checks now token ttl = Some (Inr p)"
  shows "wf_invite p \<and> ip_suggested_name p \<noteq> Some [] \<and> check_times checks now ttl p = Some (Inr p)"
proof -
  obtain s where s: "from_base58 K token = Inr (as_bytes s)" "is_utf8 s"
      and "parse_fields K s = Inr p" "check_times checks now ttl p = Some (Inr p)"
    using assms check_times_Inr
    by (auto simp: decode_invite_def from_utf8_def is_utf8_def
             split: if_splits sum.splits option.splits) (metis as_bytes_str_of_bytes)
  then show ?thesis using parse_fields_wf by blast
qed

section \<open>Properties\<close>

text \<open>When the clock arithmetic of \<open>decode\<close> does not overflow, it is exact.\<close>

definition times_fit :: "u64 \<Rightarrow> u64 \<Rightarrow> u64 option \<Rightarrow> bool" where
  "times_fit now ts ttl \<longleftrightarrow> unat now + 300 < 2 ^ 64
     \<and> (case ttl of None \<Rightarrow> True | Some t \<Rightarrow> unat ts + unat t < 2 ^ 64)"

lemma check_times_exact:
  assumes "times_fit now (ip_timestamp p) ttl"
  shows "check_times checks now ttl p =
    (if unat now + 300 < unat (ip_timestamp p) then Some (Inl (too_far_error (ip_timestamp p) now))
     else case ttl of
            None \<Rightarrow> Some (Inr p)
          | Some t \<Rightarrow> if t \<noteq> 0 \<and> unat (ip_timestamp p) + unat t < unat now
                      then Some (Inl (InviteExpired (ip_timestamp p))) else Some (Inr p))"
proof -
  have 300: "unat now + unat (300 :: u64) < 2 ^ 64" using assms by (simp add: times_fit_def)
  show ?thesis
    using assms add_u64_exact [OF 300]
    by (auto simp: check_times_def times_fit_def word_less_nat_alt add_u64_exact word_gt_0 unat_eq_zero
             split: option.splits)
qed

text \<open>
  C24. Round trip of invite codes with the exact time window: the code of a payload decodes to
  that payload (an empty suggested name read back as no name) exactly from 300 s before its
  timestamp until \<open>ttl\<close> seconds after it; earlier it is invalid, later it is reported expired
  with its timestamp; a TTL of 0 or none means no expiry.
\<close>

theorem invite_roundtrip:
  assumes "base58_ok K" and "hex_ok K" and "wf_invite p" and "encode_invite K p = Inr token"
    and "times_fit now (ip_timestamp p) ttl"
  shows "decode_invite K checks now token ttl = Some
    (if unat now + 300 < unat (ip_timestamp p) then Inl (too_far_error (ip_timestamp p) now)
     else if (case ttl of None \<Rightarrow> False
              | Some t \<Rightarrow> t \<noteq> 0 \<and> unat (ip_timestamp p) + unat t < unat now)
     then Inl (InviteExpired (ip_timestamp p))
     else Inr (normalise p))"
  using assms(5) decode_encoded [OF assms(1-4)]
  by (simp add: check_times_exact split: option.splits)

definition sample_address :: string where
  "sample_address = ''vww6ybal6bd7szmgncyruucpgfkqahzddi37ktceo3ah7ngmcopnpyyd.onion''"

definition sample_invite :: "u64 \<Rightarrow> invite_payload" where
  "sample_invite ts = \<lparr>ip_onion_address = sample_address, ip_nonce = replicate 16 66,
     ip_timestamp = ts, ip_suggested_name = Some ''al:ice''\<rparr>"

lemma sample_invite_simps [simp]:
  "ip_onion_address (sample_invite ts) = sample_address" "ip_timestamp (sample_invite ts) = ts"
  "ip_nonce (sample_invite ts) = replicate 16 66"
  "ip_suggested_name (sample_invite ts) = Some ''al:ice''"
  "normalise (sample_invite ts) = sample_invite ts"
  by (simp_all add: sample_invite_def normalise_def)

lemma sample_address_ok:
  "validate_address sample_address = Inr ()" "CHR '':'' \<notin> set sample_address"
  "is_utf8 sample_address"
  by (code_simp, code_simp, rule ascii_is_utf8, simp add: sample_address_def)

lemma sample_invite_wf [simp]: "wf_invite (sample_invite ts)"
  using sample_address_ok by (simp add: wf_invite_def wf_nonce_def ascii_is_utf8)

theorem invite_roundtrip_witness:
  "\<exists>token. encode_invite sample_crates (sample_invite 1000) = Inr token
     \<and> decode_invite sample_crates True 1300 token (Some 300) = Some (Inr (sample_invite 1000))
     \<and> decode_invite sample_crates True 1301 token (Some 300) = Some (Inl (InviteExpired 1000))"
proof -
  obtain token where e: "encode_invite sample_crates (sample_invite 1000) = Inr token"
    using encode_wf [OF sample_invite_wf] by blast
  have K: "base58_ok sample_crates" "hex_ok sample_crates" by simp_all
  from invite_roundtrip [OF K sample_invite_wf e, of 1300 "Some 300" True]
    invite_roundtrip [OF K sample_invite_wf e, of 1301 "Some 300" True] e
  show ?thesis by (auto simp: times_fit_def)
qed

text \<open>
  C25. Soundness of decoding: from any token, valid or hostile, a payload that \<open>decode\<close> accepts
  has a valid onion address, a 16-byte nonce and UTF-8 strings, and it is canonical: encoding it
  gives a token that decodes to the same payload.
\<close>

theorem decode_invite_sound:
  assumes "base58_ok K" and "hex_ok K"
    and "decode_invite K checks now token ttl = Some (Inr p)"
  shows "wf_invite p \<and> (\<exists>token'. encode_invite K p = Inr token'
           \<and> decode_invite K checks now token' ttl = Some (Inr p))"
proof -
  have p: "wf_invite p" "ip_suggested_name p \<noteq> Some []" "check_times checks now ttl p = Some (Inr p)"
    using decode_invite_Inr [OF assms(3)] by auto
  obtain token' where e: "encode_invite K p = Inr token'" using encode_wf [OF p(1)] by blast
  show ?thesis
    using decode_encoded [OF assms(1,2) p(1) e] p e by (auto simp: normalise_id)
qed

theorem decode_invite_sound_witness:
  "\<exists>token. decode_invite sample_crates True 1000 token None = Some (Inr (sample_invite 1000))
     \<and> wf_invite (sample_invite 1000)
     \<and> (\<exists>token'. encode_invite sample_crates (sample_invite 1000) = Inr token'
          \<and> decode_invite sample_crates True 1000 token' None = Some (Inr (sample_invite 1000)))"
proof -
  obtain token where e: "encode_invite sample_crates (sample_invite 1000) = Inr token"
    using encode_wf [OF sample_invite_wf] by blast
  have "decode_invite sample_crates True 1000 token None = Some (Inr (sample_invite 1000))"
    using decode_encoded [OF _ _ sample_invite_wf e] by (simp add: check_times_exact times_fit_def)
  from decode_invite_sound [OF _ _ this] this show ?thesis by auto
qed

text \<open>
  The tokens of different payloads differ: a code determines the address, the nonce, the
  timestamp and the (non-empty) suggested name that it was made from.
\<close>

theorem encode_invite_inject:
  assumes "base58_ok K" and "hex_ok K" and "wf_invite p" and "wf_invite q"
    and "encode_invite K p = Inr token" and "encode_invite K q = Inr token"
  shows "normalise p = normalise q"
proof -
  have "to_base58 K (as_bytes (invite_text K p)) = to_base58 K (as_bytes (invite_text K q))"
    using assms(5,6) by (auto simp: encode_invite_def split: sum.splits)
  then have "invite_text K p = invite_text K q" by (simp add: base58_inject [OF assms(1)])
  then show ?thesis
    using parse_fields_text [OF assms(2,3)] parse_fields_text [OF assms(2,4)] by simp
qed

theorem encode_invite_inject_witness:
  "encode_invite sample_crates (sample_invite 1) \<noteq> encode_invite sample_crates (sample_invite 2)"
proof
  assume eq: "encode_invite sample_crates (sample_invite 1) = encode_invite sample_crates (sample_invite 2)"
  obtain t where t: "encode_invite sample_crates (sample_invite 1) = Inr t"
    using encode_wf [OF sample_invite_wf] by blast
  from encode_invite_inject [OF _ _ sample_invite_wf sample_invite_wf t t [unfolded eq]]
  have "sample_invite 1 = sample_invite 2" by simp
  then show False by (simp add: sample_invite_def)
qed

text \<open>
  The joiner's call, with its fixed TTL of 300 s, panics for no token while the clock is more
  than 600 s below the end of the \<open>u64\<close> range, even with overflow checks on.
\<close>

theorem decode_invite_no_panic:
  assumes "unat now + 600 < 2 ^ 64"
  shows "decode_invite K checks now token (Some 300) \<noteq> None"
proof -
  have "check_times checks now (Some 300) p \<noteq> None" for p
  proof (cases "unat now + 300 < unat (ip_timestamp p)")
    case True
    have "unat now + unat (300 :: u64) < 2 ^ 64" using assms by simp
    from add_u64_exact [OF this] True show ?thesis
      by (simp add: check_times_def word_less_nat_alt)
  next
    case False
    then have "times_fit now (ip_timestamp p) (Some 300)" using assms by (simp add: times_fit_def)
    then show ?thesis by (simp add: check_times_exact)
  qed
  then show ?thesis by (auto simp: decode_invite_def split: sum.splits option.splits)
qed

theorem decode_invite_no_panic_witness:
  "decode_invite sample_crates True 1700000000 ''zz'' (Some 300) \<noteq> None"
  by (rule decode_invite_no_panic) simp

text \<open>
  A TTL so long that \<open>timestamp + ttl\<close> overflows does not mean a long-lived code: with
  overflow checks decoding a current code panics, and without them the sum wraps and the code
  is reported expired as soon as it is made.
\<close>

theorem invite_ttl_overflow:
  assumes "base58_ok K" and "hex_ok K" and "wf_invite p" and "encode_invite K p = Inr token"
    and "unat now + 300 < 2 ^ 64" and "ip_timestamp p \<le> now"
    and "2 ^ 64 \<le> unat (ip_timestamp p) + unat ttl"
  shows "decode_invite K True now token (Some ttl) = None
     \<and> decode_invite K False now token (Some ttl) = Some (Inl (InviteExpired (ip_timestamp p)))"
proof -
  have 300: "unat now + unat (300 :: u64) < 2 ^ 64" using assms(5) by simp
  have near: "\<not> ip_timestamp p > now + 300"
    using assms(6) add_u64_exact(2) [OF 300] by (simp add: word_less_nat_alt word_le_nat_alt)
  have "ttl \<noteq> 0"
  proof
    assume "ttl = 0"
    with assms(7) have "2 ^ 64 \<le> unat (ip_timestamp p)" by simp
    moreover have "unat (ip_timestamp p) < 2 ^ LENGTH(64)" by (rule unsigned_less)
    ultimately show False by simp
  qed
  then have pos: "0 < ttl" by (simp add: word_gt_0)
  have "unat ttl < 2 ^ LENGTH(64)" "unat (ip_timestamp p) < 2 ^ LENGTH(64)" by (rule unsigned_less)+
  then have "unat (ip_timestamp p + ttl) = unat (ip_timestamp p) + unat ttl - 2 ^ 64"
      and "unat (ip_timestamp p) + unat ttl - 2 ^ 64 < unat (ip_timestamp p)"
    using assms(7) by (simp_all add: unat_word_ariths mod_if)
  then have "ip_timestamp p + ttl < now"
    using assms(6) by (simp add: word_less_nat_alt word_le_nat_alt)
  then show ?thesis
    using decode_encoded [OF assms(1-4)] near pos assms(7) add_u64_exact(1) [OF 300]
    by (simp add: check_times_def) (simp add: add_u64_def)
qed

theorem invite_ttl_overflow_witness:
  "\<exists>token. encode_invite sample_crates (sample_invite 1000) = Inr token
     \<and> decode_invite sample_crates True 1000 token (Some (- 1)) = None
     \<and> decode_invite sample_crates False 1000 token (Some (- 1)) = Some (Inl (InviteExpired 1000))"
proof -
  obtain token where e: "encode_invite sample_crates (sample_invite 1000) = Inr token"
    using encode_wf [OF sample_invite_wf] by blast
  have "unat (- 1 :: u64) = 2 ^ 64 - 1" by (simp add: unsigned_minus_1_eq_mask mask_eq_exp_minus_1)
  from invite_ttl_overflow [OF _ _ sample_invite_wf e, of 1000 "- 1"] this e show ?thesis
    by auto
qed

end
