(* ===== verification/Handshake.thy ===== *)
theory Handshake
  imports Wire
begin

text \<open>
  The admission handshake. The joiner sends a 16-byte nonce and a 16-byte discriminator, the hub
  answers one byte (0 accepts), and the joiner sends its display name as the first frame. The
  program has two hub sides, \<open>hub_handshake\<close> of \<open>crates/core/src/room.rs\<close> (the one that rooms
  use) and \<open>Hub::handshake\<close> of \<open>crates/core/src/hub.rs\<close>, and two joiner sides,
  \<open>Joiner::handshake\<close> of \<open>crates/core/src/joiner.rs\<close> and \<open>joiner_handshake\<close> of \<open>room.rs\<close> (for
  mock streams). Random values are arguments.

  The contract of a hub side is the locale \<open>admission\<close>: an attempt burns the nonce it presents,
  and admits a peer only on a nonce that was not burnt before. Single use of nonces is proved once
  from it, and both hub sides are shown to satisfy it.
\<close>

section \<open>The hub's side\<close>

definition HANDSHAKE_LEN :: nat where
  "HANDSHAKE_LEN = 32"

text \<open>The critical section under the nonce mutex: test, then insert.\<close>

definition claim_nonce :: "nonce \<Rightarrow> nonce set \<Rightarrow> bool \<times> nonce set" where
  "claim_nonce n used = (if n \<in> used then (False, used) else (True, insert n used))"

text \<open>\<open>stream.write_all(&[1]).await.ok(); return Err(e)\<close>: a write that never completes blocks.\<close>

definition reject :: "net \<Rightarrow> chat_error \<Rightarrow> log \<Rightarrow> (chat_error + 'a) timed \<times> log" where
  "reject N e h = (case write_all N [1] h of
     (Elapsed, h1) \<Rightarrow> (Elapsed, h1)
   | (Ready _, h1) \<Rightarrow> (Ready (Inl e), h1))"

definition send_ack :: "net \<Rightarrow> log \<Rightarrow> (chat_error + unit) \<times> log" where
  "send_ack N h = write_flush ''handshake write timed out'' ''handshake write: ''
     ''handshake flush timed out'' ''handshake flush: '' N [0] h"

text \<open>\<open>hub_handshake\<close> of \<open>room.rs\<close>, from the acceptance on: the name frame.\<close>

definition read_name :: "crates \<Rightarrow> net \<Rightarrow> log \<Rightarrow> (chat_error + string) \<times> log" where
  "read_name K N h = (case read_frame N h of
     (Elapsed, h1) \<Rightarrow> (Inl (Connection ''handshake name read timed out''), h1)
   | (Ready (Inl e), h1) \<Rightarrow>
       (Inl (Connection (''handshake name read: '' @ display_chat_error e)), h1)
   | (Ready (Inr frame), h1) \<Rightarrow>
       (case decode_message K frame of
          Inl e \<Rightarrow> (Inl (Connection (''handshake name decode: '' @ display_chat_error e)), h1)
        | Inr m \<Rightarrow> (Inr (wm_text m), h1)))"

definition hub_handshake ::
  "crates \<Rightarrow> net \<Rightarrow> nonce set \<Rightarrow> log \<Rightarrow> (chat_error + peer_id \<times> string) timed \<times> nonce set \<times> log" where
  "hub_handshake K N nonces h =
     (let (r, h1) = read_exact N HANDSHAKE_LEN h in
      case timed_conn ''handshake timed out'' ''handshake read: '' r of
        Inl e \<Rightarrow> (Ready (Inl e), nonces, h1)
      | Inr buf \<Rightarrow>
          if length buf \<noteq> HANDSHAKE_LEN then
            (let (x, h2) = reject N (InvalidInvite ''handshake wrong length'') h1
             in (x, nonces, h2))
          else
            let nonce = take 16 buf; discriminator = take 16 (drop 16 buf) in
            (case claim_nonce nonce nonces of
               (False, used) \<Rightarrow> (let (x, h2) = reject N NonceReused h1 in (x, used, h2))
             | (True, used) \<Rightarrow>
                 (case send_ack N h1 of
                    (Inl e, h2) \<Rightarrow> (Ready (Inl e), used, h2)
                  | (Inr _, h2) \<Rightarrow>
                      (case read_name K N h2 of
                         (Inl e, h3) \<Rightarrow> (Ready (Inl e), used, h3)
                       | (Inr name, h3) \<Rightarrow>
                           (Ready (Inr (PeerId (to_base58 K discriminator), name)), used, h3)))))"

text \<open>
  \<open>Hub::handshake\<close> of \<open>hub.rs\<close>: it fills the buffer with single reads, answers a stream that
  ends early with a rejection, and names the peer after its discriminator.
\<close>

datatype hello = Hello bytes | HelloEof | HelloErr chat_error

function read_hello :: "net \<Rightarrow> bytes \<Rightarrow> log \<Rightarrow> hello \<times> log" where
  "read_hello N buf h =
     (if length buf \<ge> HANDSHAKE_LEN then (Hello buf, h)
      else
        (case read_some N (HANDSHAKE_LEN - length buf) h of
           (Elapsed, h1) \<Rightarrow> (HelloErr (Connection ''handshake timed out''), h1)
         | (Ready (Inl e), h1) \<Rightarrow> (HelloErr (Connection (''handshake read: '' @ io_msg e)), h1)
         | (Ready (Inr bs), h1) \<Rightarrow>
             if bs = [] then (HelloEof, h1) else read_hello N (buf @ bs) h1))"
  by pat_completeness auto
termination
  by (relation "measure (\<lambda>(N, buf, h). HANDSHAKE_LEN - length buf)") (auto simp: not_le intro!: diff_less_mono2)

declare read_hello.simps [simp del]

definition legacy_handshake ::
  "crates \<Rightarrow> net \<Rightarrow> nonce set \<Rightarrow> log \<Rightarrow> (chat_error + peer_id \<times> string) timed \<times> nonce set \<times> log" where
  "legacy_handshake K N nonces h =
     (case read_hello N [] h of
        (HelloErr e, h1) \<Rightarrow> (Ready (Inl e), nonces, h1)
      | (HelloEof, h1) \<Rightarrow>
          (let (x, h2) = reject N (InvalidInvite ''handshake: unexpected EOF'') h1
           in (x, nonces, h2))
      | (Hello buf, h1) \<Rightarrow>
          let nonce = take 16 buf; discriminator = take 16 (drop 16 buf) in
          (case claim_nonce nonce nonces of
             (False, used) \<Rightarrow> (let (x, h2) = reject N NonceReused h1 in (x, used, h2))
           | (True, used) \<Rightarrow>
               (case send_ack N h1 of
                  (Inl e, h2) \<Rightarrow> (Ready (Inl e), used, h2)
                | (Inr _, h2) \<Rightarrow>
                    (Ready (Inr (PeerId (to_base58 K discriminator),
                                 ''peer-'' @ hex_encode K (take 4 discriminator))), used, h2))))"

section \<open>The joiner's side\<close>

text \<open>
  \<open>Joiner::handshake\<close>: the stream is handed back on success. The answer buffer starts as a zero.
\<close>

definition joiner_handshake ::
  "crates \<Rightarrow> net \<Rightarrow> string \<Rightarrow> nonce \<Rightarrow> bytes \<Rightarrow> log \<Rightarrow> (chat_error + peer_id) \<times> log" where
  "joiner_handshake K N name nonce discriminator h =
     (case write_flush ''handshake write timed out'' ''handshake write: ''
             ''handshake flush timed out'' ''handshake flush: '' N (nonce @ discriminator) h of
        (Inl e, h1) \<Rightarrow> (Inl e, h1)
      | (Inr _, h1) \<Rightarrow>
          (let (r, h2) = read_exact N 1 h1 in
           case timed_conn ''handshake read timed out'' ''handshake read: '' r of
             Inl e \<Rightarrow> (Inl e, h2)
           | Inr response \<Rightarrow>
               if hd (response @ [0]) \<noteq> 0 then (Inl (Connection ''handshake rejected by hub''), h2)
               else
                 (case encode_message K (wire_system name) of
                    Inl e \<Rightarrow> (Inl e, h2)
                  | Inr frame \<Rightarrow>
                      (case write_flush ''handshake name write timed out'' ''handshake name write: ''
                              ''handshake name flush timed out'' ''handshake name flush: ''
                              N frame h2 of
                         (Inl e, h3) \<Rightarrow> (Inl e, h3)
                       | (Inr _, h3) \<Rightarrow> (Inr (PeerId (to_base58 K discriminator)), h3)))))"

text \<open>
  \<open>joiner_handshake\<close> of \<open>room.rs\<close>, for a mock stream: the nonce is random too, and the name is
  returned with the identifier.
\<close>

definition mock_joiner_handshake ::
  "crates \<Rightarrow> net \<Rightarrow> string \<Rightarrow> nonce \<Rightarrow> bytes \<Rightarrow> log \<Rightarrow> (chat_error + peer_id \<times> string) \<times> log" where
  "mock_joiner_handshake K N name random_nonce discriminator h =
     (case joiner_handshake K N name random_nonce discriminator h of
        (Inl e, h1) \<Rightarrow> (Inl e, h1)
      | (Inr peer_id, h1) \<Rightarrow> (Inr (peer_id, name), h1))"

section \<open>Lemmas\<close>

lemma reject_cases:
  assumes "reject N e h = (r, h')"
  obtains (stuck) "r = Elapsed" "h' = h @ [WriteAll [1] Elapsed]"
  | (replied) x where "r = Ready (Inl e)" "h' = h @ [WriteAll [1] (Ready x)]"
  using assms that by (auto simp: reject_def write_all_def Let_def split: timed.splits)

lemma claim_nonce_simps [simp]:
  "claim_nonce n used = (True, used') \<longleftrightarrow> n \<notin> used \<and> used' = insert n used"
  "claim_nonce n used = (False, used') \<longleftrightarrow> n \<in> used \<and> used' = used"
  by (auto simp: claim_nonce_def)

lemma read_name_log:
  assumes "read_name K N h = (r, h')"
  shows "\<exists>k. h' = h @ k \<and> writes k = [] \<and> written k = []"
proof -
  obtain x where "read_frame N h = (x, h')"
    using assms by (auto simp: read_name_def split: timed.splits sum.splits prod.splits)
  from read_frame_log [OF this] show ?thesis by blast
qed

text \<open>
  The 32 bytes that an attempt presents, when it presents them: for \<open>hub_handshake\<close> the answer
  of its one read, for \<open>legacy_handshake\<close> what the reads gathered.
\<close>

definition hub_hello :: "net \<Rightarrow> log \<Rightarrow> bytes option" where
  "hub_hello N h = (case n_read_exact N h HANDSHAKE_LEN of
     Ready (Inr buf) \<Rightarrow> if length buf = HANDSHAKE_LEN then Some buf else None
   | _ \<Rightarrow> None)"

definition legacy_hello :: "net \<Rightarrow> log \<Rightarrow> bytes option" where
  "legacy_hello N h = (case read_hello N [] h of (Hello buf, _) \<Rightarrow> Some buf | _ \<Rightarrow> None)"

text \<open>What the two hub sides do with what was presented.\<close>

lemma hub_handshake_nonces:
  assumes "hub_handshake K N used h = (r, used', h')"
  shows "used' = (case hub_hello N h of None \<Rightarrow> used | Some buf \<Rightarrow> insert (take 16 buf) used)"
  using assms
  by (auto simp: hub_handshake_def hub_hello_def read_exact_def Let_def claim_nonce_def timed_conn_def
           split: timed.splits sum.splits if_splits prod.splits bool.splits)

lemma hub_handshake_admits:
  assumes "hub_handshake K N used h = (Ready (Inr (pid, name)), used', h')"
  shows "\<exists>buf. hub_hello N h = Some buf \<and> take 16 buf \<notin> used
           \<and> pid = PeerId (to_base58 K (take 16 (drop 16 buf)))"
  using assms
  by (auto simp: hub_handshake_def hub_hello_def read_exact_def Let_def claim_nonce_def timed_conn_def
                 reject_def
           split: timed.splits sum.splits if_splits prod.splits bool.splits)

lemma legacy_handshake_nonces:
  assumes "legacy_handshake K N used h = (r, used', h')"
  shows "used' = (case legacy_hello N h of None \<Rightarrow> used | Some buf \<Rightarrow> insert (take 16 buf) used)"
  using assms
  by (auto simp: legacy_handshake_def legacy_hello_def Let_def claim_nonce_def
           split: timed.splits sum.splits if_splits prod.splits bool.splits hello.splits)

lemma legacy_handshake_admits:
  assumes "legacy_handshake K N used h = (Ready (Inr (pid, name)), used', h')"
  shows "\<exists>buf. legacy_hello N h = Some buf \<and> take 16 buf \<notin> used
           \<and> pid = PeerId (to_base58 K (take 16 (drop 16 buf)))"
  using assms
  by (auto simp: legacy_handshake_def legacy_hello_def Let_def claim_nonce_def reject_def
           split: timed.splits sum.splits if_splits prod.splits bool.splits hello.splits)

section \<open>The contract of a hub side\<close>

text \<open>
  A hub serves attempts one after the other from one set of used nonces (the mutex makes the
  critical sections of concurrent attempts follow one another); each attempt has its own stream.
\<close>

fun serve :: "('e \<Rightarrow> nonce set \<Rightarrow> log \<Rightarrow> 'r \<times> nonce set \<times> log) \<Rightarrow> nonce set \<Rightarrow> 'e list
    \<Rightarrow> 'r list \<times> nonce set" where
  "serve hs used [] = ([], used)"
| "serve hs used (E # Es) =
     (case hs E used [] of (r, used', _) \<Rightarrow>
        (case serve hs used' Es of (rs, used'') \<Rightarrow> (r # rs, used'')))"

fun is_admitted :: "(chat_error + peer_id \<times> string) timed \<Rightarrow> bool" where
  "is_admitted (Ready (Inr _)) = True"
| "is_admitted _ = False"

fun_cases is_admittedE: "is_admitted r"

text \<open>The nonces on which peers were admitted, in order.\<close>

fun admitted_nonces :: "('e \<Rightarrow> log \<Rightarrow> bytes option) \<Rightarrow> 'e list
    \<Rightarrow> (chat_error + peer_id \<times> string) timed list \<Rightarrow> nonce list" where
  "admitted_nonces hello (E # Es) (r # rs) =
     (if is_admitted r then [take 16 (the (hello E []))] else []) @ admitted_nonces hello Es rs"
| "admitted_nonces hello _ _ = []"

locale admission =
  fixes hs :: "'e \<Rightarrow> nonce set \<Rightarrow> log \<Rightarrow> (chat_error + peer_id \<times> string) timed \<times> nonce set \<times> log"
    and hello :: "'e \<Rightarrow> log \<Rightarrow> bytes option"
  assumes burns: "hs E used h = (r, used', h') \<Longrightarrow>
      used' = (case hello E h of None \<Rightarrow> used | Some buf \<Rightarrow> insert (take 16 buf) used)"
    and fresh: "hs E used h = (Ready (Inr x), used', h') \<Longrightarrow>
      \<exists>buf. hello E h = Some buf \<and> take 16 buf \<notin> used"
begin

lemma used_grows: "hs E used h = (r, used', h') \<Longrightarrow> used \<subseteq> used'"
  using burns [of E used h r used' h'] by (auto split: option.splits)

lemma admitted_fresh:
  "hs E used h = (r, used', h') \<Longrightarrow> is_admitted r \<Longrightarrow>
   take 16 (the (hello E h)) \<notin> used \<and> take 16 (the (hello E h)) \<in> used'"
  using burns [of E used h r used' h'] fresh [of E used h _ used' h']
  by (fastforce elim!: is_admittedE)

lemma serve_single_use:
  "serve hs used Es = (rs, used'') \<Longrightarrow>
   distinct (admitted_nonces hello Es rs) \<and> set (admitted_nonces hello Es rs) \<inter> used = {}
   \<and> used \<subseteq> used''"
proof (induction Es arbitrary: used rs)
  case (Cons E Es)
  obtain r used' h' where E: "hs E used [] = (r, used', h')" by (cases "hs E used []") auto
  obtain rs' where rs: "rs = r # rs'" and Es: "serve hs used' Es = (rs', used'')"
    using Cons.prems E by (auto split: prod.splits)
  note IH = Cons.IH [OF Es]
  show ?case
  proof (cases "is_admitted r")
    case True
    with admitted_fresh [OF E] used_grows [OF E] IH rs show ?thesis by auto
  next
    case False
    with used_grows [OF E] IH rs show ?thesis by auto
  qed
qed simp

lemma replay_refused:
  "hello E h = Some buf \<Longrightarrow> take 16 buf \<in> used \<Longrightarrow> hs E used h = (r, used', h') \<Longrightarrow>
   \<not> is_admitted r \<and> used' = used"
  using burns [of E used h r used' h'] admitted_fresh [of E used h r used' h'] by auto

end

interpretation room_hub: admission "hub_handshake K" hub_hello for K
proof
  fix N used h r used' h'
  assume "hub_handshake K N used h = (r, used', h')"
  then show "used' = (case hub_hello N h of None \<Rightarrow> used | Some buf \<Rightarrow> insert (take 16 buf) used)"
    by (rule hub_handshake_nonces)
next
  fix N used h x used' h'
  assume "hub_handshake K N used h = (Ready (Inr x), used', h')"
  then show "\<exists>buf. hub_hello N h = Some buf \<and> take 16 buf \<notin> used"
    using hub_handshake_admits by (cases x) blast
qed

interpretation legacy_hub: admission "legacy_handshake K" legacy_hello for K
proof
  fix N used h r used' h'
  assume "legacy_handshake K N used h = (r, used', h')"
  then show "used' = (case legacy_hello N h of None \<Rightarrow> used | Some buf \<Rightarrow> insert (take 16 buf) used)"
    by (rule legacy_handshake_nonces)
next
  fix N used h x used' h'
  assume "legacy_handshake K N used h = (Ready (Inr x), used', h')"
  then show "\<exists>buf. legacy_hello N h = Some buf \<and> take 16 buf \<notin> used"
    using legacy_handshake_admits by (cases x) blast
qed

section \<open>One attempt, step by step\<close>

text \<open>The first 32 bytes of the stream are the hello; the answer byte depends on the nonce only.\<close>

lemma hub_hello_feeds:
  assumes "feeds N (n @ d @ rest)" and "length n = 16" and "length d = 16"
  shows "n_read_exact N [] HANDSHAKE_LEN = Ready (Inr (n @ d))"
  using feeds_next [of N "[]" "n @ d" rest "[]" HANDSHAKE_LEN] assms
  by (simp add: HANDSHAKE_LEN_def)

lemma hub_handshake_replay:
  assumes N: "feeds N (n @ d @ rest)" "writes_succeed N" and l: "length n = 16" "length d = 16"
    and n: "n \<in> used"
  shows "\<exists>h'. hub_handshake K N used [] = (Ready (Inl NonceReused), used, h') \<and> written h' = [1]"
  using hub_hello_feeds [OF N(1) l] N(2) l n
  by (simp add: hub_handshake_def read_exact_def Let_def HANDSHAKE_LEN_def claim_nonce_def
                reject_def write_all_def writes_succeed_def)

lemma hub_handshake_fresh:
  assumes N: "feeds N (n @ d @ rest)" "writes_succeed N" and l: "length n = 16" "length d = 16"
    and n: "n \<notin> used"
  shows "hub_handshake K N used [] =
    (let h = [ReadExact HANDSHAKE_LEN (Ready (Inr (n @ d))), WriteAll [0] (Ready (Inr ())),
              Flush (Ready (Inr ()))]
     in case read_name K N h of
          (Inl e, h3) \<Rightarrow> (Ready (Inl e), insert n used, h3)
        | (Inr name, h3) \<Rightarrow> (Ready (Inr (PeerId (to_base58 K d), name)), insert n used, h3))"
  using hub_hello_feeds [OF N(1) l] N(2) l n
  by (simp add: hub_handshake_def read_exact_def Let_def HANDSHAKE_LEN_def claim_nonce_def
                send_ack_def write_flush_succeeds)

lemma read_name_feeds:
  assumes "feeds N (pre @ f)" and "reads_ok h" and "length (read_bytes h) = length pre"
    and "json_ok K" and "is_utf8 name" and "encode_message K (wire_system name) = Inr f"
  shows "\<exists>h'. read_name K N h = (Inr name, h')"
proof -
  obtain v where v: "f = frame_of v" "v \<noteq> []" "utf8_valid v" "length v \<le> MAX_PAYLOAD_BYTES"
      "json_from_slice K v = Inr (wire_system name)"
    using encode_message_InrE [OF assms(4) _ assms(6)] assms(5) by auto
  have "feeds N (pre @ frame_of v @ [])" using assms(1) v(1) by simp
  from read_frame_feeds [OF this assms(2,3) v(2,3,4)] v show ?thesis
    by (simp add: read_name_def decode_frame)
qed

lemma joiner_handshake_start:
  assumes "writes_succeed N"
  shows "joiner_handshake K N name n d [] =
    (let h1 = [WriteAll (n @ d) (Ready (Inr ())), Flush (Ready (Inr ()))];
         r = n_read_exact N h1 1; h2 = h1 @ [ReadExact 1 r] in
     case timed_conn ''handshake read timed out'' ''handshake read: '' r of
       Inl e \<Rightarrow> (Inl e, h2)
     | Inr response \<Rightarrow>
         if hd (response @ [0]) \<noteq> 0 then (Inl (Connection ''handshake rejected by hub''), h2)
         else case encode_message K (wire_system name) of
           Inl e \<Rightarrow> (Inl e, h2)
         | Inr frame \<Rightarrow> (Inr (PeerId (to_base58 K d)),
             h2 @ [WriteAll frame (Ready (Inr ())), Flush (Ready (Inr ()))]))"
  using assms
  by (simp add: joiner_handshake_def write_flush_succeeds read_exact_def Let_def split: sum.splits)

lemma joiner_handshake_answer:
  assumes "writes_succeed N" and "feeds N [b]"
  shows "joiner_handshake K N name n d [] =
    (let h2 = [WriteAll (n @ d) (Ready (Inr ())), Flush (Ready (Inr ())), ReadExact 1 (Ready (Inr [b]))] in
     if b \<noteq> 0 then (Inl (Connection ''handshake rejected by hub''), h2)
     else case encode_message K (wire_system name) of
       Inl e \<Rightarrow> (Inl e, h2)
     | Inr frame \<Rightarrow> (Inr (PeerId (to_base58 K d)),
         h2 @ [WriteAll frame (Ready (Inr ())), Flush (Ready (Inr ()))]))"
proof -
  let ?h1 = "[WriteAll (n @ d) (Ready (Inr ())), Flush (Ready (Inr ()))]"
  have "n_read_exact N ?h1 1 = Ready (Inr [b])"
    using feeds_next [of N "[]" "[b]" "[]" ?h1 1] assms(2) by simp
  then show ?thesis using assms(1) by (simp add: joiner_handshake_start Let_def split: sum.split)
qed

lemma joiner_handshake_sends_hello:
  assumes "writes_succeed N" and "joiner_handshake K N name n d [] = (r, h)"
  obtains rest where "written h = n @ d @ rest"
  using assms
  by (auto simp: joiner_handshake_start Let_def split: sum.splits if_splits)

text \<open>Both sides over a network that delivers, with a fresh nonce.\<close>

lemma handshake_agrees:
  assumes K: "json_ok K" and name: "is_utf8 name"
    and f: "encode_message K (wire_system name) = Inr f"
    and len: "length nonce = 16" "length disc = 16" and fresh: "nonce \<notin> used"
    and j: "joiner_handshake K Nj name nonce disc [] = (rj, hj)"
    and h: "hub_handshake K Nh used [] = (rh, used', hh)"
    and net: "writes_succeed Nj" "writes_succeed Nh" "feeds Nh (written hj)" "feeds Nj (written hh)"
  shows "rj = Inr (PeerId (to_base58 K disc))
     \<and> rh = Ready (Inr (PeerId (to_base58 K disc), name)) \<and> used' = insert nonce used"
proof -
  obtain rest where hj: "written hj = nonce @ disc @ rest"
    using joiner_handshake_sends_hello [OF net(1) j] .
  let ?h = "[ReadExact HANDSHAKE_LEN (Ready (Inr (nonce @ disc))), WriteAll [0] (Ready (Inr ())),
      Flush (Ready (Inr ()))]"
  note hub = hub_handshake_fresh [OF net(3) [unfolded hj] net(2) len fresh, of K, unfolded Let_def]
  obtain x h3 where x: "read_name K Nh ?h = (x, h3)" by fastforce
  with read_name_log [OF x] have "written h3 = [0]" by auto
  moreover have hh: "hh = h3" using h hub x by (auto split: sum.splits)
  ultimately have "feeds Nj [0]" using net(4) by simp
  from joiner_handshake_answer [OF net(1) this, of K name nonce disc] j f
  have rj: "rj = Inr (PeerId (to_base58 K disc))" and "written hj = (nonce @ disc) @ f"
    by (auto simp: Let_def)
  then have "feeds Nh ((nonce @ disc) @ f)" using net(3) by simp
  from read_name_feeds [OF this, of ?h K name] K name f x have "x = Inr name"
    by auto
  then show ?thesis using h hub x rj by auto
qed

section \<open>Properties\<close>

text \<open>
  Nonces are single-use on the hub that rooms run: whatever streams arrive, in any order and
  with any contents, no nonce admits two peers and no nonce used before admits one, and no nonce
  is ever forgotten.
\<close>

theorem hub_nonce_single_use:
  "distinct (admitted_nonces hub_hello Ns (fst (serve (hub_handshake K) used Ns)))
   \<and> set (admitted_nonces hub_hello Ns (fst (serve (hub_handshake K) used Ns))) \<inter> used = {}
   \<and> used \<subseteq> snd (serve (hub_handshake K) used Ns)"
  using room_hub.serve_single_use [of K used Ns] by (cases "serve (hub_handshake K) used Ns") simp

text \<open>The same holds for the hub of \<open>hub.rs\<close>, which reads the hello piece by piece.\<close>

theorem legacy_nonce_single_use:
  "distinct (admitted_nonces legacy_hello Ns (fst (serve (legacy_handshake K) used Ns)))
   \<and> set (admitted_nonces legacy_hello Ns (fst (serve (legacy_handshake K) used Ns))) \<inter> used = {}
   \<and> used \<subseteq> snd (serve (legacy_handshake K) used Ns)"
  using legacy_hub.serve_single_use [of K used Ns]
  by (cases "serve (legacy_handshake K) used Ns") simp

text \<open>
  The two sides agree: when each side reads what the other one wrote and the nonce is
  fresh, both succeed, with the same peer identifier; the hub learns the joiner's name and the
  nonce is burnt. Nothing else is required of the nonce: the hub admits one that no invite
  carries, and at any time after its invite was made.
\<close>

theorem handshake_agreement:
  assumes K: "json_ok K" and name: "is_utf8 name"
    and f: "encode_message K (wire_system name) = Inr f"
    and len: "length nonce = 16" "length disc = 16" and fresh: "nonce \<notin> used"
    and j: "joiner_handshake K Nj name nonce disc [] = (rj, hj)"
    and h: "hub_handshake K Nh used [] = (rh, used', hh)"
    and net: "writes_succeed Nj" "writes_succeed Nh" "feeds Nh (written hj)" "feeds Nj (written hh)"
  shows "rj = Inr (PeerId (to_base58 K disc))
     \<and> rh = Ready (Inr (PeerId (to_base58 K disc), name)) \<and> used' = insert nonce used"
  by (rule handshake_agrees [OF assms])

lemma sample_name_frame:
  "encode_message sample_crates (wire_system ''al'') =
     Inr (frame_of (sample_json (wire_system ''al'')))"
  by (rule sample_encode) code_simp

definition demo_nonce :: nonce where
  "demo_nonce = replicate 16 66"

definition demo_disc :: bytes where
  "demo_disc = replicate 16 171"

definition demo_frame :: bytes where
  "demo_frame = frame_of (sample_json (wire_system ''al''))"

lemma demo_simps [simp]: "length demo_nonce = 16" "length demo_disc = 16"
  "encode_message sample_crates (wire_system ''al'') = Inr demo_frame" "is_utf8 ''al''"
  by (simp_all add: demo_nonce_def demo_disc_def demo_frame_def sample_name_frame ascii_is_utf8)

lemma demo_admits:
  obtains hh where "hub_handshake sample_crates (mem_net (demo_nonce @ demo_disc @ demo_frame)) {} []
      = (Ready (Inr (PeerId (to_base58 sample_crates demo_disc), ''al'')), {demo_nonce}, hh)"
    "written hh = [0]"
proof -
  let ?s = "demo_nonce @ demo_disc @ demo_frame"
  obtain rh used' hh where h: "hub_handshake sample_crates (mem_net ?s) {} [] = (rh, used', hh)"
    by (cases "hub_handshake sample_crates (mem_net ?s) {} []") auto
  obtain x h3 where x: "read_name sample_crates (mem_net ?s)
      [ReadExact HANDSHAKE_LEN (Ready (Inr (demo_nonce @ demo_disc))), WriteAll [0] (Ready (Inr ())),
       Flush (Ready (Inr ()))] = (x, h3)" by fastforce
  have w: "written hh = [0]"
    using h hub_handshake_fresh [of "mem_net ?s" demo_nonce demo_disc demo_frame "{}" sample_crates] x
      read_name_log [OF x] by (auto simp: Let_def split: sum.splits)
  obtain rj hj where j: "joiner_handshake sample_crates (mem_net [0]) ''al'' demo_nonce demo_disc [] = (rj, hj)"
    by fastforce
  with joiner_handshake_answer [of "mem_net [0]" 0 sample_crates "''al''" demo_nonce demo_disc]
  have hj: "written hj = ?s" by (auto simp: Let_def)
  have "feeds (mem_net [0]) (written hh)" using w by simp
  from handshake_agrees [OF _ _ _ _ _ _ j h _ _ _ this, of demo_frame] hj h w that show ?thesis by auto
qed

theorem handshake_agreement_witness:
  "\<exists>rj hj rh hh. joiner_handshake sample_crates (mem_net [0]) ''al'' demo_nonce demo_disc [] = (rj, hj)
     \<and> hub_handshake sample_crates (mem_net (written hj)) {} [] = (rh, {demo_nonce}, hh)
     \<and> rj = Inr (PeerId (to_base58 sample_crates demo_disc))
     \<and> rh = Ready (Inr (PeerId (to_base58 sample_crates demo_disc), ''al''))"
proof -
  let ?K = sample_crates and ?s = "demo_nonce @ demo_disc @ demo_frame"
  obtain rj hj where j: "joiner_handshake ?K (mem_net [0]) ''al'' demo_nonce demo_disc [] = (rj, hj)"
    by fastforce
  with joiner_handshake_answer [of "mem_net [0]" 0 ?K "''al''" demo_nonce demo_disc]
  have hj: "written hj = ?s" by (auto simp: Let_def)
  obtain rh used' hh where h: "hub_handshake ?K (mem_net ?s) {} [] = (rh, used', hh)"
    by (cases "hub_handshake ?K (mem_net ?s) {} []") auto
  obtain x h3 where x: "read_name ?K (mem_net ?s)
      [ReadExact HANDSHAKE_LEN (Ready (Inr (demo_nonce @ demo_disc))), WriteAll [0] (Ready (Inr ())),
       Flush (Ready (Inr ()))] = (x, h3)" by fastforce
  have "written hh = [0]"
    using h hub_handshake_fresh [of "mem_net ?s" demo_nonce demo_disc demo_frame "{}" ?K] x
      read_name_log [OF x] by (auto simp: Let_def split: sum.splits)
  then have "feeds (mem_net [0]) (written hh)" by simp
  from handshake_agreement [OF _ _ _ _ _ _ j h _ _ _ this, of demo_frame] j h hj
  show ?thesis by auto
qed

text \<open>
  A replayed nonce is refused on both sides: the hub answers 1 and reports the reuse, the
  joiner reports that it was rejected and never sends its name, and the used set is unchanged.
\<close>

theorem handshake_replay_refused:
  assumes len: "length nonce = 16" "length disc = 16" and used: "nonce \<in> used"
    and j: "joiner_handshake K Nj name nonce disc [] = (rj, hj)"
    and h: "hub_handshake K Nh used [] = (rh, used', hh)"
    and net: "writes_succeed Nj" "writes_succeed Nh" "feeds Nh (written hj)" "feeds Nj (written hh)"
  shows "rj = Inl (Connection ''handshake rejected by hub'') \<and> written hj = nonce @ disc
     \<and> rh = Ready (Inl NonceReused) \<and> used' = used"
proof -
  obtain rest where hj: "written hj = nonce @ disc @ rest"
    using joiner_handshake_sends_hello [OF net(1) j] .
  obtain h' where h': "hub_handshake K Nh used [] = (Ready (Inl NonceReused), used, h')"
      "written h' = [1]"
    using hub_handshake_replay [OF net(3) [unfolded hj] net(2) len used] by blast
  with h net(4) have "feeds Nj [1]" by simp
  from joiner_handshake_answer [OF net(1) this, of K name nonce disc] j h h'
  show ?thesis by (auto simp: Let_def)
qed

theorem handshake_replay_refused_witness:
  "\<exists>hj hh. joiner_handshake sample_crates (mem_net [1]) ''al'' demo_nonce demo_disc []
        = (Inl (Connection ''handshake rejected by hub''), hj)
     \<and> hub_handshake sample_crates (mem_net (written hj)) {demo_nonce} []
        = (Ready (Inl NonceReused), {demo_nonce}, hh)
     \<and> written hj = demo_nonce @ demo_disc"
proof -
  let ?K = sample_crates and ?s = "demo_nonce @ demo_disc"
  obtain rj hj where j: "joiner_handshake ?K (mem_net [1]) ''al'' demo_nonce demo_disc [] = (rj, hj)"
    by fastforce
  with joiner_handshake_answer [of "mem_net [1]" 1 ?K "''al''" demo_nonce demo_disc]
  have hj: "written hj = ?s" by (auto simp: Let_def)
  obtain hh where h: "hub_handshake ?K (mem_net ?s) {demo_nonce} []
      = (Ready (Inl NonceReused), {demo_nonce}, hh)" and hh: "written hh = [1]"
    using hub_handshake_replay [of "mem_net ?s" demo_nonce demo_disc "[]" "{demo_nonce}" ?K] by auto
  from handshake_replay_refused [OF _ _ _ j h] j h hj hh show ?thesis by auto
qed

lemma hub_answer_cases:
  assumes "hub_handshake K N used [] = (r, used', h)"
  obtains (silent) e where "r = Ready (Inl e)" "writes h = []" "used' = used"
  | (refused) "\<not> is_admitted r" "writes h = [[1]]" "used' = used"
  | (unsent) e where "r = Ready (Inl e)" "writes h = [[0]]" "used \<subseteq> used'"
  | (acked) "writes h = [[0]]" "written h = [0]" "used \<subseteq> used'"
proof -
  obtain r1 h1 where 1: "read_exact N HANDSHAKE_LEN [] = (r1, h1)" by fastforce
  then have h1: "writes h1 = []" "written h1 = []" by (auto simp: read_exact_def Let_def)
  show thesis
  proof (cases "timed_conn ''handshake timed out'' ''handshake read: '' r1")
    case (Inl e)
    then show ?thesis using assms 1 h1 silent by (auto simp: hub_handshake_def Let_def)
  next
    case (Inr buf)
    note run = assms [unfolded hub_handshake_def Let_def 1 prod.case Inr sum.case]
    show ?thesis
    proof (cases "length buf = HANDSHAKE_LEN \<and> take 16 buf \<notin> used")
      case False
      then obtain e x h2 where "reject N e h1 = (x, h2)" and rh: "r = x" "h = h2" "used' = used"
        using run by (auto simp: claim_nonce_def split: if_splits prod.splits)
      then show ?thesis using h1 refused by (cases rule: reject_cases) auto
    next
      case True
      then have "claim_nonce (take 16 buf) used = (True, insert (take 16 buf) used)" by simp
      note run' = run [unfolded this prod.case bool.case]
      obtain a h2 where a: "send_ack N h1 = (a, h2)" by fastforce
      show ?thesis
      proof (cases a)
        case (Inl e)
        with a h1 have "writes h2 = [[0]]"
          unfolding send_ack_def by (cases rule: write_flush_cases) auto
        then show ?thesis using run' True a Inl unsent by (auto split: if_splits)
      next
        case (Inr u)
        with a h1 have "writes h2 = [[0]]" "written h2 = [0]"
          unfolding send_ack_def by (auto elim!: write_flush_cases)
        moreover obtain x h3 where x: "read_name K N h2 = (x, h3)" by fastforce
        moreover note read_name_log [OF x]
        ultimately show ?thesis
          using run' True a Inr acked by (auto simp: subset_insertI split: sum.splits)
      qed
    qed
  qed
qed

text \<open>
  The answer byte of the hub is truthful: a run that admits the peer has written exactly
  one byte, a zero; a run that answers 1 admits nobody and burns nothing; no other byte is ever
  written during the handshake.
\<close>

theorem hub_answer_byte:
  assumes "hub_handshake K N used [] = (r, used', h)"
  shows "writes h \<in> {[], [[0]], [[1]]}
    \<and> (is_admitted r \<longrightarrow> written h = [0] \<and> writes h = [[0]])
    \<and> (writes h = [[1]] \<longrightarrow> \<not> is_admitted r \<and> used' = used)"
  using assms by (cases rule: hub_answer_cases) auto

theorem hub_answer_byte_witness:
  "\<exists>r used' h. hub_handshake sample_crates (mem_net [1, 2, 3]) {} [] = (r, used', h)
    \<and> writes h \<in> {[], [[0]], [[1]]}
    \<and> (is_admitted r \<longrightarrow> written h = [0] \<and> writes h = [[0]])
    \<and> (writes h = [[1]] \<longrightarrow> \<not> is_admitted r \<and> used' = {})"
  using hub_answer_byte [of sample_crates "mem_net [1, 2, 3]" "{}"]
  by (cases "hub_handshake sample_crates (mem_net [1, 2, 3]) {} []") blast

end
