(* ===== verification/Frame_Loop.thy ===== *)
theory Frame_Loop
  imports Wire
begin

text \<open>
  The shape of the four reader loops of the program: read a frame under a timeout, hand it to the
  loop's own code, stop at the first read that fails. The handlers are those of \<open>joiner.rs\<close>,
  \<open>hub.rs\<close> and \<open>room.rs\<close> (the hub's and the mock joiner's). A loop reads for as long as frames
  arrive, so it runs on fuel, one unit per iteration, and \<open>None\<close> means that it is still running.

  The locales state what a handler owes to the loop, and prove once that the loop ends on every
  finite stream and that it hands on exactly what the frames of the stream hold, in order.
\<close>

section \<open>The loop\<close>

text \<open>A handler lets the loop continue, breaks it, or waits on a channel that never takes.\<close>

datatype loop_step = Continue | Break | Stuck

datatype loop_end = Ended | Blocked

text \<open>
  \<open>late\<close> is the outcome of a read that never completes: \<open>Ended\<close> where the loop has a read
  timeout, \<open>Blocked\<close> where it has none.
\<close>

fun frame_loop :: "loop_end \<Rightarrow> (bytes \<Rightarrow> log \<Rightarrow> loop_step \<times> log) \<Rightarrow> net \<Rightarrow> nat \<Rightarrow> log
    \<Rightarrow> (loop_end \<times> log) option" where
  "frame_loop late H N 0 h = None"
| "frame_loop late H N (Suc fuel) h =
     (case read_frame N h of
        (Elapsed, h1) \<Rightarrow> Some (late, h1)
      | (Ready (Inl e), h1) \<Rightarrow> Some (Ended, h1)
      | (Ready (Inr frame), h1) \<Rightarrow>
          (case H frame h1 of
             (Continue, h2) \<Rightarrow> frame_loop late H N fuel h2
           | (Break, h2) \<Rightarrow> Some (Ended, h2)
           | (Stuck, h2) \<Rightarrow> Some (Blocked, h2)))"

lemma frame_loop_more_fuel:
  "frame_loop late H N n h = Some r \<Longrightarrow> frame_loop late H N (n + m) h = Some r"
  by (induction late H N n h rule: frame_loop.induct)
     (auto split: prod.splits timed.splits sum.splits loop_step.splits)

section \<open>Progress on a finite stream\<close>

lemma feeds_read_within:
  assumes "feeds N bs" and "reads_ok h" and "n_read_exact N h n = Ready (Inr x)"
  shows "length (read_bytes h) + n \<le> length bs \<and> length x = n"
proof (rule ccontr)
  assume "\<not> ?thesis"
  moreover have "length x = n" if "length (read_bytes h) + n \<le> length bs"
    using feeds_more [OF assms(1,2) that] assms(3) that by simp
  ultimately have "length bs < length (read_bytes h) + n" by linarith
  then show False using feeds_eof [OF assms(1,2)] assms(3) by fastforce
qed

lemma read_frame_progress:
  assumes N: "feeds N bs" and h: "reads_ok h" and r: "read_frame N h = (Ready (Inr f), h1)"
  shows "reads_ok h1 \<and> length (read_bytes h) < length (read_bytes h1)
    \<and> length (read_bytes h1) \<le> length bs"
proof -
  obtain hdr v where 1: "n_read_exact N h 4 = Ready (Inr hdr)"
    and 2: "n_read_exact N (h @ [ReadExact 4 (Ready (Inr hdr))]) (unat (from_be_bytes hdr))
      = Ready (Inr v)"
    and h1: "h1 = h @ [ReadExact 4 (Ready (Inr hdr)),
      ReadExact (unat (from_be_bytes hdr)) (Ready (Inr v))]"
    using read_frame_Inr [OF r] by metis
  have "length hdr = 4" using feeds_read_within [OF N h 1] by simp
  moreover have "length (read_bytes (h @ [ReadExact 4 (Ready (Inr hdr))]))
      + unat (from_be_bytes hdr) \<le> length bs \<and> length v = unat (from_be_bytes hdr)"
    by (rule feeds_read_within [OF N _ 2]) (simp add: h)
  ultimately show ?thesis using h h1 by auto
qed

section \<open>What a handler owes to the loop\<close>

text \<open>A send that is never taken: the task waits in it for ever.\<close>

fun is_untaken :: "io_call \<Rightarrow> bool" where
  "is_untaken (SendAwait x Elapsed) \<longleftrightarrow> True"
| "is_untaken c \<longleftrightarrow> False"

lemma read_frame_untaken:
  "read_frame N h = (r, h') \<Longrightarrow> \<not> list_ex is_untaken h \<Longrightarrow> \<not> list_ex is_untaken h'"
  by (auto simp: read_frame_def read_exact_def Let_def
           split: timed.splits sum.splits if_splits prod.splits)

locale frame_handler =
  fixes H :: "crates \<Rightarrow> net \<Rightarrow> bytes \<Rightarrow> log \<Rightarrow> loop_step \<times> log"
  assumes appends: "H K N f h = (s, h') \<Longrightarrow>
      \<exists>k. h' = h @ k \<and> read_bytes k = [] \<and> read_sizes k = [] \<and> reads_ok k
        \<and> (s \<noteq> Stuck \<longrightarrow> \<not> list_ex is_untaken k)"
    and waits: "H K N f h = (Stuck, h') \<Longrightarrow> \<exists>h0 x. h' = h0 @ [SendAwait x Elapsed]"
begin

text \<open>The loop ends on every finite stream: it needs at most one iteration per byte.\<close>

lemma loop_terminates:
  assumes N: "feeds N bs"
  shows "reads_ok h \<Longrightarrow> length bs < length (read_bytes h) + fuel \<Longrightarrow> length (read_bytes h) \<le> length bs
    \<Longrightarrow> \<exists>r. frame_loop late (H K N) N fuel h = Some r"
proof (induction fuel arbitrary: h)
  case (Suc fuel)
  obtain x h1 where r: "read_frame N h = (x, h1)" by fastforce
  show ?case
  proof (cases x)
    case Elapsed
    with r show ?thesis by simp
  next
    case (Ready y)
    show ?thesis
    proof (cases y)
      case (Inl e)
      with r Ready show ?thesis by simp
    next
      case (Inr f)
      with r Ready have p: "reads_ok h1" "length (read_bytes h) < length (read_bytes h1)"
          "length (read_bytes h1) \<le> length bs"
        using read_frame_progress [OF N Suc.prems(1)] by auto
      obtain s h2 where s: "H K N f h1 = (s, h2)" by fastforce
      from appends [OF s] p have "reads_ok h2" "read_bytes h2 = read_bytes h1" by auto
      with Suc.IH [of h2] Suc.prems p
      have "\<exists>r. frame_loop late (H K N) N fuel h2 = Some r" by simp
      with r Ready Inr s show ?thesis by (cases s) auto
    qed
  qed
qed simp

text \<open>No iteration reads more than the payload limit at once.\<close>

lemma loop_reads_bounded:
  "frame_loop late (H K N) N fuel h = Some (e, h') \<Longrightarrow>
   \<exists>k. h' = h @ k \<and> list_all (\<lambda>n. n \<le> MAX_PAYLOAD_BYTES) (read_sizes k)"
proof (induction fuel arbitrary: h)
  case (Suc fuel)
  obtain x h1 where r: "read_frame N h = (x, h1)" by fastforce
  then obtain k1 where k1: "h1 = h @ k1" "list_all (\<lambda>n. n \<le> MAX_PAYLOAD_BYTES) (read_sizes k1)"
    using read_frame_log [OF r] by (auto simp: list_all_iff)
  show ?case
  proof (cases "\<exists>f h2. x = Ready (Inr f) \<and> H K N f h1 = (Continue, h2)")
    case True
    then obtain f h2 where x: "x = Ready (Inr f)" and s: "H K N f h1 = (Continue, h2)" by blast
    with Suc.prems r have "frame_loop late (H K N) N fuel h2 = Some (e, h')" by simp
    from Suc.IH [OF this] appends [OF s] k1 show ?thesis by auto
  next
    case False
    with Suc.prems r have "h' = h1 \<or> (\<exists>f s. H K N f h1 = (s, h'))"
      by (auto split: timed.splits sum.splits prod.splits loop_step.splits)
    then show ?thesis using k1 appends by fastforce
  qed
qed simp

text \<open>A loop with a read timeout is blocked only in a send that is never taken.\<close>

lemma loop_blocked:
  "frame_loop Ended (H K N) N fuel h = Some (Blocked, h') \<Longrightarrow> \<exists>h0 x. h' = h0 @ [SendAwait x Elapsed]"
  by (induction fuel arbitrary: h)
     (auto split: prod.splits timed.splits sum.splits loop_step.splits dest: waits)

lemma loop_ended:
  "frame_loop Ended (H K N) N fuel h = Some (Ended, h') \<Longrightarrow> \<not> list_ex is_untaken h \<Longrightarrow>
   \<not> list_ex is_untaken h'"
proof (induction fuel arbitrary: h)
  case (Suc fuel)
  obtain x h1 where r: "read_frame N h = (x, h1)" by fastforce
  with Suc.prems(2) have h1: "\<not> list_ex is_untaken h1" using read_frame_untaken by blast
  show ?case
  proof (cases "\<exists>f. x = Ready (Inr f)")
    case True
    then obtain f where x: "x = Ready (Inr f)" by blast
    obtain s h2 where s: "H K N f h1 = (s, h2)" by fastforce
    have "\<not> list_ex is_untaken h2" if "s \<noteq> Stuck" using appends [OF s] that h1 by auto
    with Suc r x s show ?thesis by (cases s) auto
  next
    case False
    with Suc.prems(1) r h1 show ?thesis by (auto split: timed.splits sum.splits)
  qed
qed simp

end

text \<open>
  A handler that hands on \<open>out m\<close> for every frame that decodes to \<open>m\<close>, as long as the channels
  take what it sends.
\<close>

locale frame_consumer = frame_handler +
  fixes out :: "crates \<Rightarrow> wire_message \<Rightarrow> chan_msg list"
  assumes delivers: "sends_succeed N \<Longrightarrow> decode_message K f = Inr m \<Longrightarrow>
      \<exists>k. H K N f h = (Continue, h @ k) \<and> offers k = out K m \<and> accepted k = out K m"
begin

lemma loop_delivers_from:
  assumes K: "json_ok K" and N: "sends_succeed N"
  shows "list_all2 (\<lambda>m f. wf_wire m \<and> encode_message K m = Inr f) ms fs \<Longrightarrow>
    feeds N (pre @ concat fs) \<Longrightarrow> reads_ok h \<Longrightarrow> length (read_bytes h) = length pre \<Longrightarrow>
    \<exists>h'. frame_loop late (H K N) N (Suc (length ms)) h = Some (Ended, h')
       \<and> offers h' = offers h @ concat (map (out K) ms)
       \<and> accepted h' = accepted h @ concat (map (out K) ms)"
proof (induction ms arbitrary: fs pre h)
  case Nil
  then have "feeds N pre" by simp
  from read_frame_eof [OF this Nil(3)] Nil(4) obtain e where
    "read_frame N h = (Ready (Inl (WireError (''header read failed: '' @ io_msg e))),
       h @ [ReadExact 4 (Ready (Inl e))])" by (metis less_add_same_cancel1 zero_less_numeral)
  then show ?case by simp
next
  case (Cons m ms)
  from Cons.prems(1) obtain f gs where fs: "fs = f # gs" and m: "wf_wire m"
      and e: "encode_message K m = Inr f"
      and tl: "list_all2 (\<lambda>m f. wf_wire m \<and> encode_message K m = Inr f) ms gs"
    by (auto simp: list_all2_Cons1)
  obtain v where v: "f = frame_of v" "v \<noteq> []" "utf8_valid v" "length v \<le> MAX_PAYLOAD_BYTES"
      "json_from_slice K v = Inr m"
    using encode_message_InrE [OF K m e] .
  have feeds: "feeds N (pre @ frame_of v @ concat gs)" using Cons.prems(2) fs v(1) by simp
  let ?h1 = "h @ [ReadExact 4 (Ready (Inr (take 4 (frame_of v)))), ReadExact (length v) (Ready (Inr v))]"
  note r = read_frame_feeds [OF feeds Cons.prems(3,4) v(2,3,4)]
  have "decode_message K (frame_of v) = Inr m" using v by (simp add: decode_frame)
  from delivers [OF N this, of ?h1] obtain k where s: "H K N (frame_of v) ?h1 = (Continue, ?h1 @ k)"
      and k: "offers k = out K m" "accepted k = out K m" by blast
  from appends [OF s] have k': "read_bytes k = []" "reads_ok k" by auto
  have "feeds N ((pre @ f) @ concat gs)" using feeds v(1) by simp
  from Cons.IH [OF tl this, of "?h1 @ k"] Cons.prems(3,4) k' v(1)
  obtain h' where "frame_loop late (H K N) N (Suc (length ms)) (?h1 @ k) = Some (Ended, h')"
      "offers h' = offers (?h1 @ k) @ concat (map (out K) ms)"
      "accepted h' = accepted (?h1 @ k) @ concat (map (out K) ms)" by auto
  then show ?case using r s k by simp
qed

lemma loop_delivers:
  assumes "json_ok K" and "sends_succeed N"
    and "list_all2 (\<lambda>m f. wf_wire m \<and> encode_message K m = Inr f) ms fs"
    and "feeds N (concat fs)" and "length ms < fuel"
  shows "\<exists>h'. frame_loop late (H K N) N fuel [] = Some (Ended, h')
    \<and> offers h' = concat (map (out K) ms) \<and> accepted h' = concat (map (out K) ms)"
proof -
  obtain h' where "frame_loop late (H K N) N (Suc (length ms)) [] = Some (Ended, h')"
      "offers h' = concat (map (out K) ms)" "accepted h' = concat (map (out K) ms)"
    using loop_delivers_from [OF assms(1-3), of "[]" "[]" late] assms(4) by auto
  moreover obtain n where "fuel = Suc (length ms) + n"
    using assms(5) by (metis Suc_leI le_Suc_ex)
  ultimately show ?thesis using frame_loop_more_fuel by metis
qed

end

end
