(* ===== verification/Connector.thy ===== *)
theory Connector
  imports Chat_Types
begin

text \<open>
  The adapter over Tor connections, \<open>crates/core/src/connector.rs\<close>: the production connector,
  over arti's \<open>connect\<close> (a parameter), and the configurable mock of the tests, with its one-shot
  result, its call counter and its record of the last target. A connector is used through one
  operation, \<open>connect\<close>.
\<close>

text \<open>\<open>ArtiConnector\<close>: the client is stateless for the model.\<close>

definition arti_connect ::
  "(string \<Rightarrow> u16 \<Rightarrow> string + 's) \<Rightarrow> string \<Rightarrow> u16 \<Rightarrow> chat_error + 's" where
  "arti_connect tor addr port =
     map_err (\<lambda>e. Connection (''connect failed: '' @ e)) (tor addr port)"

text \<open>\<open>MockTorConnector\<close>. The counter is an atomic \<open>usize\<close>, whose \<open>fetch_add\<close> wraps.\<close>

record 's mock_connector =
  mc_connect_result :: "(chat_error + 's) option"
  mc_connect_calls :: u64
  mc_last_target :: "(string \<times> u16) option"

definition mock_new :: "'s mock_connector" where
  "mock_new = \<lparr>mc_connect_result = Some (Inl (Connection ''mock: connect not configured'')),
     mc_connect_calls = 0, mc_last_target = None\<rparr>"

definition mock_with_result :: "chat_error + 's \<Rightarrow> 's mock_connector" where
  "mock_with_result r = \<lparr>mc_connect_result = Some r, mc_connect_calls = 0, mc_last_target = None\<rparr>"

definition mock_connect ::
  "'s mock_connector \<Rightarrow> string \<Rightarrow> u16 \<Rightarrow> (chat_error + 's) \<times> 's mock_connector" where
  "mock_connect c addr port =
     (case mc_connect_result c of
        None \<Rightarrow> Inl (Connection ''mock: result consumed'')
      | Some r \<Rightarrow> r,
      c\<lparr>mc_connect_calls := mc_connect_calls c + 1, mc_last_target := Some (addr, port),
        mc_connect_result := None\<rparr>)"

definition mock_call_count :: "'s mock_connector \<Rightarrow> u64" where
  "mock_call_count c = mc_connect_calls c"

definition mock_last_target :: "'s mock_connector \<Rightarrow> (string \<times> u16) option" where
  "mock_last_target c = mc_last_target c"

section \<open>Lemmas\<close>

lemma mock_connect_observed:
  "mock_connect c a p = (r, c') \<Longrightarrow>
     mock_call_count c' = mock_call_count c + 1 \<and> mock_last_target c' = Some (a, p)"
  by (auto simp: mock_connect_def mock_call_count_def mock_last_target_def)

text \<open>A configured result is handed out once; every later call fails.\<close>

lemma mock_connect_once:
  "mock_connect (mock_with_result r) a p = (r, c') \<Longrightarrow>
   fst (mock_connect c' b q) = Inl (Connection ''mock: result consumed'')"
  by (auto simp: mock_connect_def mock_with_result_def)

end
