(* ===== verification/Joiner.thy ===== *)
theory Joiner
  imports Frame_Loop Handshake Invite Connector "HOL-Library.Multiset"
begin

text \<open>
  The joiner, \<open>crates/core/src/joiner.rs\<close>: \<open>connect\<close> (decode the invite, connect, handshake), the
  reader loop, the write loop and its variant without a stream, and the handling of events that
  the event channel cannot take at once.

  A pass of a \<open>tokio::select!\<close> loop is one element of a list of polls: what has arrived since the
  last pass and which branches are ready. The branches are tried in the order of the code
  (\<open>biased\<close>). A list that ends before the loop does is a loop still running.
\<close>

section \<open>Connecting\<close>

record 's joiner =
  j_stream :: "'s option"
  j_peer_id :: peer_id
  j_name :: string

text \<open>The name to use: the caller's, or the invite's, or a fixed one.\<close>

definition effective_name :: "string \<Rightarrow> invite_payload \<Rightarrow> string" where
  "effective_name name payload =
     (if name = [] then
        (case ip_suggested_name payload of None \<Rightarrow> ''anonymous'' | Some s \<Rightarrow> s)
      else name)"

text \<open>
  \<open>Joiner::connect\<close>. The connector is a parameter with a state \<open>'c\<close>, the stream that it returns
  determines the environment of the handshake, and the discriminator is the random value that
  \<open>handshake\<close> draws. \<open>None\<close> is a panic of \<open>decode\<close>.
\<close>

definition joiner_connect ::
  "crates \<Rightarrow> ('s \<Rightarrow> net) \<Rightarrow> ('c \<Rightarrow> string \<Rightarrow> u16 \<Rightarrow> (chat_error + 's) \<times> 'c) \<Rightarrow> bool \<Rightarrow> u64
     \<Rightarrow> bytes \<Rightarrow> 'c \<Rightarrow> string \<Rightarrow> string \<Rightarrow> ((chat_error + 's joiner) \<times> 'c \<times> log) option" where
  "joiner_connect K net_of connect checks now discriminator tor invite_code name =
     (case decode_invite K checks now invite_code (Some 300) of
        None \<Rightarrow> None
      | Some (Inl e) \<Rightarrow> Some (Inl e, tor, [])
      | Some (Inr payload) \<Rightarrow>
          let nm = effective_name name payload in
          (case connect tor (ip_onion_address payload) 80 of
             (Inl e, tor') \<Rightarrow> Some (Inl e, tor', [])
           | (Inr stream, tor') \<Rightarrow>
               (case joiner_handshake K (net_of stream) nm (ip_nonce payload) discriminator [] of
                  (Inl e, h) \<Rightarrow> Some (Inl e, tor', h)
                | (Inr peer_id, h) \<Rightarrow>
                    Some (Inr \<lparr>j_stream = Some stream, j_peer_id = peer_id, j_name = nm\<rparr>,
                          tor', h))))"

definition joiner_close :: "'s joiner \<Rightarrow> 's joiner" where
  "joiner_close j = j\<lparr>j_stream := None\<rparr>"

section \<open>Events under back-pressure\<close>

definition make_event :: "peer_id \<Rightarrow> string \<Rightarrow> string \<Rightarrow> chat_event" where
  "make_event peer_id name txt = Message peer_id name txt"

definition try_emit :: "net \<Rightarrow> chat_event \<Rightarrow> chat_event list \<Rightarrow> log \<Rightarrow> chat_event list \<times> log" where
  "try_emit N event pending h =
     (let (ok, h1) = try_send N (ToEvents event) h in
      (if ok then pending else pending @ [event], h1))"

text \<open>\<open>flush_pending\<close> pops from the end, and drops everything at the first refusal.\<close>

function flush_pending :: "net \<Rightarrow> chat_event list \<Rightarrow> log \<Rightarrow> chat_event list \<times> log" where
  "flush_pending N pending h =
     (if pending = [] then ([], h)
      else
        let (ok, h1) = try_send N (ToEvents (last pending)) h in
        if ok then flush_pending N (butlast pending) h1 else ([], h1))"
  by pat_completeness auto
termination
  by (relation "measure (\<lambda>(N, pending, h). length pending)") auto

declare flush_pending.simps [simp del]

text \<open>\<open>drain_and_flush\<close>: the texts still in the message channel become events, then the rest.\<close>

fun drain_messages :: "net \<Rightarrow> peer_id \<Rightarrow> string \<Rightarrow> string list \<Rightarrow> chat_event list \<Rightarrow> log
    \<Rightarrow> chat_event list \<times> log" where
  "drain_messages N pid name [] pending h = (pending, h)"
| "drain_messages N pid name (t # ts) pending h =
     (let (pending', h1) = try_emit N (make_event pid name t) pending h in
      drain_messages N pid name ts pending' h1)"

definition drain_and_flush :: "net \<Rightarrow> peer_id \<Rightarrow> string \<Rightarrow> string list \<Rightarrow> chat_event list \<Rightarrow> log
    \<Rightarrow> chat_event list \<times> log" where
  "drain_and_flush N pid name msgs pending h =
     (let (pending', h1) = drain_messages N pid name msgs pending h in
      flush_pending N pending' h1)"

section \<open>The write loop\<close>

definition joiner_write_frame :: "net \<Rightarrow> bytes \<Rightarrow> log \<Rightarrow> (chat_error + unit) \<times> log" where
  "joiner_write_frame N frame h =
     write_flush ''write timed out'' ''write failed: '' ''flush timed out'' ''flush failed: '' N frame h"

definition process_outgoing_message :: "crates \<Rightarrow> net \<Rightarrow> string \<Rightarrow> string \<Rightarrow> peer_id
    \<Rightarrow> chat_event list \<Rightarrow> log \<Rightarrow> (chat_error + chat_event list) \<times> log" where
  "process_outgoing_message K N txt name pid pending h =
     (case encode_message K (wire_chat name txt) of
        Inl e \<Rightarrow> (Inl e, h)
      | Inr frame \<Rightarrow>
          (case joiner_write_frame N frame h of
             (Inl e, h1) \<Rightarrow> (Inl e, h1)
           | (Inr _, h1) \<Rightarrow>
               (let (pending', h2) = try_emit N (make_event pid name txt) pending h1
                in (Inr pending', h2))))"

text \<open>One pass of the loops: arrivals on the message channel, and the branches that are ready.\<close>

record poll =
  p_arrivals :: "string list"
  p_shutdown :: bool
  p_reader_done :: bool
  p_senders_gone :: bool
  p_events_closed :: bool

text \<open>The state of the loops: the message channel, the pending events, the log.\<close>

record loop_state =
  ls_queue :: "string list"
  ls_pending :: "chat_event list"
  ls_log :: log

definition drain_state :: "net \<Rightarrow> peer_id \<Rightarrow> string \<Rightarrow> loop_state \<Rightarrow> loop_state" where
  "drain_state N pid name s =
     (let (p, h) = drain_and_flush N pid name (ls_queue s) (ls_pending s) (ls_log s) in
      \<lparr>ls_queue = [], ls_pending = p, ls_log = h\<rparr>)"

text \<open>\<open>Some r\<close>: the loop returns \<open>r\<close>; \<open>None\<close>: it goes on.\<close>

definition write_loop_step :: "crates \<Rightarrow> net \<Rightarrow> string \<Rightarrow> peer_id \<Rightarrow> poll \<Rightarrow> loop_state
    \<Rightarrow> (chat_error + unit) option \<times> loop_state" where
  "write_loop_step K N name pid p s0 =
     (let s = s0\<lparr>ls_queue := ls_queue s0 @ p_arrivals p\<rparr> in
      if p_shutdown p then (Some (Inr ()), drain_state N pid name s)
      else if p_reader_done p then (Some (Inr ()), drain_state N pid name s)
      else
        (case ls_queue s of
           t # ts \<Rightarrow>
             (case process_outgoing_message K N t name pid (ls_pending s) (ls_log s) of
                (Inl e, h) \<Rightarrow> (Some (Inl e), s\<lparr>ls_queue := ts, ls_log := h\<rparr>)
              | (Inr pend, h) \<Rightarrow> (None, \<lparr>ls_queue = ts, ls_pending = pend, ls_log = h\<rparr>))
         | [] \<Rightarrow>
             if p_senders_gone p then (Some (Inr ()), drain_state N pid name s)
             else if p_events_closed p then (Some (Inl (Connection ''event receiver dropped'')), s)
             else (None, s)))"

fun write_loop :: "crates \<Rightarrow> net \<Rightarrow> string \<Rightarrow> peer_id \<Rightarrow> poll list \<Rightarrow> loop_state
    \<Rightarrow> (chat_error + unit) option \<times> loop_state" where
  "write_loop K N name pid [] s = (None, s)"
| "write_loop K N name pid (p # ps) s =
     (case write_loop_step K N name pid p s of
        (Some r, s') \<Rightarrow> (Some r, s')
      | (None, s') \<Rightarrow> write_loop K N name pid ps s')"

text \<open>\<open>run_disconnected\<close>: no stream, the messages only become events.\<close>

definition run_disconnected_step :: "net \<Rightarrow> string \<Rightarrow> peer_id \<Rightarrow> poll \<Rightarrow> loop_state
    \<Rightarrow> (chat_error + unit) option \<times> loop_state" where
  "run_disconnected_step N name pid p s0 =
     (let s = s0\<lparr>ls_queue := ls_queue s0 @ p_arrivals p\<rparr> in
      if p_shutdown p then (Some (Inr ()), drain_state N pid name s)
      else
        (case ls_queue s of
           t # ts \<Rightarrow>
             (let (pend, h) = try_emit N (make_event pid name t) (ls_pending s) (ls_log s) in
              (None, \<lparr>ls_queue = ts, ls_pending = pend, ls_log = h\<rparr>))
         | [] \<Rightarrow>
             if p_senders_gone p then (Some (Inr ()), drain_state N pid name s)
             else if p_events_closed p then (Some (Inl (Connection ''event receiver dropped'')), s)
             else (None, s)))"

fun run_disconnected :: "net \<Rightarrow> string \<Rightarrow> peer_id \<Rightarrow> poll list \<Rightarrow> loop_state
    \<Rightarrow> (chat_error + unit) option \<times> loop_state" where
  "run_disconnected N name pid [] s = (None, s)"
| "run_disconnected N name pid (p # ps) s =
     (case run_disconnected_step N name pid p s of
        (Some r, s') \<Rightarrow> (Some r, s')
      | (None, s') \<Rightarrow> run_disconnected N name pid ps s')"

section \<open>The reader loop\<close>

definition joiner_event :: "wire_message \<Rightarrow> chat_event" where
  "joiner_event m = Message (PeerId (wm_name m)) (wm_name m) (wm_text m)"

text \<open>\<open>handle_incoming_frame\<close>: whatever the kind of the message, and a bad frame is skipped.\<close>

definition handle_incoming_frame :: "crates \<Rightarrow> net \<Rightarrow> bytes \<Rightarrow> log \<Rightarrow> loop_step \<times> log" where
  "handle_incoming_frame K N frame h =
     (case decode_message K frame of
        Inl e \<Rightarrow> (Continue, h)
      | Inr m \<Rightarrow>
          (case send_await N (ToEvents (joiner_event m)) h of
             (Elapsed, h1) \<Rightarrow> (Stuck, h1)
           | (Ready _, h1) \<Rightarrow> (Continue, h1)))"

definition joiner_reader_loop :: "crates \<Rightarrow> net \<Rightarrow> nat \<Rightarrow> log \<Rightarrow> (loop_end \<times> log) option" where
  "joiner_reader_loop K N fuel h = frame_loop Ended (handle_incoming_frame K N) N fuel h"

text \<open>
  \<open>Joiner::run\<close>: the stream is taken; the reader runs beside the write loop and is stopped with
  it, after \<open>fuel\<close> passes, which leaves \<open>None\<close> when it was aborted in the middle.
\<close>

definition joiner_run :: "crates \<Rightarrow> ('s \<Rightarrow> net) \<Rightarrow> net \<Rightarrow> poll list \<Rightarrow> nat \<Rightarrow> 's joiner
    \<Rightarrow> (chat_error + unit) option \<times> loop_state \<times> (loop_end \<times> log) option \<times> 's joiner" where
  "joiner_run K net_of no_stream polls fuel j =
     (let s = \<lparr>ls_queue = [], ls_pending = [], ls_log = []\<rparr>;
          j' = j\<lparr>j_stream := None\<rparr>
      in case j_stream j of
           Some stream \<Rightarrow>
             (case write_loop K (net_of stream) (j_name j) (j_peer_id j) polls s of
                (r, s') \<Rightarrow> (r, s', joiner_reader_loop K (net_of stream) fuel [], j'))
         | None \<Rightarrow>
             (case run_disconnected no_stream (j_name j) (j_peer_id j) polls s of
                (r, s') \<Rightarrow> (r, s', None, j')))"

interpretation joiner_reader: frame_consumer handle_incoming_frame
  "\<lambda>K m. [ToEvents (joiner_event m)]"
proof
  fix K N f h s h'
  assume "handle_incoming_frame K N f h = (s, h')"
  then show "\<exists>k. h' = h @ k \<and> read_bytes k = [] \<and> read_sizes k = [] \<and> reads_ok k
      \<and> (s \<noteq> Stuck \<longrightarrow> \<not> list_ex is_untaken k)"
    by (auto simp: handle_incoming_frame_def send_await_def Let_def
             split: sum.splits timed.splits)
next
  fix K N f h h'
  assume "handle_incoming_frame K N f h = (Stuck, h')"
  then show "\<exists>h0 x. h' = h0 @ [SendAwait x Elapsed]"
    by (auto simp: handle_incoming_frame_def send_await_def Let_def
             split: sum.splits timed.splits)
next
  fix K N f h m
  assume "sends_succeed N" and "decode_message K f = Inr m"
  then show "\<exists>k. handle_incoming_frame K N f h = (Continue, h @ k)
      \<and> offers k = [ToEvents (joiner_event m)] \<and> accepted k = [ToEvents (joiner_event m)]"
    by (simp add: handle_incoming_frame_def send_await_def sends_succeed_def Let_def)
qed


section \<open>Lemmas\<close>

text \<open>Success of a handshake means that the hello has gone out, whatever the network does.\<close>

lemma joiner_handshake_Inr:
  assumes "joiner_handshake K N name n d [] = (Inr pid, h)"
  shows "pid = PeerId (to_base58 K d)
    \<and> (\<exists>f. encode_message K (wire_system name) = Inr f \<and> written h = (n @ d) @ f)"
  using assms
  by (auto simp: joiner_handshake_def read_exact_def Let_def
           split: sum.splits prod.splits if_splits elim!: write_flush_cases)

lemma joiner_connect_cases:
  assumes "joiner_connect K net_of connect checks now disc tor code name = Some (r, tor', h)"
  obtains (refused) e where "decode_invite K checks now code (Some 300) = Some (Inl e)"
      "r = Inl e" "tor' = tor" "h = []"
  | (unreachable) p e where "decode_invite K checks now code (Some 300) = Some (Inr p)"
      "connect tor (ip_onion_address p) 80 = (Inl e, tor')" "r = Inl e" "h = []"
  | (connected) p stream where "decode_invite K checks now code (Some 300) = Some (Inr p)"
      "connect tor (ip_onion_address p) 80 = (Inr stream, tor')"
      "r = map_sum id (\<lambda>pid. \<lparr>j_stream = Some stream, j_peer_id = pid, j_name = effective_name name p\<rparr>)
         (fst (joiner_handshake K (net_of stream) (effective_name name p) (ip_nonce p) disc []))"
      "h = snd (joiner_handshake K (net_of stream) (effective_name name p) (ip_nonce p) disc [])"
proof (cases "decode_invite K checks now code (Some 300)")
  case None
  with assms show ?thesis by (simp add: joiner_connect_def)
next
  case (Some d)
  show ?thesis
  proof (cases d)
    case (Inl e)
    with Some assms have "r = Inl e" "tor' = tor" "h = []" by (simp_all add: joiner_connect_def)
    then show ?thesis using refused Some Inl by blast
  next
    case (Inr p)
    obtain x t where x: "connect tor (ip_onion_address p) 80 = (x, t)" by fastforce
    show ?thesis
    proof (cases x)
      case (Inl e)
      with Some \<open>d = Inr p\<close> x assms have "r = Inl e" "tor' = t" "h = []"
        by (simp_all add: joiner_connect_def Let_def)
      then show ?thesis using unreachable Some \<open>d = Inr p\<close> x Inl by blast
    next
      case (Inr stream)
      let ?hs = "joiner_handshake K (net_of stream) (effective_name name p) (ip_nonce p) disc []"
      have "joiner_connect K net_of connect checks now disc tor code name =
          (case ?hs of (y, hy) \<Rightarrow> Some (map_sum id (\<lambda>pid. \<lparr>j_stream = Some stream, j_peer_id = pid,
             j_name = effective_name name p\<rparr>) y, t, hy))"
        unfolding joiner_connect_def Let_def Some \<open>d = Inr p\<close> x Inr option.case sum.case prod.case
        by (simp add: map_sum_def split_def split: sum.split)
      with assms have "tor' = t" "h = snd ?hs"
          "r = map_sum id (\<lambda>pid. \<lparr>j_stream = Some stream, j_peer_id = pid,
             j_name = effective_name name p\<rparr>) (fst ?hs)"
        by (simp_all only: split_def option.inject prod.inject)
      then show ?thesis using connected Some \<open>d = Inr p\<close> x Inr by blast
    qed
  qed
qed

text \<open>The event channel.\<close>

lemma try_emit_log:
  assumes "try_emit N e pending h = (pending', h')"
  shows "\<exists>b. h' = h @ [TrySend (ToEvents e) b] \<and> pending' = (if b then pending else pending @ [e])"
  using assms
  by (intro exI [of _ "n_try_send N h (ToEvents e)"]) (auto simp: try_emit_def try_send_def Let_def)

lemma flush_pending_log:
  "flush_pending N pending h = (p, h') \<Longrightarrow> p = [] \<and> (\<exists>k m. h' = h @ k \<and> writes k = []
     \<and> read_sizes k = [] \<and> m \<le> length pending
     \<and> accepted k = map ToEvents (take m (rev pending))
     \<and> (m < length pending \<longrightarrow> (\<exists>x. k \<noteq> [] \<and> last k = TrySend x False)))"
proof (induction N pending h arbitrary: p h' rule: flush_pending.induct)
  case (1 N pending h)
  show ?case
  proof (cases pending rule: rev_cases)
    case Nil
    with 1(2) show ?thesis by (simp add: flush_pending.simps)
  next
    case (snoc es e)
    show ?thesis
    proof (cases "n_try_send N h (ToEvents e)")
      case True
      let ?h1 = "h @ [TrySend (ToEvents e) True]"
      have "flush_pending N es ?h1 = (p, h')"
        using 1(2) snoc True by (simp add: flush_pending.simps [of N "es @ [e]"] try_send_def Let_def)
      moreover have "flush_pending N es ?h1 = (p, h') \<Longrightarrow> p = [] \<and> (\<exists>k m. h' = ?h1 @ k
         \<and> writes k = [] \<and> read_sizes k = [] \<and> m \<le> length es
         \<and> accepted k = map ToEvents (take m (rev es))
         \<and> (m < length es \<longrightarrow> (\<exists>x. k \<noteq> [] \<and> last k = TrySend x False)))"
        using 1(1) [of "(True, ?h1)" True ?h1] snoc True by (simp add: try_send_def Let_def)
      ultimately obtain k m where k: "p = []" "h' = ?h1 @ k" "writes k = []" "read_sizes k = []"
          "m \<le> length es" "accepted k = map ToEvents (take m (rev es))"
          "m < length es \<longrightarrow> (\<exists>x. k \<noteq> [] \<and> last k = TrySend x False)" by blast
      then have "h' = h @ (TrySend (ToEvents e) True # k)
          \<and> writes (TrySend (ToEvents e) True # k) = []
          \<and> read_sizes (TrySend (ToEvents e) True # k) = [] \<and> Suc m \<le> length pending
          \<and> accepted (TrySend (ToEvents e) True # k) = map ToEvents (take (Suc m) (rev pending))
          \<and> (Suc m < length pending \<longrightarrow> (\<exists>x. TrySend (ToEvents e) True # k \<noteq> []
               \<and> last (TrySend (ToEvents e) True # k) = TrySend x False))"
        using snoc by auto
      with k(1) show ?thesis by blast
    next
      case False
      then have "p = []" "h' = h @ [TrySend (ToEvents e) False]"
        using 1(2) snoc by (simp_all add: flush_pending.simps [of N "es @ [e]"] try_send_def Let_def)
      then show ?thesis using snoc
        by (intro conjI exI [of _ "[TrySend (ToEvents e) False]"] exI [of _ 0]) auto
    qed
  qed
qed

lemma drain_messages_log:
  "drain_messages N pid name ts pending h = (p, h') \<Longrightarrow> \<exists>k qs. h' = h @ k \<and> writes k = []
     \<and> read_sizes k = [] \<and> p = pending @ qs
     \<and> (\<exists>acc. accepted k = map ToEvents acc \<and> mset acc + mset qs = mset (map (make_event pid name) ts))
     \<and> offers k = map (ToEvents \<circ> make_event pid name) ts"
proof (induction ts arbitrary: pending h)
  case (Cons t ts)
  obtain p1 h1 where e: "try_emit N (make_event pid name t) pending h = (p1, h1)" by fastforce
  then obtain b where b: "h1 = h @ [TrySend (ToEvents (make_event pid name t)) b]"
      "p1 = (if b then pending else pending @ [make_event pid name t])"
    using try_emit_log by blast
  from Cons.prems e have "drain_messages N pid name ts p1 h1 = (p, h')" by simp
  from Cons.IH [OF this] obtain k qs acc where IH: "h' = h1 @ k" "writes k = []" "read_sizes k = []"
      "p = p1 @ qs" "accepted k = map ToEvents acc"
      "mset acc + mset qs = mset (map (make_event pid name) ts)"
      "offers k = map (ToEvents \<circ> make_event pid name) ts" by blast
  let ?k = "TrySend (ToEvents (make_event pid name t)) b # k"
  let ?e = "make_event pid name t"
  have "h' = h @ ?k \<and> writes ?k = [] \<and> read_sizes ?k = []
      \<and> p = pending @ ((if b then [] else [?e]) @ qs)
      \<and> (\<exists>acc. accepted ?k = map ToEvents acc
           \<and> mset acc + mset ((if b then [] else [?e]) @ qs)
              = mset (map (make_event pid name) (t # ts)))
      \<and> offers ?k = map (ToEvents \<circ> make_event pid name) (t # ts)"
    using b IH by (auto intro: exI [of _ "?e # acc"] exI [of _ acc])
  then show ?case by blast
qed simp


lemma flush_pending_all:
  "sends_succeed N \<Longrightarrow> \<exists>k. flush_pending N pending h = ([], h @ k) \<and> writes k = []
     \<and> accepted k = map ToEvents (rev pending)"
proof (induction pending arbitrary: h rule: rev_induct)
  case Nil
  then show ?case by (simp add: flush_pending.simps)
next
  case (snoc e es)
  let ?h1 = "h @ [TrySend (ToEvents e) True]"
  from snoc.IH [OF snoc.prems, of ?h1] obtain k where
    "flush_pending N es ?h1 = ([], ?h1 @ k)" "writes k = []" "accepted k = map ToEvents (rev es)"
    by blast
  moreover have "flush_pending N (es @ [e]) h = flush_pending N es ?h1"
    using snoc.prems by (simp add: flush_pending.simps [of N "es @ [e]"] try_send_def
      sends_succeed_def Let_def)
  ultimately show ?case
    by (intro exI [of _ "TrySend (ToEvents e) True # k"]) simp
qed

lemma drain_messages_all:
  "sends_succeed N \<Longrightarrow> \<exists>k. drain_messages N pid name ts pending h = (pending, h @ k) \<and> writes k = []
     \<and> accepted k = map (ToEvents \<circ> make_event pid name) ts"
proof (induction ts arbitrary: h)
  case (Cons t ts)
  let ?h1 = "h @ [TrySend (ToEvents (make_event pid name t)) True]"
  from Cons.IH [OF Cons.prems, of ?h1] obtain k where
    "drain_messages N pid name ts pending ?h1 = (pending, ?h1 @ k)" "writes k = []"
    "accepted k = map (ToEvents \<circ> make_event pid name) ts" by blast
  moreover have "drain_messages N pid name (t # ts) pending h
      = drain_messages N pid name ts pending ?h1"
    using Cons.prems by (simp add: try_emit_def try_send_def sends_succeed_def Let_def)
  ultimately show ?case
    by (intro exI [of _ "TrySend (ToEvents (make_event pid name t)) True # k"]) simp
qed simp

lemma drain_state_log: "\<exists>k. ls_log (drain_state N pid name s) = ls_log s @ k \<and> writes k = []"
proof -
  obtain p1 h1 where d: "drain_messages N pid name (ls_queue s) (ls_pending s) (ls_log s) = (p1, h1)"
    by fastforce
  obtain p2 h2 where f: "flush_pending N p1 h1 = (p2, h2)" by fastforce
  from drain_messages_log [OF d] obtain k1 where "h1 = ls_log s @ k1" "writes k1 = []" by blast
  moreover from flush_pending_log [OF f] obtain k2 where "h2 = h1 @ k2" "writes k2 = []" by blast
  ultimately show ?thesis
    using d f by (auto simp: drain_state_def drain_and_flush_def Let_def)
qed

text \<open>One outgoing message: it is encoded and written, or nothing of it is.\<close>

lemma process_outgoing_cases:
  assumes "process_outgoing_message K N t name pid pending h = (r, h')"
  obtains (unencodable) e where "encode_message K (wire_chat name t) = Inl e" "r = Inl e" "h' = h"
  | (unwritten) f msg k where "encode_message K (wire_chat name t) = Inr f"
      "r = Inl (Connection msg)" "h' = h @ k" "writes k = [f]" "offers k = []"
  | (sent) f k pending' where "encode_message K (wire_chat name t) = Inr f" "r = Inr pending'"
      "h' = h @ k" "writes k = [f]" "written k = f" "offers k = [ToEvents (make_event pid name t)]"
proof (cases "encode_message K (wire_chat name t)")
  case (Inl e)
  with assms unencodable show ?thesis by (simp add: process_outgoing_message_def)
next
  case (Inr f)
  obtain w h1 where w: "joiner_write_frame N f h = (w, h1)" by fastforce
  note run = assms [unfolded process_outgoing_message_def Inr sum.case w prod.case]
  from w [unfolded joiner_write_frame_def] show ?thesis
  proof (cases rule: write_flush_cases)
    case ok
    obtain p2 h2 where e: "try_emit N (make_event pid name t) pending h1 = (p2, h2)" by fastforce
    with try_emit_log [OF e] run ok sent [OF Inr] show ?thesis by (auto simp: Let_def)
  next
    case (failed msg k)
    with run unwritten [OF Inr] show ?thesis by auto
  qed
qed

abbreviation sent_as :: "crates \<Rightarrow> string \<Rightarrow> string \<Rightarrow> bytes \<Rightarrow> bool" where
  "sent_as K name t f \<equiv> encode_message K (wire_chat name t) = Inr f"

lemma write_loop_step_order:
  assumes "write_loop_step K N name pid p s = (r, s')"
  shows "\<exists>ts k rest. ls_log s' = ls_log s @ k \<and> list_all2 (sent_as K name) ts (writes k)
     \<and> ls_queue s @ p_arrivals p = ts @ rest \<and> (r = None \<longrightarrow> rest = ls_queue s')"
proof -
  let ?s = "s\<lparr>ls_queue := ls_queue s @ p_arrivals p\<rparr>"
  obtain kd where kd: "ls_log (drain_state N pid name ?s) = ls_log s @ kd" "writes kd = []"
    using drain_state_log [of N pid name ?s] by auto
  show ?thesis
  proof (cases "\<not> p_shutdown p \<and> \<not> p_reader_done p \<and> ls_queue ?s \<noteq> []")
    case True
    then obtain t ts where q: "ls_queue s @ p_arrivals p = t # ts"
      by (cases "ls_queue s @ p_arrivals p") auto
    obtain x h where x: "process_outgoing_message K N t name pid (ls_pending s) (ls_log s) = (x, h)"
      by fastforce
    note run = assms [unfolded write_loop_step_def Let_def]
    from x show ?thesis
    proof (cases rule: process_outgoing_cases)
      case (unencodable e)
      then show ?thesis using run True q x
        by (intro exI [of _ "[]"] exI [of _ "t # ts"]) auto
    next
      case (unwritten f msg k)
      then show ?thesis using run True q x
        by (intro exI [of _ "[t]"] exI [of _ k] exI [of _ ts]) auto
    next
      case (sent f k pending')
      then show ?thesis using run True q x
        by (intro exI [of _ "[t]"] exI [of _ k] exI [of _ ts]) auto
    qed
  next
    case False
    then have "(r \<noteq> None \<and> s' = drain_state N pid name ?s) \<or> s' = ?s"
      using assms by (auto simp: write_loop_step_def Let_def split: if_splits list.splits)
    then show ?thesis using kd False assms by auto
  qed
qed

lemma write_loop_ordered:
  "write_loop K N name pid ps s = (r, s') \<Longrightarrow>
   \<exists>ts k rest. ls_log s' = ls_log s @ k \<and> list_all2 (sent_as K name) ts (writes k)
     \<and> ls_queue s @ concat (map p_arrivals ps) = ts @ rest \<and> (r = None \<longrightarrow> rest = ls_queue s')"
proof (induction ps arbitrary: s)
  case (Cons p ps)
  obtain r1 s1 where st: "write_loop_step K N name pid p s = (r1, s1)" by fastforce
  obtain ts k rest where 1: "ls_log s1 = ls_log s @ k" "list_all2 (sent_as K name) ts (writes k)"
      "ls_queue s @ p_arrivals p = ts @ rest" "r1 = None \<longrightarrow> rest = ls_queue s1"
    using write_loop_step_order [OF st] by blast
  show ?case
  proof (cases r1)
    case None
    with Cons.prems st have "write_loop K N name pid ps s1 = (r, s')" by simp
    from Cons.IH [OF this] obtain ts2 k2 rest2 where 2: "ls_log s' = ls_log s1 @ k2"
        "list_all2 (sent_as K name) ts2 (writes k2)"
        "ls_queue s1 @ concat (map p_arrivals ps) = ts2 @ rest2" "r = None \<longrightarrow> rest2 = ls_queue s'"
      by blast
    have "ls_queue s @ concat (map p_arrivals (p # ps)) = (ts @ ts2) @ rest2"
      using 1(3,4) 2(3) None by (metis append.assoc concat.simps(2) list.map(2))
    moreover have "list_all2 (sent_as K name) (ts @ ts2) (writes (k @ k2))"
      using 1(2) 2(2) by (simp add: list_all2_appendI)
    ultimately show ?thesis using 1(1) 2(1,4) by (metis append.assoc)
  next
    case (Some x)
    with Cons.prems st have "s' = s1" "r = Some x" by simp_all
    moreover have "ls_queue s @ concat (map p_arrivals (p # ps))
        = ts @ rest @ concat (map p_arrivals ps)" using 1(3) by (metis append.assoc concat.simps(2) list.map(2))
    ultimately show ?thesis using 1(1,2) by blast
  qed
qed auto

text \<open>On a stream that takes everything, what the write loop offers to it is what is written.\<close>

definition all_written :: "log \<Rightarrow> bool" where
  "all_written h \<longleftrightarrow> written h = concat (writes h)"

lemma written_Nil: "writes k = [] \<Longrightarrow> written k = []"
proof (induction k)
  case (Cons c k)
  then show ?case by (cases c) (simp_all add: observer_defs)
qed simp

lemma all_written_append: "all_written h \<Longrightarrow> all_written k \<Longrightarrow> all_written (h @ k)"
  by (simp add: all_written_def)

lemma all_written_quiet: "all_written h \<Longrightarrow> writes k = [] \<Longrightarrow> all_written (h @ k)"
  by (simp add: all_written_def written_Nil)

lemma process_outgoing_written:
  assumes N: "writes_succeed N" and "all_written h"
    and "process_outgoing_message K N t name pid pending h = (r, h')"
  shows "all_written h'"
  using assms(3)
proof (cases rule: process_outgoing_cases)
  case (unwritten f msg k)
  with assms(3) have False
    by (simp add: process_outgoing_message_def joiner_write_frame_def write_flush_succeeds [OF N]
      split: prod.splits)
  then show ?thesis ..
qed (use assms(2) all_written_append in \<open>auto simp: all_written_def\<close>)

lemma write_loop_step_written:
  assumes N: "writes_succeed N" and h: "all_written (ls_log s)"
    and st: "write_loop_step K N name pid p s = (r, s')"
  shows "all_written (ls_log s')"
proof -
  let ?s = "s\<lparr>ls_queue := ls_queue s @ p_arrivals p\<rparr>"
  have d: "all_written (ls_log (drain_state N pid name ?s))"
    using drain_state_log [of N pid name ?s] all_written_quiet [OF h] by auto
  show ?thesis
  proof (cases "\<not> p_shutdown p \<and> \<not> p_reader_done p \<and> ls_queue ?s \<noteq> []")
    case True
    then obtain t ts where q: "ls_queue s @ p_arrivals p = t # ts"
      by (cases "ls_queue s @ p_arrivals p") auto
    obtain x h' where x: "process_outgoing_message K N t name pid (ls_pending s) (ls_log s) = (x, h')"
      by fastforce
    have "ls_log s' = h'" using st True q x by (cases x) (auto simp: write_loop_step_def Let_def)
    with process_outgoing_written [OF N h x] show ?thesis by simp
  next
    case False
    then have "ls_log s' = ls_log (drain_state N pid name ?s) \<or> ls_log s' = ls_log s"
      using st by (auto simp: write_loop_step_def Let_def split: if_splits list.splits)
    then show ?thesis using d h by auto
  qed
qed

lemma write_loop_written:
  assumes "writes_succeed N"
  shows "write_loop K N name pid ps s = (r, s') \<Longrightarrow> all_written (ls_log s) \<Longrightarrow> all_written (ls_log s')"
proof (induction ps arbitrary: s)
  case (Cons p ps)
  obtain r1 s1 where st: "write_loop_step K N name pid p s = (r1, s1)" by fastforce
  note w = write_loop_step_written [OF assms Cons.prems(2) st]
  show ?case
  proof (cases r1)
    case None
    with Cons.prems st Cons.IH [OF _ w] show ?thesis by simp
  next
    case (Some x)
    with Cons.prems st w show ?thesis by simp
  qed
qed simp


section \<open>Properties\<close>

text \<open>
  C19. Connecting is gated by the invite: a joiner is returned only for a code that decodes, over
  the stream that the one connection to the address of the invite on port 80 gave, under the
  name chosen by the caller or else by the invite; the first bytes sent are the nonce of the
  invite (the module comment has the handshake generate one) and the discriminator, and the
  identifier is the discriminator in base58.
\<close>

theorem joiner_connect_sound:
  assumes "joiner_connect K net_of connect checks now disc tor code name = Some (Inr j, tor', h)"
  shows "\<exists>p stream rest. decode_invite K checks now code (Some 300) = Some (Inr p)
     \<and> connect tor (ip_onion_address p) 80 = (Inr stream, tor') \<and> j_stream j = Some stream
     \<and> j_name j = (if name \<noteq> [] then name else case ip_suggested_name p of
          Some s \<Rightarrow> s | None \<Rightarrow> ''anonymous'')
     \<and> j_peer_id j = PeerId (to_base58 K disc) \<and> written h = ip_nonce p @ disc @ rest"
  using assms
proof (cases rule: joiner_connect_cases)
  case (connected p stream)
  let ?hs = "joiner_handshake K (net_of stream) (effective_name name p) (ip_nonce p) disc []"
  from connected(3) obtain pid where pid: "fst ?hs = Inr pid"
      "j = \<lparr>j_stream = Some stream, j_peer_id = pid, j_name = effective_name name p\<rparr>"
    by (cases "fst ?hs") auto
  then have "?hs = (Inr pid, h)" using connected(4) by (cases ?hs) simp
  from joiner_handshake_Inr [OF this] pid connected(1,2) show ?thesis
    by (auto simp: effective_name_def split: option.splits)
qed simp_all

lemma sample_decodes:
  obtains token where "encode_invite sample_crates (sample_invite 1000) = Inr token"
    "decode_invite sample_crates True 1000 token (Some 300) = Some (Inr (sample_invite 1000))"
proof -
  obtain token where e: "encode_invite sample_crates (sample_invite 1000) = Inr token"
    using encode_wf [OF sample_invite_wf] by blast
  have "times_fit 1000 (ip_timestamp (sample_invite 1000)) (Some 300)" by (simp add: times_fit_def)
  from check_times_exact [OF this, of True] decode_encoded [OF _ _ sample_invite_wf e] that e
  show ?thesis by simp
qed

theorem joiner_connect_sound_witness:
  "\<exists>code j h rest. joiner_connect sample_crates (\<lambda>_. mem_net [0]) (\<lambda>c a p. (Inr a, Suc c)) True 1000
       demo_disc 0 code ''al'' = Some (Inr j, 1, h)
     \<and> j_stream j = Some sample_address \<and> j_name j = ''al''
     \<and> written h = replicate 16 66 @ demo_disc @ rest"
proof -
  let ?c = "\<lambda>(c :: nat) (a :: string) (p :: u16). (Inr a :: chat_error + string, Suc c)"
  obtain code where code: "decode_invite sample_crates True 1000 code (Some 300)
      = Some (Inr (sample_invite 1000))" using sample_decodes .
  have "fst (joiner_handshake sample_crates (mem_net [0]) ''al'' (replicate 16 66) demo_disc [])
      = Inr (PeerId (to_base58 sample_crates demo_disc))"
    using joiner_handshake_answer [of "mem_net [0]" 0 sample_crates "''al''" "replicate 16 66" demo_disc]
    by (simp add: Let_def)
  then obtain h where "joiner_handshake sample_crates (mem_net [0]) ''al'' (replicate 16 66) demo_disc []
      = (Inr (PeerId (to_base58 sample_crates demo_disc)), h)" by (metis prod.collapse)
  then have c: "joiner_connect sample_crates (\<lambda>_. mem_net [0]) ?c True 1000 demo_disc 0 code ''al''
      = Some (Inr \<lparr>j_stream = Some sample_address,
          j_peer_id = PeerId (to_base58 sample_crates demo_disc), j_name = ''al''\<rparr>, 1, h)"
    by (simp add: joiner_connect_def effective_name_def code)
  from joiner_connect_sound [OF c] obtain rest where
    "written h = replicate 16 66 @ demo_disc @ rest" using code by auto
  with c show ?thesis by (intro exI conjI) (assumption, simp_all)
qed

text \<open>
  A code that does not decode never reaches the network: the connector is not called. One
  that decodes makes exactly one call, to the address of the invite on port 80, whatever the
  handshake then does.
\<close>

theorem joiner_connect_calls:
  assumes "joiner_connect K net_of mock_connect checks now disc c code name = Some (r, c', h)"
  shows "case decode_invite K checks now code (Some 300) of
      Some (Inr p) \<Rightarrow> mock_call_count c' = mock_call_count c + 1
        \<and> mock_last_target c' = Some (ip_onion_address p, 80)
    | Some (Inl e) \<Rightarrow> r = Inl e \<and> c' = c \<and> h = []
    | None \<Rightarrow> False"
  using assms
  by (cases rule: joiner_connect_cases) (auto dest: mock_connect_observed)

theorem joiner_connect_calls_witness:
  "\<exists>r c' h. joiner_connect sample_crates (\<lambda>_. mem_net []) mock_connect True 1000 demo_disc
       (mock_new :: unit mock_connector) [] ''al'' = Some (r, c', h) \<and> c' = mock_new"
proof -
  have d: "decode_invite sample_crates True 1000 [] (Some 300)
      = Some (Inl (InvalidInvite ''empty token''))" by (simp add: decode_invite_def)
  then obtain r c' h where c: "joiner_connect sample_crates (\<lambda>_. mem_net []) mock_connect True 1000
      demo_disc (mock_new :: unit mock_connector) [] ''al'' = Some (r, c', h)"
    by (simp add: joiner_connect_def)
  from joiner_connect_calls [OF c] c d show ?thesis by auto
qed

text \<open>
  In-order delivery: when the hub sends frames and closes, and the event channel takes
  everything, the reader ends after exactly one event per frame, in the order sent, with the name
  that the message carries as both identifier and name. System, ping and pong messages become
  events as well.
\<close>

theorem joiner_reader_delivers:
  assumes "json_ok K" and "sends_succeed N"
    and "list_all2 (\<lambda>m f. wf_wire m \<and> encode_message K m = Inr f) ms fs"
    and "feeds N (concat fs)" and "length ms < fuel"
  shows "\<exists>h. joiner_reader_loop K N fuel [] = Some (Ended, h)
    \<and> accepted h = map (\<lambda>m. ToEvents (Message (PeerId (wm_name m)) (wm_name m) (wm_text m))) ms"
proof -
  have "concat (map (\<lambda>m. [ToEvents (joiner_event m)]) ms) = map (ToEvents \<circ> joiner_event) ms"
    by (induction ms) simp_all
  with joiner_reader.loop_delivers [OF assms, of Ended] show ?thesis
    by (auto simp: joiner_reader_loop_def joiner_event_def)
qed

theorem joiner_reader_delivers_witness:
  "\<exists>h. joiner_reader_loop sample_crates
       (mem_net (frame_of (sample_json (wire_chat ''bob'' ''hi'')) @ frame_of (sample_json wire_pong)))
       3 [] = Some (Ended, h)
     \<and> accepted h = [ToEvents (Message (PeerId ''bob'') ''bob'' ''hi''),
                     ToEvents (Message (PeerId []) [] [])]"
proof -
  have small: "length (sample_json wire_pong) \<le> MAX_PAYLOAD_BYTES" by code_simp
  have "list_all2 (\<lambda>m f. wf_wire m \<and> encode_message sample_crates m = Inr f)
     [wire_chat ''bob'' ''hi'', wire_pong]
     [frame_of (sample_json (wire_chat ''bob'' ''hi'')), frame_of (sample_json wire_pong)]"
    by (simp add: ascii_is_utf8 sample_encode sample_length_small small)
  from joiner_reader_delivers [OF _ _ this, of "mem_net (frame_of (sample_json
      (wire_chat ''bob'' ''hi'')) @ frame_of (sample_json wire_pong))" 3]
  show ?thesis by (simp add: wire_pong_def)
qed

text \<open>
  C22. The reader comes to a stop on every finite stream, whatever its bytes, in at most one pass per
  byte, and never reads more than the payload limit at once. It ends, unless the event channel
  never takes an event that it sends: then, and only then, it is left waiting in that very send.
\<close>

theorem joiner_reader_terminates:
  assumes "feeds N bs" and "length bs < fuel"
  shows "\<exists>e h. joiner_reader_loop K N fuel [] = Some (e, h)
    \<and> list_all (\<lambda>n. n \<le> MAX_PAYLOAD_BYTES) (read_sizes h)
    \<and> (e = Blocked \<longleftrightarrow> list_ex is_untaken h)
    \<and> (e = Blocked \<longrightarrow> (\<exists>h0 x. h = h0 @ [SendAwait x Elapsed]))"
proof -
  from joiner_reader.loop_terminates [OF assms(1), of "[]" fuel Ended K] assms(2)
  obtain e h where l: "frame_loop Ended (handle_incoming_frame K N) N fuel [] = Some (e, h)" by auto
  have "e = Blocked \<longrightarrow> (\<exists>h0 x. h = h0 @ [SendAwait x Elapsed])"
    using l joiner_reader.loop_blocked [of K N fuel "[]" h] by blast
  moreover have "e = Blocked \<longleftrightarrow> list_ex is_untaken h"
    using l joiner_reader.loop_ended [of K N fuel "[]" h] calculation by (cases e) auto
  ultimately show ?thesis
    using l joiner_reader.loop_reads_bounded [OF l] by (auto simp: joiner_reader_loop_def)
qed

text \<open>A network that delivers, beside an interface that takes no event.\<close>

definition deaf_net :: "bytes \<Rightarrow> net" where
  "deaf_net bs = (mem_net bs)\<lparr>n_send := \<lambda>h x. Elapsed\<rparr>"

lemma deaf_net_feeds: "feeds (deaf_net bs) bs"
  using mem_net_feeds [of bs] by (simp add: feeds_def deaf_net_def)

theorem joiner_reader_terminates_witness:
  "\<exists>bs h0 x. joiner_reader_loop sample_crates (deaf_net bs) (Suc (length bs)) []
      = Some (Blocked, h0 @ [SendAwait x Elapsed])
    \<and> list_all (\<lambda>n. n \<le> MAX_PAYLOAD_BYTES) (read_sizes (h0 @ [SendAwait x Elapsed]))"
proof -
  let ?m = "wire_chat ''bob'' ''hi''"
  have "encode_message sample_crates ?m = Inr (frame_of (sample_json ?m))"
    by (rule sample_encode) code_simp
  then obtain v where v: "frame_of (sample_json ?m) = frame_of v" "v \<noteq> []" "utf8_valid v"
      "length v \<le> MAX_PAYLOAD_BYTES" "json_from_slice sample_crates v = Inr ?m"
    using encode_message_InrE [of sample_crates ?m] by (auto simp: ascii_is_utf8)
  let ?N = "deaf_net (frame_of v)"
  have "feeds ?N ([] @ frame_of v @ [])" using deaf_net_feeds [of "frame_of v"] by simp
  from read_frame_feeds [OF this _ _ v(2,3,4), of "[]"] obtain h1 where
    r: "read_frame ?N [] = (Ready (Inr (frame_of v)), h1)" by simp
  have "decode_message sample_crates (frame_of v) = Inr ?m" using v by (simp add: decode_frame)
  then have "handle_incoming_frame sample_crates ?N (frame_of v) h1
      = (Stuck, h1 @ [SendAwait (ToEvents (joiner_event ?m)) Elapsed])"
    by (simp add: handle_incoming_frame_def send_await_def deaf_net_def)
  with r have "\<exists>h. joiner_reader_loop sample_crates ?N (Suc (length (frame_of v))) [] = Some (Blocked, h)"
    unfolding joiner_reader_loop_def frame_loop.simps by simp
  with joiner_reader_terminates [OF deaf_net_feeds, of "frame_of v" "Suc (length (frame_of v))" sample_crates]
  show ?thesis by (intro exI [of _ "frame_of v"]) auto
qed

text \<open>
  The frames that the write loop puts on the stream are the encodings of the first texts
  that arrived, each once and in order, for any polls and any network; and while the loop goes
  on, they are all the texts that have left the message channel.
\<close>

theorem write_loop_order:
  assumes "write_loop K N name pid polls s = (r, s')"
  shows "\<exists>ts k rest. ls_log s' = ls_log s @ k
     \<and> list_all2 (\<lambda>t f. encode_message K (wire_chat name t) = Inr f) ts (writes k)
     \<and> ls_queue s @ concat (map p_arrivals polls) = ts @ rest
     \<and> (r = None \<longrightarrow> rest = ls_queue s')"
  by (rule write_loop_ordered [OF assms])

definition demo_poll :: "string list \<Rightarrow> bool \<Rightarrow> poll" where
  "demo_poll ts sd = \<lparr>p_arrivals = ts, p_shutdown = sd, p_reader_done = False,
     p_senders_gone = False, p_events_closed = False\<rparr>"

theorem write_loop_order_witness:
  "\<exists>r s'. write_loop sample_crates (mem_net []) ''al'' (PeerId ''p'') [demo_poll [''x'', ''y''] False]
      \<lparr>ls_queue = [], ls_pending = [], ls_log = []\<rparr> = (r, s')
    \<and> (\<exists>ts rest. list_all2 (\<lambda>t f. encode_message sample_crates (wire_chat ''al'' t) = Inr f)
           ts (writes (ls_log s'))
        \<and> [''x'', ''y''] = ts @ rest \<and> (r = None \<longrightarrow> rest = ls_queue s'))"
proof -
  obtain r s' where w: "write_loop sample_crates (mem_net []) ''al'' (PeerId ''p'')
      [demo_poll [''x'', ''y''] False] \<lparr>ls_queue = [], ls_pending = [], ls_log = []\<rparr> = (r, s')"
    by fastforce
  from write_loop_order [OF w] show ?thesis unfolding w by (auto simp: demo_poll_def)
qed

text \<open>
  Draining on shutdown conserves events: for any behaviour of the event channel nothing
  reaches the stream, the pending buffer ends empty, and the events that the channel takes are,
  with multiplicity, among the pending ones and one per queued text; something is lost only when
  the very last offer was refused.
\<close>

theorem drain_conserves:
  assumes "drain_and_flush N pid name msgs pending h = (p, h')"
  shows "p = [] \<and> (\<exists>k acc. h' = h @ k \<and> writes k = [] \<and> accepted k = map ToEvents acc
     \<and> mset acc \<subseteq># mset (pending @ map (make_event pid name) msgs)
     \<and> (mset acc \<noteq> mset (pending @ map (make_event pid name) msgs) \<longrightarrow>
          (\<exists>x. k \<noteq> [] \<and> last k = TrySend x False)))"
proof -
  let ?all = "pending @ map (make_event pid name) msgs"
  obtain p1 h1 where d: "drain_messages N pid name msgs pending h = (p1, h1)" by fastforce
  have f: "flush_pending N p1 h1 = (p, h')" using assms d by (simp add: drain_and_flush_def Let_def)
  obtain k1 qs a1 where 1: "h1 = h @ k1" "writes k1 = []" "p1 = pending @ qs"
      "accepted k1 = map ToEvents a1" "mset a1 + mset qs = mset (map (make_event pid name) msgs)"
    using drain_messages_log [OF d] by blast
  obtain k2 m where 2: "p = []" "h' = h1 @ k2" "writes k2 = []" "m \<le> length p1"
      "accepted k2 = map ToEvents (take m (rev p1))"
      "m < length p1 \<longrightarrow> (\<exists>x. k2 \<noteq> [] \<and> last k2 = TrySend x False)"
    using flush_pending_log [OF f] by blast
  let ?a2 = "take m (rev p1)"
  have all: "mset a1 + mset p1 = mset ?all" using 1(3,5) by (simp add: ac_simps)
  have "mset p1 = mset ?a2 + mset (drop m (rev p1))"
    by (metis append_take_drop_id mset_append mset_rev)
  with all have sub: "mset ?all = mset (a1 @ ?a2) + mset (drop m (rev p1))"
    by (simp add: ac_simps)
  have "m < length p1" if "mset (a1 @ ?a2) \<noteq> mset ?all"
    using that sub 2(4) by (cases "m = length p1") auto
  moreover have "mset (a1 @ ?a2) \<subseteq># mset ?all" unfolding sub by simp
  ultimately show ?thesis
    using 1 2 by (intro conjI exI [of _ "k1 @ k2"] exI [of _ "a1 @ ?a2"]) auto
qed

theorem drain_conserves_witness:
  "\<exists>p h' acc. drain_and_flush (mem_net []) (PeerId ''p'') ''al'' [''x''] [RoomClosed] [] = (p, h')
     \<and> p = [] \<and> writes h' = [] \<and> accepted h' = map ToEvents acc
     \<and> mset acc \<subseteq># mset [RoomClosed, Message (PeerId ''p'') ''al'' ''x'']"
proof -
  obtain p h' where d: "drain_and_flush (mem_net []) (PeerId ''p'') ''al'' [''x''] [RoomClosed] []
      = (p, h')" by fastforce
  from drain_conserves [OF d] show ?thesis unfolding d by (auto simp: make_event_def)
qed

text \<open>
  A shutdown leaves queued texts unsent: the first pass that sees the signal returns success
  with empty buffers, shows every queued text as an event of the local user (in order) and then
  the pending events (newest first), and writes none of them to the stream.
\<close>

theorem shutdown_shows_unsent:
  assumes "sends_succeed N" and "p_shutdown p"
  shows "\<exists>k. write_loop K N name pid (p # ps) s
      = (Some (Inr ()), \<lparr>ls_queue = [], ls_pending = [], ls_log = ls_log s @ k\<rparr>)
    \<and> writes k = []
    \<and> accepted k = map (\<lambda>t. ToEvents (Message pid name t)) (ls_queue s @ p_arrivals p)
        @ map ToEvents (rev (ls_pending s))"
proof -
  let ?q = "ls_queue s @ p_arrivals p"
  obtain k1 where 1: "drain_messages N pid name ?q (ls_pending s) (ls_log s)
      = (ls_pending s, ls_log s @ k1)" "writes k1 = []"
      "accepted k1 = map (ToEvents \<circ> make_event pid name) ?q"
    using drain_messages_all [OF assms(1)] by blast
  obtain k2 where 2: "flush_pending N (ls_pending s) (ls_log s @ k1) = ([], (ls_log s @ k1) @ k2)"
      "writes k2 = []" "accepted k2 = map ToEvents (rev (ls_pending s))"
    using flush_pending_all [OF assms(1)] by blast
  show ?thesis
    using 1 2 assms(2)
    by (intro exI [of _ "k1 @ k2"])
       (simp add: write_loop_step_def drain_state_def drain_and_flush_def make_event_def)
qed

theorem shutdown_shows_unsent_witness:
  "\<exists>h. write_loop sample_crates (mem_net []) ''al'' (PeerId ''p'') [demo_poll [''x'', ''y''] True]
      \<lparr>ls_queue = [], ls_pending = [RoomClosed], ls_log = []\<rparr>
        = (Some (Inr ()), \<lparr>ls_queue = [], ls_pending = [], ls_log = h\<rparr>)
    \<and> writes h = [] \<and> accepted h = [ToEvents (Message (PeerId ''p'') ''al'' ''x''),
        ToEvents (Message (PeerId ''p'') ''al'' ''y''), ToEvents RoomClosed]"
  using shutdown_shows_unsent [of "mem_net []" "demo_poll [''x'', ''y''] True" sample_crates "''al''"
      "PeerId ''p''" "[]" "\<lparr>ls_queue = [], ls_pending = [RoomClosed], ls_log = []\<rparr>"]
  by (simp add: demo_poll_def)

end
