(* ===== verification/Acceptor.thy ===== *)
theory Acceptor
  imports Connector
begin

text \<open>
  Where the streams of peers come from: the onion service \<open>HostedRoom\<close> of
  \<open>crates/core/src/hub.rs\<close>, the \<open>MockAcceptor\<close> of \<open>crates/core/src/connector.rs\<close>, the trait
  \<open>StreamSource\<close> that both implement, and its client, the accept loop of
  \<open>crates/core/src/room.rs\<close>. The trait is the locale \<open>stream_source\<close>.

  The receiving end of an \<open>mpsc\<close> channel is its queue and whether a sender is left; \<open>recv\<close> takes
  the oldest element, reports the end once the queue is empty and no sender is left, and waits
  otherwise (\<open>Elapsed\<close>).
\<close>

section \<open>Receivers\<close>

record 's receiver =
  rx_queue :: "'s list"
  rx_open :: bool

definition rx_recv :: "'s receiver \<Rightarrow> 's option timed \<times> 's receiver" where
  "rx_recv rx = (case rx_queue rx of
     s # ss \<Rightarrow> (Ready (Some s), rx\<lparr>rx_queue := ss\<rparr>)
   | [] \<Rightarrow> if rx_open rx then (Elapsed, rx) else (Ready None, rx))"

definition rx_feed :: "'s list \<Rightarrow> 's receiver \<Rightarrow> 's receiver" where
  "rx_feed ss rx = rx\<lparr>rx_queue := rx_queue rx @ ss\<rparr>"

section \<open>The onion service\<close>

text \<open>
  What arti answers when a service is launched: the check of the nickname, the build of the
  configuration, and the launch, which fails, reports a disabled service (\<open>None\<close>), or runs with
  the address that the service tells, if it tells one.
\<close>

record onion_ops =
  oo_nickname :: "string \<Rightarrow> string + unit"
  oo_config :: "string + unit"
  oo_launch :: "string + string option option"

record 's hosted_room =
  hr_running_svc :: bool
  hr_address :: "string option"
  hr_port :: u16
  hr_stream_rx :: "'s receiver option"

text \<open>\<open>HostedRoom::new\<close>, with the counter that makes the nicknames (it wraps).\<close>

definition hosted_room_new ::
  "onion_ops \<Rightarrow> u64 \<Rightarrow> u16 \<Rightarrow> (chat_error + 's hosted_room) \<times> u64" where
  "hosted_room_new T next_id port =
     (case oo_nickname T (''chat-room-'' @ show_u64 next_id) of
        Inl e \<Rightarrow> Inl (OnionService (''invalid nickname: '' @ e))
      | Inr _ \<Rightarrow>
          (case oo_config T of
             Inl e \<Rightarrow> Inl (OnionService (''config build failed: '' @ e))
           | Inr _ \<Rightarrow>
               (case oo_launch T of
                  Inl e \<Rightarrow> Inl (OnionService (''launch failed: '' @ e))
                | Inr None \<Rightarrow> Inl (OnionService ''onion service disabled in config'')
                | Inr (Some None) \<Rightarrow> Inl (OnionService ''could not get onion address'')
                | Inr (Some (Some a)) \<Rightarrow>
                    Inr \<lparr>hr_running_svc = True, hr_address = Some a, hr_port = port,
                         hr_stream_rx = Some \<lparr>rx_queue = [], rx_open = True\<rparr>\<rparr>)),
      next_id + 1)"

text \<open>
  \<open>HostedRoom::accept_loop\<close>: for each stream request, the outcome of accepting it and whether the
  receiver of the streams is still there. The result is what is sent to it, in order.
\<close>

fun hosted_accept_loop :: "((string + 's) \<times> bool) list \<Rightarrow> 's list" where
  "hosted_accept_loop [] = []"
| "hosted_accept_loop ((Inr s, alive) # rs) = (if alive then s # hosted_accept_loop rs else [])"
| "hosted_accept_loop ((Inl e, alive) # rs) = hosted_accept_loop rs"

definition hosted_address :: "'s hosted_room \<Rightarrow> string" where
  "hosted_address r = (case hr_address r of None \<Rightarrow> '''' | Some a \<Rightarrow> a)"

definition hosted_port :: "'s hosted_room \<Rightarrow> u16" where
  "hosted_port r = hr_port r"

definition hosted_ready_event :: "'s hosted_room \<Rightarrow> chat_event" where
  "hosted_ready_event r = RoomReady (hosted_address r) (hr_port r)"

definition hosted_accept_peer :: "'s hosted_room \<Rightarrow> 's option timed \<times> 's hosted_room" where
  "hosted_accept_peer r = (case hr_stream_rx r of
     None \<Rightarrow> (Ready None, r)
   | Some rx \<Rightarrow> (case rx_recv rx of (x, rx') \<Rightarrow> (x, r\<lparr>hr_stream_rx := Some rx'\<rparr>)))"

definition hosted_shutdown :: "'s hosted_room \<Rightarrow> 's hosted_room" where
  "hosted_shutdown r = r\<lparr>hr_running_svc := False, hr_stream_rx := None, hr_address := None\<rparr>"

definition hosted_is_running :: "'s hosted_room \<Rightarrow> bool" where
  "hosted_is_running r = hr_running_svc r"

text \<open>What the network adds to the channel of the room while it exists.\<close>

definition hosted_feed :: "'s list \<Rightarrow> 's hosted_room \<Rightarrow> 's hosted_room" where
  "hosted_feed ss r = r\<lparr>hr_stream_rx := map_option (rx_feed ss) (hr_stream_rx r)\<rparr>"

definition hosted_pending :: "'s hosted_room \<Rightarrow> 's list" where
  "hosted_pending r = (case hr_stream_rx r of None \<Rightarrow> [] | Some rx \<Rightarrow> rx_queue rx)"

section \<open>The mock acceptor\<close>

record 's mock_acceptor =
  ma_stream_rx :: "'s receiver"

definition mock_accept :: "'s mock_acceptor \<Rightarrow> 's option timed \<times> 's mock_acceptor" where
  "mock_accept a = (case rx_recv (ma_stream_rx a) of (x, rx') \<Rightarrow> (x, a\<lparr>ma_stream_rx := rx'\<rparr>))"

text \<open>\<open>StreamSource::shutdown\<close> has an empty default, which the mock keeps.\<close>

definition mock_shutdown :: "'s mock_acceptor \<Rightarrow> 's mock_acceptor" where
  "mock_shutdown a = a"

definition mock_feed :: "'s list \<Rightarrow> 's mock_acceptor \<Rightarrow> 's mock_acceptor" where
  "mock_feed ss a = a\<lparr>ma_stream_rx := rx_feed ss (ma_stream_rx a)\<rparr>"

definition mock_pending :: "'s mock_acceptor \<Rightarrow> 's list" where
  "mock_pending a = rx_queue (ma_stream_rx a)"

section \<open>The accept loop\<close>

text \<open>
  \<open>accept_loop\<close> of \<open>room.rs\<close>. A pass of the loop is a poll: the streams that have come in and
  whether shutdown is signalled; shutdown is looked at first. The result is the streams for which a
  handler was spawned, in order, whether the loop has ended, and the source.
\<close>

fun accept_loop :: "('a \<Rightarrow> 's option timed \<times> 'a) \<Rightarrow> ('a \<Rightarrow> 'a) \<Rightarrow> ('s list \<Rightarrow> 'a \<Rightarrow> 'a)
    \<Rightarrow> ('s list \<times> bool) list \<Rightarrow> 'a \<Rightarrow> 's list \<times> bool \<times> 'a" where
  "accept_loop accept shutdown feed [] a = ([], False, a)"
| "accept_loop accept shutdown feed ((arrivals, stop) # ps) a =
     (if stop then ([], True, shutdown (feed arrivals a))
      else
        (case accept (feed arrivals a) of
           (Ready (Some s), a') \<Rightarrow>
             (case accept_loop accept shutdown feed ps a' of (ss, d, a'') \<Rightarrow> (s # ss, d, a''))
         | (Ready None, a') \<Rightarrow> ([], True, shutdown a')
         | (Elapsed, a') \<Rightarrow> accept_loop accept shutdown feed ps a'))"

locale stream_source =
  fixes accept :: "'a \<Rightarrow> 's option timed \<times> 'a"
    and shutdown :: "'a \<Rightarrow> 'a"
    and feed :: "'s list \<Rightarrow> 'a \<Rightarrow> 'a"
    and pending :: "'a \<Rightarrow> 's list"
    and alive :: "'a \<Rightarrow> bool"
  assumes feed_pending: "alive a \<Longrightarrow> alive (feed ss a) \<and> pending (feed ss a) = pending a @ ss"
    and accept_next: "alive a \<Longrightarrow> accept a = (Ready (Some s), a') \<Longrightarrow>
      alive a' \<and> pending a = s # pending a'"
    and accept_wait: "alive a \<Longrightarrow> accept a = (Elapsed, a') \<Longrightarrow> a' = a \<and> pending a = []"
    and accept_end: "alive a \<Longrightarrow> accept a = (Ready None, a') \<Longrightarrow> a' = a \<and> pending a = []"
begin

lemma serves_in_order:
  "alive a \<Longrightarrow> accept_loop accept shutdown feed ps a = (ss, d, a') \<Longrightarrow>
   \<exists>rest. pending a @ concat (map fst ps) = ss @ rest \<and> (\<not> d \<longrightarrow> alive a' \<and> rest = pending a')"
proof (induction ps arbitrary: a ss)
  case (Cons p ps)
  obtain arr stop where p: "p = (arr, stop)" by (cases p)
  note f = feed_pending [OF Cons.prems(1), of arr]
  show ?case
  proof (cases "\<not> stop \<and> fst (accept (feed arr a)) \<noteq> Ready None")
    case True
    then obtain x a1 where x: "accept (feed arr a) = (x, a1)" "x \<noteq> Ready None"
      by (cases "accept (feed arr a)") auto
    show ?thesis
    proof (cases x)
      case Elapsed
      with accept_wait f x have a1: "a1 = feed arr a" "pending (feed arr a) = []" by blast+
      with Cons.prems(2) p True x Elapsed
      have "accept_loop accept shutdown feed ps a1 = (ss, d, a')" by simp
      from Cons.IH [OF _ this] a1 f p show ?thesis by auto
    next
      case (Ready y)
      with x(2) obtain s where s: "x = Ready (Some s)" by (cases y) auto
      with accept_next f x have a1: "alive a1" "pending (feed arr a) = s # pending a1" by blast+
      from Cons.prems(2) p True x s obtain ss1 where ss1: "ss = s # ss1"
          "accept_loop accept shutdown feed ps a1 = (ss1, d, a')"
        by (auto split: prod.splits)
      from Cons.IH [OF a1(1) ss1(2)] obtain rest where
        "pending a1 @ concat (map fst ps) = ss1 @ rest" "\<not> d \<longrightarrow> alive a' \<and> rest = pending a'"
        by blast
      moreover have "pending a @ concat (map fst (p # ps)) = s # pending a1 @ concat (map fst ps)"
        using f a1(2) p by (metis append.assoc append_Cons concat.simps(2) fst_conv list.map(2))
      ultimately show ?thesis using ss1(1) by auto
    qed
  next
    case False
    with Cons.prems(2) p have "ss = []" "d"
      by (auto split: if_splits prod.splits option.splits timed.splits)
    then show ?thesis by simp
  qed
qed simp

text \<open>Once the loop has ended, the source has been shut down.\<close>

lemma ends_shut_down:
  "accept_loop accept shutdown feed ps a = (ss, True, a') \<Longrightarrow> \<exists>b. a' = shutdown b"
proof (induction ps arbitrary: a ss)
  case (Cons p ps)
  then show ?case
    by (cases p) (auto split: if_splits prod.splits option.splits timed.splits)
qed simp

end

interpretation hosted: stream_source hosted_accept_peer hosted_shutdown hosted_feed hosted_pending
  "\<lambda>r. hr_stream_rx r \<noteq> None"
  by unfold_locales
     (auto simp: hosted_feed_def hosted_pending_def hosted_accept_peer_def rx_recv_def rx_feed_def
           split: option.splits list.splits if_splits)

interpretation mock: stream_source mock_accept mock_shutdown mock_feed mock_pending "\<lambda>_. True"
  by unfold_locales
     (auto simp: mock_feed_def mock_pending_def mock_accept_def rx_recv_def rx_feed_def
           split: list.splits if_splits)

section \<open>The life of an onion service\<close>

text \<open>The states that the operations of \<open>HostedRoom\<close> lead to from a successful \<open>new\<close>.\<close>

inductive hosted_reach :: "'s hosted_room \<Rightarrow> bool" where
  hosted_new: "hosted_room_new T n port = (Inr r, n') \<Longrightarrow> hosted_reach r"
| hosted_feed: "hosted_reach r \<Longrightarrow> hosted_reach (hosted_feed ss r)"
| hosted_accept: "hosted_reach r \<Longrightarrow> hosted_accept_peer r = (x, r') \<Longrightarrow> hosted_reach r'"
| hosted_stop: "hosted_reach r \<Longrightarrow> hosted_reach (hosted_shutdown r)"

lemma hosted_new_running:
  assumes "hosted_room_new T n port = (Inr r, n')"
  shows "hr_running_svc r \<and> hr_address r \<noteq> None \<and> hr_stream_rx r \<noteq> None \<and> hr_port r = port"
  using assms by (auto simp: hosted_room_new_def split: sum.splits option.splits)

lemma hosted_accept_fields:
  assumes "hosted_accept_peer r = (x, r')"
  shows "hr_running_svc r' = hr_running_svc r \<and> hr_address r' = hr_address r
    \<and> hr_port r' = hr_port r \<and> (hr_stream_rx r' = None) = (hr_stream_rx r = None)"
  using assms by (auto simp: hosted_accept_peer_def split: option.splits prod.splits)

section \<open>Properties\<close>

text \<open>
  An onion service is either fully up or fully down: in every state that its operations
  reach it runs exactly when it has an address and exactly when it can still yield streams; once
  it is down, \<open>accept_peer\<close> answers \<open>None\<close> at once and the address reads empty.
\<close>

theorem hosted_room_consistent:
  assumes "hosted_reach r"
  shows "(hosted_is_running r \<longleftrightarrow> hr_address r \<noteq> None)
    \<and> (hosted_is_running r \<longleftrightarrow> hr_stream_rx r \<noteq> None)
    \<and> (\<not> hosted_is_running r \<longrightarrow> hosted_accept_peer r = (Ready None, r)
         \<and> hosted_ready_event r = RoomReady '''' (hr_port r))"
  using assms
proof (induction rule: hosted_reach.induct)
  case (hosted_new T n port r n')
  then show ?case using hosted_new_running [OF hosted_new.hyps] by (auto simp: hosted_is_running_def)
next
  case (hosted_accept r x r')
  then show ?case
    using hosted_accept_fields [OF hosted_accept.hyps(2)]
    by (auto simp: hosted_is_running_def hosted_accept_peer_def hosted_ready_event_def
      hosted_address_def split: option.splits)
qed (auto simp: hosted_is_running_def hosted_accept_peer_def hosted_ready_event_def
      hosted_address_def hosted_feed_def hosted_shutdown_def)

definition sample_onion :: onion_ops where
  "sample_onion = \<lparr>oo_nickname = (\<lambda>s. Inr ()), oo_config = Inr (),
     oo_launch = Inr (Some (Some ''abc.onion''))\<rparr>"

theorem hosted_room_consistent_witness:
  "\<exists>r n. hosted_room_new sample_onion 0 80 = (Inr (r :: nat hosted_room), n)
    \<and> \<not> hosted_is_running (hosted_shutdown r)
    \<and> hosted_accept_peer (hosted_shutdown r) = (Ready None, hosted_shutdown r)"
proof -
  obtain r :: "nat hosted_room" and n where r: "hosted_room_new sample_onion 0 80 = (Inr r, n)"
    by (simp add: hosted_room_new_def sample_onion_def)
  have d: "\<not> hosted_is_running (hosted_shutdown r)"
    by (simp add: hosted_is_running_def hosted_shutdown_def)
  from hosted_room_consistent [OF hosted_stop [OF hosted_new [OF r]]] d r show ?thesis by blast
qed

text \<open>
  The accept loop serves the streams of an onion service in order of arrival, each once and
  without a gap; whatever is unserved when the loop still runs is still in the channel, and
  when the loop has ended the service is down.
\<close>

theorem accept_loop_in_order:
  assumes "hr_stream_rx r \<noteq> None"
    and "accept_loop hosted_accept_peer hosted_shutdown hosted_feed ps r = (ss, ended, r')"
  shows "(\<exists>rest. hosted_pending r @ concat (map fst ps) = ss @ rest
      \<and> (\<not> ended \<longrightarrow> rest = hosted_pending r'))
    \<and> (ended \<longrightarrow> \<not> hosted_is_running r' \<and> hosted_address r' = '''')"
proof -
  have "\<not> hosted_is_running r' \<and> hosted_address r' = ''''" if "ended"
  proof -
    from hosted.ends_shut_down [of ps r ss r'] assms(2) that obtain b where "r' = hosted_shutdown b"
      by auto
    then show ?thesis
      by (simp add: hosted_shutdown_def hosted_is_running_def hosted_address_def)
  qed
  then show ?thesis using hosted.serves_in_order [OF assms] by blast
qed

theorem accept_loop_in_order_witness:
  "\<exists>r n ended r'. hosted_room_new sample_onion 0 80 = (Inr r, n)
    \<and> accept_loop hosted_accept_peer hosted_shutdown hosted_feed
        [([7 :: nat, 8], False), ([], False), ([9], True)] r = ([7, 8], ended, r')
    \<and> ended \<and> \<not> hosted_is_running r' \<and> hosted_address r' = ''''"
proof -
  obtain r :: "nat hosted_room" and n where r: "hosted_room_new sample_onion 0 80 = (Inr r, n)"
      "hr_stream_rx r = Some \<lparr>rx_queue = [], rx_open = True\<rparr>"
    by (simp add: hosted_room_new_def sample_onion_def)
  have "\<exists>r'. accept_loop hosted_accept_peer hosted_shutdown hosted_feed
      [([7, 8], False), ([], False), ([9], True)] r = ([7, 8], True, r')"
    using r(2) by (simp add: hosted_accept_peer_def hosted_feed_def rx_recv_def rx_feed_def)
  then obtain r' where l: "accept_loop hosted_accept_peer hosted_shutdown hosted_feed
      [([7, 8], False), ([], False), ([9], True)] r = ([7, 8], True, r')" by blast
  from accept_loop_in_order [OF _ l] r l show ?thesis by auto
qed

end
