(* ===== verification/Peer_Table.thy ===== *)
theory Peer_Table
  imports Chat_Types "HOL-Library.AList"
begin

text \<open>
  The interface of the two tables of connected peers: the \<open>PeerRegistry\<close> of
  \<open>crates/core/src/hub.rs\<close> and the \<open>peers\<close> map of \<open>crates/core/src/room.rs\<close>. Both are a
  \<open>HashMap<PeerId, _>\<close>, that is an association list with distinct keys here (the order in which
  a hash map is iterated is unspecified, so nothing is stated about it). The locale states the laws
  that their clients use and proves what a sequence of joins and leaves amounts to.
\<close>

section \<open>Sequences of joins and leaves\<close>

datatype 'v table_op = Put peer_id 'v | Del peer_id

fun run_table :: "(peer_id \<Rightarrow> 'v \<Rightarrow> 't \<Rightarrow> 't) \<Rightarrow> (peer_id \<Rightarrow> 't \<Rightarrow> 't) \<Rightarrow> 'v table_op list \<Rightarrow> 't \<Rightarrow> 't"
where
  "run_table ins del [] t = t"
| "run_table ins del (Put i v # ops) t = run_table ins del ops (ins i v t)"
| "run_table ins del (Del i # ops) t = run_table ins del ops (del i t)"

text \<open>The last operation of a sequence on a peer, if there is one.\<close>

fun last_op :: "peer_id \<Rightarrow> 'v table_op list \<Rightarrow> 'v option option" where
  "last_op i [] = None"
| "last_op i (Put j v # ops) =
     (case last_op i ops of Some r \<Rightarrow> Some r | None \<Rightarrow> if i = j then Some (Some v) else None)"
| "last_op i (Del j # ops) =
     (case last_op i ops of Some r \<Rightarrow> Some r | None \<Rightarrow> if i = j then Some None else None)"

section \<open>The interface\<close>

locale peer_table =
  fixes ins :: "peer_id \<Rightarrow> 'v \<Rightarrow> 't \<Rightarrow> 't"
    and del :: "peer_id \<Rightarrow> 't \<Rightarrow> 't"
    and look :: "'t \<Rightarrow> peer_id \<Rightarrow> 'v option"
  assumes look_ins: "look (ins i v t) = (look t)(i \<mapsto> v)"
    and look_del: "look (del i t) = (look t)(i := None)"
begin

lemma run_look:
  "look (run_table ins del ops t) i = (case last_op i ops of None \<Rightarrow> look t i | Some r \<Rightarrow> r)"
proof (induction ops arbitrary: t)
  case (Cons a ops)
  then show ?case by (cases a) (simp_all add: look_ins look_del split: option.split)
qed simp

text \<open>A session that registers a peer and then removes it leaves every other peer alone.\<close>

lemma session_frame: "i \<noteq> j \<Longrightarrow> look (del i (ins i v t)) j = look t j"
  by (simp add: look_ins look_del)

lemma session_gone: "look (del i t) i = None"
  by (simp add: look_del)

text \<open>Two sessions on one identifier share an entry: the second replaces it, either end removes it.\<close>

lemma collision_replaces: "look (ins i v2 (ins i v1 t)) i = Some v2"
  by (simp add: look_ins)

lemma collision_removes: "look (del i (ins i v2 (ins i v1 t))) i = None"
  by (simp add: look_del)

end

text \<open>A table that also lists its peers.\<close>

locale listed_table = peer_table +
  fixes ids :: "'b \<Rightarrow> peer_id list" and good :: "'b \<Rightarrow> bool"
  assumes good_ins: "good t \<Longrightarrow> good (ins i v t)"
    and good_del: "good t \<Longrightarrow> good (del i t)"
    and ids_distinct: "good t \<Longrightarrow> distinct (ids t)"
    and ids_dom: "set (ids t) = dom (look t)"
begin

lemma run_good: "good t \<Longrightarrow> good (run_table ins del ops t)"
proof (induction ops arbitrary: t)
  case (Cons a ops)
  then show ?case by (cases a) (simp_all add: good_ins good_del)
qed simp

lemma ids_count: "good t \<Longrightarrow> length (ids t) = card (dom (look t))"
  using ids_distinct [of t] ids_dom [of t] by (metis distinct_card)

text \<open>Sorted, the listing is determined by the table.\<close>

lemma ids_sorted: "good t \<Longrightarrow> sort (ids t) = sorted_list_of_set (dom (look t))"
  using ids_distinct [of t] ids_dom [of t] by (metis sorted_list_of_set_sort_remdups distinct_remdups_id)

lemma run_ids:
  "set (ids (run_table ins del ops t)) =
     {i. case last_op i ops of None \<Rightarrow> i \<in> set (ids t) | Some r \<Rightarrow> r \<noteq> None}"
  by (auto simp: ids_dom run_look domIff split: option.splits)

end

section \<open>Association lists\<close>

definition alist_good :: "('k \<times> 'v) list \<Rightarrow> bool" where
  "alist_good t \<longleftrightarrow> distinct (map fst t)"

interpretation alist: listed_table AList.update AList.delete map_of "map fst" alist_good
proof
  fix i :: peer_id and v :: 'v and t
  show "map_of (AList.update i v t) = (map_of t)(i \<mapsto> v)" by (rule update_conv')
  show "map_of (AList.delete i t) = (map_of t)(i := None)" by (rule delete_conv')
  show "alist_good t \<Longrightarrow> alist_good (AList.update i v t)"
    unfolding alist_good_def by (rule distinct_update)
  show "alist_good t \<Longrightarrow> alist_good (AList.delete i t)"
    unfolding alist_good_def by (rule distinct_delete)
  show "alist_good t \<Longrightarrow> distinct (map fst t)" by (simp add: alist_good_def)
  show "set (map fst t) = dom (map_of t)" by (simp add: dom_map_of_conv_image_fst)
qed

lemma alist_good_Nil [simp]: "alist_good []"
  by (simp add: alist_good_def)

end
