(* ===== verification/Hub.thy ===== *)
theory Hub
  imports Acceptor Peer_Table Frame_Loop Handshake "HOL-Library.Sublist"
begin

text \<open>
  The hub of \<open>crates/core/src/hub.rs\<close>: the peer registry, the operations of \<open>Hub\<close>, the life of a
  connection (handshake, registration, reader and writer tasks, removal). The handshake is in
  \<open>Handshake\<close>, the onion service in \<open>Acceptor\<close>.

  A \<open>PeerTx\<close> is the number of its channel; what is sent to it appears in the log as \<open>ToWriter\<close>.
  An \<open>Instant\<close> read by the code is an argument.
\<close>

section \<open>The peer registry\<close>

record peer_entry =
  pe_name :: string
  pe_joined_at :: nat
  pe_tx :: nat

type_synonym registry = "(peer_id \<times> peer_entry) list"

definition registry_new :: registry where
  "registry_new = []"

definition registry_register :: "peer_id \<Rightarrow> string \<Rightarrow> nat \<Rightarrow> nat \<Rightarrow> registry \<Rightarrow> registry" where
  "registry_register pid name tx now reg =
     AList.update pid \<lparr>pe_name = name, pe_joined_at = now, pe_tx = tx\<rparr> reg"

definition registry_deregister :: "peer_id \<Rightarrow> registry \<Rightarrow> registry" where
  "registry_deregister pid reg = AList.delete pid reg"

definition registry_snapshot :: "registry \<Rightarrow> peer_info list" where
  "registry_snapshot reg = map (\<lambda>(pid, e).
     \<lparr>pi_id = pid, pi_name = pe_name e, pi_joined_at = pe_joined_at e\<rparr>) reg"

definition registry_len :: "registry \<Rightarrow> nat" where
  "registry_len reg = length reg"

definition registry_is_empty :: "registry \<Rightarrow> bool" where
  "registry_is_empty reg \<longleftrightarrow> registry_len reg = 0"

text \<open>\<open>broadcast_to_all\<close>: one send per entry, whose result is ignored.\<close>

fun broadcast_to_all :: "net \<Rightarrow> bytes \<Rightarrow> registry \<Rightarrow> log \<Rightarrow> log" where
  "broadcast_to_all N frame [] h = h"
| "broadcast_to_all N frame ((pid, e) # reg) h =
     broadcast_to_all N frame reg (snd (try_send N (ToWriter (pe_tx e) frame) h))"

section \<open>The hub\<close>

record 's hub =
  hub_room :: "'s hosted_room"
  hub_peers :: registry
  hub_used_nonces :: "nonce set"
  hub_msg_rx :: "(peer_id \<times> wire_message) list"
  hub_running :: bool

definition hub_new :: "'s hosted_room \<Rightarrow> 's hub" where
  "hub_new room = \<lparr>hub_room = room, hub_peers = registry_new, hub_used_nonces = {},
     hub_msg_rx = [], hub_running = False\<rparr>"

definition hub_address :: "'s hub \<Rightarrow> string" where
  "hub_address hub = hosted_address (hub_room hub)"

definition hub_port :: "'s hub \<Rightarrow> u16" where
  "hub_port hub = hr_port (hub_room hub)"

definition hub_peers_list :: "'s hub \<Rightarrow> peer_info list" where
  "hub_peers_list hub = registry_snapshot (hub_peers hub)"

definition hub_peer_count :: "'s hub \<Rightarrow> nat" where
  "hub_peer_count hub = registry_len (hub_peers hub)"

definition broadcast_hub :: "crates \<Rightarrow> net \<Rightarrow> string \<Rightarrow> 's hub \<Rightarrow> log \<Rightarrow> log" where
  "broadcast_hub K N txt hub h =
     (let h1 = snd (try_send N (ToBroadcast (Message (PeerId ''[hub]'') ''[system]'' txt)) h) in
      case encode_message K (wire_system txt) of
        Inl e \<Rightarrow> h1
      | Inr frame \<Rightarrow> broadcast_to_all N frame (hub_peers hub) h1)"

definition broadcast_ping :: "crates \<Rightarrow> net \<Rightarrow> 's hub \<Rightarrow> log \<Rightarrow> log" where
  "broadcast_ping K N hub h =
     (case encode_message K wire_ping of
        Inl e \<Rightarrow> h
      | Inr frame \<Rightarrow> broadcast_to_all N frame (hub_peers hub) h)"

text \<open>\<open>next_event\<close>: the hub holds a sender itself, so that an empty channel is waited for.\<close>

definition next_event :: "'s hub \<Rightarrow> chat_event option timed \<times> 's hub" where
  "next_event hub =
     (if \<not> hub_running hub then (Ready None, hub)
      else
        (case hub_msg_rx hub of
           [] \<Rightarrow> (Elapsed, hub)
         | (pid, m) # ms \<Rightarrow>
             (Ready (Some (Message pid (wm_name m) (wm_text m))), hub\<lparr>hub_msg_rx := ms\<rparr>)))"

text \<open>\<open>accept_next\<close>: the stream for which a handler was spawned, if one was; \<open>False\<close> ends the loop.\<close>

definition accept_next :: "'s hub \<Rightarrow> ('s option \<times> bool) timed \<times> 's hub" where
  "accept_next hub =
     (case hosted_accept_peer (hub_room hub) of
        (Elapsed, room) \<Rightarrow> (Elapsed, hub\<lparr>hub_room := room\<rparr>)
      | (Ready None, room) \<Rightarrow> (Ready (None, False), hub\<lparr>hub_room := room\<rparr>)
      | (Ready (Some s), room) \<Rightarrow> (Ready (Some s, True), hub\<lparr>hub_room := room\<rparr>))"

text \<open>
  \<open>run\<close>. Each element of the list is what the network adds before a pass of the loop. The result
  is the streams handed to handlers, whether the loop has ended, and the hub.
\<close>

fun hub_run_loop :: "'s list list \<Rightarrow> 's hub \<Rightarrow> 's list \<times> bool \<times> 's hub" where
  "hub_run_loop [] hub = ([], False, hub)"
| "hub_run_loop (arrivals # ps) hub =
     (case accept_next (hub\<lparr>hub_room := hosted_feed arrivals (hub_room hub)\<rparr>) of
        (Elapsed, hub') \<Rightarrow> hub_run_loop ps hub'
      | (Ready (s, False), hub') \<Rightarrow> ([], True, hub')
      | (Ready (s, True), hub') \<Rightarrow>
          (case hub_run_loop ps hub' of (ss, d, hub'') \<Rightarrow> (case s of None \<Rightarrow> ss | Some x \<Rightarrow> x # ss, d, hub'')))"

definition hub_run :: "'s list list \<Rightarrow> 's hub \<Rightarrow> 's list \<times> bool \<times> 's hub" where
  "hub_run ps hub =
     (case hub_run_loop ps (hub\<lparr>hub_running := True\<rparr>) of
        (ss, d, hub') \<Rightarrow> (ss, d, if d then hub'\<lparr>hub_running := False\<rparr> else hub'))"

definition hub_shutdown :: "'s hub \<Rightarrow> 's hub" where
  "hub_shutdown hub = hub\<lparr>hub_room := hosted_shutdown (hub_room hub), hub_running := False\<rparr>"

section \<open>The reader task\<close>

definition hub_peer_event :: "peer_id \<Rightarrow> string \<Rightarrow> wire_message \<Rightarrow> chat_event" where
  "hub_peer_event pid name m = Message pid name (wm_text m)"

definition reader_frame :: "peer_id \<Rightarrow> string \<Rightarrow> nat \<Rightarrow> crates \<Rightarrow> net \<Rightarrow> bytes \<Rightarrow> log \<Rightarrow> loop_step \<times> log"
where
  "reader_frame pid name tx K N frame h =
     (case decode_message K frame of
        Inl e \<Rightarrow> (Break, h)
      | Inr m \<Rightarrow>
          if wm_kind m = Ping then
            (case encode_message K wire_pong of
               Inl e \<Rightarrow> (Continue, h)
             | Inr pong \<Rightarrow> (Continue, snd (try_send N (ToWriter tx pong) h)))
          else
            (case send_await N (ToMsg pid m) h of
               (Elapsed, h1) \<Rightarrow> (Stuck, h1)
             | (Ready _, h1) \<Rightarrow>
                 if wm_kind m = Chat
                 then (Continue, snd (try_send N (ToBroadcast (hub_peer_event pid name m)) h1))
                 else (Continue, h1)))"

definition reader_task :: "peer_id \<Rightarrow> string \<Rightarrow> nat \<Rightarrow> crates \<Rightarrow> net \<Rightarrow> nat \<Rightarrow> log \<Rightarrow> (loop_end \<times> log) option"
where
  "reader_task pid name tx K N fuel h = frame_loop Ended (reader_frame pid name tx K N) N fuel h"

text \<open>What a message of a peer becomes.\<close>

definition reader_out :: "peer_id \<Rightarrow> string \<Rightarrow> nat \<Rightarrow> crates \<Rightarrow> wire_message \<Rightarrow> chan_msg list" where
  "reader_out pid name tx K m =
     (if wm_kind m = Ping
      then (case encode_message K wire_pong of Inl e \<Rightarrow> [] | Inr pong \<Rightarrow> [ToWriter tx pong])
      else ToMsg pid m # (if wm_kind m = Chat then [ToBroadcast (hub_peer_event pid name m)] else []))"

interpretation hub_reader: frame_consumer "reader_frame pid name tx" "reader_out pid name tx"
  for pid name tx
proof
  fix K N f h s h'
  assume "reader_frame pid name tx K N f h = (s, h')"
  then show "\<exists>k. h' = h @ k \<and> read_bytes k = [] \<and> read_sizes k = [] \<and> reads_ok k
      \<and> (s \<noteq> Stuck \<longrightarrow> \<not> list_ex is_untaken k)"
    by (auto simp: reader_frame_def send_await_def try_send_def Let_def
             split: sum.splits timed.splits if_splits)
next
  fix K N f h h'
  assume "reader_frame pid name tx K N f h = (Stuck, h')"
  then show "\<exists>h0 x. h' = h0 @ [SendAwait x Elapsed]"
    by (auto simp: reader_frame_def send_await_def try_send_def Let_def
             split: sum.splits timed.splits if_splits)
next
  fix K N f h m
  assume "sends_succeed N" and "decode_message K f = Inr m"
  then show "\<exists>k. reader_frame pid name tx K N f h = (Continue, h @ k)
      \<and> offers k = reader_out pid name tx K m \<and> accepted k = reader_out pid name tx K m"
    by (auto simp: reader_frame_def reader_out_def send_await_def try_send_def sends_succeed_def
             Let_def split: sum.split)
qed

section \<open>The writer task\<close>

text \<open>
  What the subscription to the broadcast channel yields: an event, or the number of events that
  were missed.
\<close>

datatype bcast = Event chat_event | Lagged nat

definition bcast_message :: "chat_event \<Rightarrow> wire_message option" where
  "bcast_message ev = (case ev of
     Message pid name txt \<Rightarrow> Some (wire_chat name txt)
   | PeerJoin info \<Rightarrow> Some (wire_system (pi_name info @ '' joined''))
   | PeerLeave pid \<Rightarrow> Some (wire_system (display_peer_id pid @ '' left''))
   | _ \<Rightarrow> None)"

text \<open>A pass of the loop: what has arrived on the two channels, and which have no sender left.\<close>

record writer_poll =
  wp_frames :: "bytes list"
  wp_events :: "bcast list"
  wp_tx_gone :: bool
  wp_bcast_gone :: bool

record writer_state =
  ws_rx :: "bytes list"
  ws_bc :: "bcast list"
  ws_log :: log

text \<open>\<open>if timeout(.., write_all(&frame)).await.is_err() { break }\<close>: only the timeout is looked at.\<close>

definition write_unless_late :: "net \<Rightarrow> bytes \<Rightarrow> log \<Rightarrow> bool \<times> log" where
  "write_unless_late N frame h = (case write_all N frame h of
     (Elapsed, h1) \<Rightarrow> (True, h1)
   | (Ready _, h1) \<Rightarrow> (False, h1))"

text \<open>One pass; \<open>True\<close> breaks the loop. The direct channel has priority (\<open>biased\<close>).\<close>

definition writer_step :: "crates \<Rightarrow> net \<Rightarrow> writer_poll \<Rightarrow> writer_state \<Rightarrow> bool \<times> writer_state" where
  "writer_step K N p s0 =
     (let s = s0\<lparr>ws_rx := ws_rx s0 @ wp_frames p, ws_bc := ws_bc s0 @ wp_events p\<rparr> in
      case ws_rx s of
        f # fs \<Rightarrow>
          (case write_unless_late N f (ws_log s) of
             (late, h) \<Rightarrow> (late, s\<lparr>ws_rx := fs, ws_log := h\<rparr>))
      | [] \<Rightarrow>
          if wp_tx_gone p then (True, s)
          else
            (case ws_bc s of
               [] \<Rightarrow> (wp_bcast_gone p, s)
             | Lagged n # bs \<Rightarrow> (False, s\<lparr>ws_bc := bs\<rparr>)
             | Event ev # bs \<Rightarrow>
                 (case bcast_message ev of
                    None \<Rightarrow> (False, s\<lparr>ws_bc := bs\<rparr>)
                  | Some m \<Rightarrow>
                      (case encode_message K m of
                         Inl e \<Rightarrow> (False, s\<lparr>ws_bc := bs\<rparr>)
                       | Inr f \<Rightarrow>
                           (case write_unless_late N f (ws_log s) of
                              (late, h) \<Rightarrow> (late, s\<lparr>ws_bc := bs, ws_log := h\<rparr>))))))"

fun writer_task :: "crates \<Rightarrow> net \<Rightarrow> writer_poll list \<Rightarrow> writer_state \<Rightarrow> bool \<times> writer_state" where
  "writer_task K N [] s = (False, s)"
| "writer_task K N (p # ps) s =
     (case writer_step K N p s of
        (True, s') \<Rightarrow> (True, s')
      | (False, s') \<Rightarrow> writer_task K N ps s')"

section \<open>The life of a connection\<close>

text \<open>\<open>register_peer\<close>: the entry, then the event; two clock readings.\<close>

definition register_peer :: "net \<Rightarrow> nat \<Rightarrow> nat \<Rightarrow> nat \<Rightarrow> peer_id \<Rightarrow> string \<Rightarrow> registry \<Rightarrow> log \<Rightarrow> registry \<times> log"
where
  "register_peer N tx now now' pid name reg h =
     (registry_register pid name tx now reg,
      snd (try_send N (ToBroadcast (PeerJoin \<lparr>pi_id = pid, pi_name = name, pi_joined_at = now'\<rparr>)) h))"

text \<open>\<open>deregister_peer\<close>; it waits for room in the message channel, perhaps for ever (\<open>False\<close>).\<close>

definition deregister_peer :: "net \<Rightarrow> peer_id \<Rightarrow> string \<Rightarrow> registry \<Rightarrow> log \<Rightarrow> bool \<times> registry \<times> log" where
  "deregister_peer N pid name reg h =
     (let reg' = registry_deregister pid reg in
      case send_await N (ToMsg (PeerId ''[system]'') (wire_system (name @ '' left''))) h of
        (Elapsed, h1) \<Rightarrow> (False, reg', h1)
      | (Ready _, h1) \<Rightarrow> (True, reg', snd (try_send N (ToBroadcast (PeerLeave pid)) h1)))"

text \<open>
  \<open>handle_connection\<close>. \<open>others\<close> is what the other tasks do to the registry while this one is in
  the writer; the reader runs beside it and never ends it. \<open>None\<close>: the task is still running.
\<close>

definition handle_connection :: "crates \<Rightarrow> net \<Rightarrow> nat \<Rightarrow> nat \<Rightarrow> nat \<Rightarrow> writer_poll list
    \<Rightarrow> (registry \<Rightarrow> registry) \<Rightarrow> nonce set \<Rightarrow> registry
    \<Rightarrow> (chat_error + unit) option \<times> nonce set \<times> registry \<times> log" where
  "handle_connection K N tx now now' polls others nonces reg =
     (case legacy_handshake K N nonces [] of
        (Elapsed, used, h) \<Rightarrow> (None, used, others reg, h)
      | (Ready (Inl e), used, h) \<Rightarrow> (Some (Inl e), used, others reg, h)
      | (Ready (Inr (pid, name)), used, h) \<Rightarrow>
          (case register_peer N tx now now' pid name reg h of
             (reg1, h1) \<Rightarrow>
               (case writer_task K N polls \<lparr>ws_rx = [], ws_bc = [], ws_log = h1\<rparr> of
                  (False, s) \<Rightarrow> (None, used, others reg1, ws_log s)
                | (True, s) \<Rightarrow>
                    (case deregister_peer N pid name (others reg1) (ws_log s) of
                       (done, reg2, h2) \<Rightarrow> (if done then Some (Inr ()) else None, used, reg2, h2)))))"

section \<open>Lemmas\<close>

type_synonym registration = "string \<times> nat \<times> nat"

text \<open>The registry is a listed table of what was registered.\<close>

definition registered :: "registry \<Rightarrow> peer_id \<Rightarrow> registration option" where
  "registered reg pid = map_option (\<lambda>e. (pe_name e, pe_tx e, pe_joined_at e)) (map_of reg pid)"

definition put_peer :: "peer_id \<Rightarrow> registration \<Rightarrow> registry \<Rightarrow> registry" where
  "put_peer pid r reg = (case r of (name, tx, now) \<Rightarrow> registry_register pid name tx now reg)"

interpretation registry: listed_table put_peer registry_deregister registered
  "\<lambda>reg. map pi_id (registry_snapshot reg)" alist_good
proof
  have ids: "map pi_id (registry_snapshot t) = map fst t" for t
    by (auto simp: registry_snapshot_def)
  fix i v t
  show "registered (put_peer i v t) = (registered t)(i \<mapsto> v)"
    by (auto simp: registered_def put_peer_def registry_register_def update_conv' split: prod.split)
  show "registered (registry_deregister i t) = (registered t)(i := None)"
    by (auto simp: registered_def registry_deregister_def delete_conv')
  show "alist_good t \<Longrightarrow> alist_good (put_peer i v t)"
    using alist.good_ins by (auto simp: put_peer_def registry_register_def split: prod.split)
  show "alist_good t \<Longrightarrow> alist_good (registry_deregister i t)"
    using alist.good_del by (auto simp: registry_deregister_def)
  show "alist_good t \<Longrightarrow> distinct (map pi_id (registry_snapshot t))"
    using alist.ids_distinct unfolding ids .
  show "set (map pi_id (registry_snapshot t)) = dom (registered t)"
    unfolding ids using alist.ids_dom [of t] by (auto simp: registered_def dom_def)
qed

lemma broadcast_to_all_log:
  "\<exists>k. broadcast_to_all N frame reg h = h @ k
     \<and> offers k = map (\<lambda>(pid, e). ToWriter (pe_tx e) frame) reg \<and> read_bytes k = []"
proof (induction reg arbitrary: h)
  case (Cons x reg)
  obtain pid e where x: "x = (pid, e)" by (cases x)
  let ?c = "TrySend (ToWriter (pe_tx e) frame) (n_try_send N h (ToWriter (pe_tx e) frame))"
  obtain k where "broadcast_to_all N frame reg (h @ [?c]) = (h @ [?c]) @ k"
      "offers k = map (\<lambda>(pid, e). ToWriter (pe_tx e) frame) reg" "read_bytes k = []"
    using Cons.IH by blast
  then show ?case
    by (intro exI [of _ "?c # k"]) (simp add: x try_send_def Let_def)
qed simp

text \<open>The frames that a broadcast item gives the writer to write: none or one.\<close>

definition bcast_frames :: "crates \<Rightarrow> bcast \<Rightarrow> bytes list" where
  "bcast_frames K b = (case b of
     Lagged n \<Rightarrow> []
   | Event ev \<Rightarrow> (case bcast_message ev of
       None \<Rightarrow> []
     | Some m \<Rightarrow> (case encode_message K m of Inl e \<Rightarrow> [] | Inr f \<Rightarrow> [f])))"

definition no_flush :: "log \<Rightarrow> bool" where
  "no_flush k \<longleftrightarrow> (\<forall>r. Flush r \<notin> set k)"

lemma no_flush_simps [simp]:
  "no_flush []" "no_flush (a @ b) \<longleftrightarrow> no_flush a \<and> no_flush b" "no_flush [WriteAll bs r]"
  by (auto simp: no_flush_def)

lemma write_unless_late_log:
  "write_unless_late N f h = (late, h') \<Longrightarrow> \<exists>r. h' = h @ [WriteAll f r]"
  by (auto simp: write_unless_late_def write_all_def Let_def split: timed.splits)

lemma writer_step_log:
  assumes "writer_step K N p s = (b, s')"
  shows "\<exists>k ds bs. ws_log s' = ws_log s @ k \<and> no_flush k
     \<and> writes k = ds @ concat (map (bcast_frames K) bs) \<and> (ds = [] \<or> bs = [])
     \<and> length ds \<le> 1 \<and> ws_rx s @ wp_frames p = ds @ ws_rx s' \<and> ws_bc s @ wp_events p = bs @ ws_bc s'"
proof (cases "ws_rx s @ wp_frames p")
  case (Cons f fs)
  with assms show ?thesis
    by (auto simp: writer_step_def Let_def split: prod.splits dest!: write_unless_late_log
             intro!: exI [of _ "[f]"])
next
  case Nil
  show ?thesis
  proof (cases "wp_tx_gone p \<or> ws_bc s @ wp_events p = []")
    case True
    with Nil assms show ?thesis
      by (intro exI [of _ "[]"]) (auto simp: writer_step_def Let_def split: if_splits)
  next
    case False
    then obtain b bs where bs: "ws_bc s @ wp_events p = b # bs" by (cases "ws_bc s @ wp_events p") auto
    have "\<exists>k. ws_log s' = ws_log s @ k \<and> no_flush k \<and> writes k = bcast_frames K b
        \<and> ws_rx s' = [] \<and> ws_bc s' = bs"
      using assms Nil False bs
      by (auto simp: writer_step_def bcast_frames_def Let_def
               split: bcast.splits option.splits sum.splits prod.splits
               dest!: write_unless_late_log)
    with Nil bs show ?thesis by (metis append_Cons append_Nil append_Nil2 bot_nat_0.extremum
      concat.simps list.map list.size(3))
  qed
qed

lemma shuffles_step:
  assumes "w \<in> shuffles a (concat xs)" and "ds = [] \<or> bs = []" and "length ds \<le> 1"
  shows "(ds @ concat bs) @ w \<in> shuffles (ds @ a) (concat (bs @ xs))"
proof (cases "ds = []")
  case True
  have "u @ w \<in> shuffles a (u @ concat xs)" for u
    using assms(1) by (induction u) (auto intro: Cons_in_shuffles_rightI)
  with True show ?thesis by simp
next
  case False
  with assms(3) obtain d where "ds = [d]" by (cases ds) auto
  with assms(1,2) show ?thesis by (auto intro: Cons_in_shuffles_leftI)
qed

lemma writer_task_log:
  "writer_task K N ps s = (b, s') \<Longrightarrow> \<exists>k ds bs dr br. ws_log s' = ws_log s @ k \<and> no_flush k
     \<and> writes k \<in> shuffles ds (concat (map (bcast_frames K) bs))
     \<and> ws_rx s @ concat (map wp_frames ps) = ds @ dr
     \<and> ws_bc s @ concat (map wp_events ps) = bs @ br
     \<and> (\<not> b \<longrightarrow> dr = ws_rx s' \<and> br = ws_bc s')"
proof (induction ps arbitrary: s)
  case Nil
  then have "s' = s" by simp
  show ?case unfolding \<open>s' = s\<close>
    by (rule exI [of _ "[]"], rule exI [of _ "[]"], rule exI [of _ "[]"],
        rule exI [of _ "ws_rx s"], rule exI [of _ "ws_bc s"]) auto
next
  case (Cons p ps)
  obtain b1 s1 where st: "writer_step K N p s = (b1, s1)" by fastforce
  obtain k ds bs where 1: "ws_log s1 = ws_log s @ k" "no_flush k"
      "writes k = ds @ concat (map (bcast_frames K) bs)" "ds = [] \<or> bs = []" "length ds \<le> 1"
      "ws_rx s @ wp_frames p = ds @ ws_rx s1" "ws_bc s @ wp_events p = bs @ ws_bc s1"
    using writer_step_log [OF st] by blast
  have app: "ws_rx s @ concat (map wp_frames (p # ps)) = ds @ ws_rx s1 @ concat (map wp_frames ps)"
      "ws_bc s @ concat (map wp_events (p # ps)) = bs @ ws_bc s1 @ concat (map wp_events ps)"
    using 1(6,7) by (metis append.assoc concat.simps(2) list.map(2))+
  show ?case
  proof (cases b1)
    case True
    with Cons.prems st have "s' = s1" "b" by simp_all
    moreover have "writes k \<in> shuffles ds (concat (map (bcast_frames K) bs))"
      using shuffles_step [of "[]" "[]" "[]" ds "map (bcast_frames K) bs"] 1(3-5) by auto
    ultimately show ?thesis using 1(1,2) app by blast
  next
    case False
    with Cons.prems st have "writer_task K N ps s1 = (b, s')" by simp
    from Cons.IH [OF this] obtain k2 ds2 bs2 dr br where 2: "ws_log s' = ws_log s1 @ k2"
        "no_flush k2" "writes k2 \<in> shuffles ds2 (concat (map (bcast_frames K) bs2))"
        "ws_rx s1 @ concat (map wp_frames ps) = ds2 @ dr"
        "ws_bc s1 @ concat (map wp_events ps) = bs2 @ br"
        "\<not> b \<longrightarrow> dr = ws_rx s' \<and> br = ws_bc s'" by blast
    have "writes (k @ k2) \<in> shuffles (ds @ ds2) (concat (map (bcast_frames K) (bs @ bs2)))"
      using shuffles_step [OF 2(3), of ds "map (bcast_frames K) bs"] 1(3-5) by simp
    moreover have "ws_log s' = ws_log s @ (k @ k2)" "no_flush (k @ k2)"
      using 1(1,2) 2(1,2) by simp_all
    moreover have "ws_rx s @ concat (map wp_frames (p # ps)) = (ds @ ds2) @ dr"
        "ws_bc s @ concat (map wp_events (p # ps)) = (bs @ bs2) @ br"
      using app 2(4,5) by simp_all
    ultimately show ?thesis using 2(6) by blast
  qed
qed

text \<open>Without a lost channel or a late write, the writer never ends.\<close>

definition writer_undisturbed :: "net \<Rightarrow> writer_poll list \<Rightarrow> bool" where
  "writer_undisturbed N ps \<longleftrightarrow> (\<forall>h bs. n_write_all N h bs \<noteq> Elapsed)
     \<and> (\<forall>p \<in> set ps. \<not> wp_tx_gone p \<and> \<not> wp_bcast_gone p)"

lemma writer_runs_on: "writer_undisturbed N ps \<Longrightarrow> \<exists>s'. writer_task K N ps s = (False, s')"
proof (induction ps arbitrary: s)
  case (Cons p ps)
  obtain b s1 where st: "writer_step K N p s = (b, s1)" by fastforce
  have late: "\<not> late" if "write_unless_late N f h = (late, h')" for f h late h'
    using that Cons.prems
    by (auto simp: write_unless_late_def write_all_def writer_undisturbed_def Let_def
             split: timed.splits)
  have "\<not> wp_tx_gone p" "\<not> wp_bcast_gone p"
    using Cons.prems by (auto simp: writer_undisturbed_def)
  with st have "\<not> b"
    by (auto simp: writer_step_def Let_def split: list.splits bcast.splits option.splits
      sum.splits prod.splits dest!: late)
  moreover have "writer_undisturbed N ps" using Cons.prems by (simp add: writer_undisturbed_def)
  ultimately show ?case using Cons.IH [of s1] st by simp
qed simp

text \<open>\<open>run\<close> is the accept loop without a shutdown branch.\<close>

interpretation hub_source: stream_source hosted_accept_peer "\<lambda>r. r" hosted_feed hosted_pending
  "\<lambda>r. hr_stream_rx r \<noteq> None"
  using hosted.feed_pending hosted.accept_next hosted.accept_wait hosted.accept_end
  by unfold_locales

lemma hub_run_loop_accepts:
  "hub_run_loop ps hub = (ss, d, hub') \<Longrightarrow>
   \<exists>room. accept_loop hosted_accept_peer (\<lambda>r. r) hosted_feed (map (\<lambda>a. (a, False)) ps) (hub_room hub)
       = (ss, d, room) \<and> hub' = hub\<lparr>hub_room := room\<rparr>"
proof (induction ps arbitrary: hub ss)
  case (Cons p ps)
  obtain x room where x: "hosted_accept_peer (hosted_feed p (hub_room hub)) = (x, room)" by fastforce
  show ?case
  proof (cases "x = Ready None")
    case True
    with Cons.prems x show ?thesis by (simp add: accept_next_def)
  next
    case False
    obtain ss1 where l: "hub_run_loop ps (hub\<lparr>hub_room := room\<rparr>) = (ss1, d, hub')"
      using Cons.prems x False
      by (cases x) (auto simp: accept_next_def split: option.splits prod.splits)
    from Cons.IH [OF this] Cons.prems x False l show ?thesis
      by (cases x) (auto simp: accept_next_def split: option.splits)
  qed
qed simp

section \<open>Properties\<close>

text \<open>
  C38. The registry is a faithful table: after any sequence of registrations and removals from the
  empty registry, \<open>snapshot\<close> lists exactly the peers whose last operation was a registration, each
  once and with the name and the time of that registration; \<open>len\<close> counts them; and a broadcast
  sends the frame exactly once to the channel of that registration of each of them, and to no other
  channel.
\<close>

theorem registry_tracks_peers:
  "let reg = run_table put_peer registry_deregister ops registry_new in
     distinct (map pi_id (registry_snapshot reg))
   \<and> set (registry_snapshot reg) = {\<lparr>pi_id = pid, pi_name = name, pi_joined_at = now\<rparr> | pid name tx now.
       last_op pid ops = Some (Some (name, tx, now))}
   \<and> registry_len reg = card {pid. \<exists>r. last_op pid ops = Some (Some r)}
   \<and> (\<exists>k sent. broadcast_to_all N frame reg h = h @ k
        \<and> offers k = map (\<lambda>(pid, tx). ToWriter tx frame) sent \<and> distinct (map fst sent)
        \<and> set sent = {(pid, tx). \<exists>name now. last_op pid ops = Some (Some (name, tx, now))})"
proof -
  let ?reg = "run_table put_peer registry_deregister ops registry_new"
  have good: "alist_good ?reg" by (rule registry.run_good) (simp add: registry_new_def)
  have dist: "distinct (map fst ?reg)" using good by (rule alist.ids_distinct)
  have len: "registry_len ?reg = length (map pi_id (registry_snapshot ?reg))"
    by (simp add: registry_len_def registry_snapshot_def)
  have look: "registered ?reg pid = (case last_op pid ops of None \<Rightarrow> None | Some r \<Rightarrow> r)" for pid
  proof -
    have "registered registry_new pid = None" by (simp add: registered_def registry_new_def)
    then show ?thesis by (simp add: registry.run_look split: option.split)
  qed
  have last: "last_op pid ops = Some (Some (name, tx, now)) \<longleftrightarrow>
      (pid, \<lparr>pe_name = name, pe_joined_at = now, pe_tx = tx\<rparr>) \<in> set ?reg" for pid name tx now
  proof -
    have "map_of ?reg pid = Some e \<longleftrightarrow> last_op pid ops = Some (Some (pe_name e, pe_tx e, pe_joined_at e))" for e
      using look [of pid] by (cases e) (auto simp: registered_def split: option.splits; metis peer_entry.cases peer_entry.select_convs)
    then show ?thesis by (simp flip: map_of_eq_Some_iff [OF dist])
  qed
  have dom: "dom (registered ?reg) = {pid. \<exists>r. last_op pid ops = Some (Some r)}"
    using look by (auto simp: domIff split: option.splits)
  have "distinct (map pi_id (registry_snapshot ?reg))"
    using good by (rule registry.ids_distinct)
  moreover have "set (registry_snapshot ?reg) = {\<lparr>pi_id = pid, pi_name = name, pi_joined_at = now\<rparr> | pid name tx now.
       last_op pid ops = Some (Some (name, tx, now))}"
  proof (intro set_eqI iffI)
    fix i assume "i \<in> set (registry_snapshot ?reg)"
    then obtain pid e where "(pid, e) \<in> set ?reg"
        "i = \<lparr>pi_id = pid, pi_name = pe_name e, pi_joined_at = pe_joined_at e\<rparr>"
      by (auto simp: registry_snapshot_def)
    then show "i \<in> {\<lparr>pi_id = pid, pi_name = name, pi_joined_at = now\<rparr> | pid name tx now.
       last_op pid ops = Some (Some (name, tx, now))}"
      unfolding last by (cases e) auto
  next
    fix i assume "i \<in> {\<lparr>pi_id = pid, pi_name = name, pi_joined_at = now\<rparr> | pid name tx now.
       last_op pid ops = Some (Some (name, tx, now))}"
    then show "i \<in> set (registry_snapshot ?reg)"
      unfolding last registry_snapshot_def by force
  qed
  moreover have "registry_len ?reg = card {pid. \<exists>r. last_op pid ops = Some (Some r)}"
    unfolding len dom [symmetric] by (rule registry.ids_count [OF good])
  moreover obtain k where k: "broadcast_to_all N frame ?reg h = h @ k"
      "offers k = map (\<lambda>(pid, e). ToWriter (pe_tx e) frame) ?reg"
    using broadcast_to_all_log by blast
  let ?sent = "map (\<lambda>(pid, e). (pid, pe_tx e)) ?reg"
  have "offers k = map (\<lambda>(pid, tx). ToWriter tx frame) ?sent"
    unfolding k(2) by (simp add: split_beta)
  moreover have "map fst ?sent = map fst ?reg" by (simp add: split_beta)
  with dist have "distinct (map fst ?sent)" by metis
  moreover have "set ?sent = {(pid, tx). \<exists>name now. last_op pid ops = Some (Some (name, tx, now))}"
  proof (intro set_eqI iffI)
    fix x assume "x \<in> set ?sent"
    then obtain pid e where "(pid, e) \<in> set ?reg" "x = (pid, pe_tx e)" by auto
    then show "x \<in> {(pid, tx). \<exists>name now. last_op pid ops = Some (Some (name, tx, now))}"
      unfolding last by (cases e) auto
  next
    fix x assume "x \<in> {(pid, tx). \<exists>name now. last_op pid ops = Some (Some (name, tx, now))}"
    then show "x \<in> set ?sent" unfolding last by force
  qed
  ultimately show ?thesis using k(1) unfolding Let_def by blast
qed

text \<open>
  What the hub makes of the messages of a peer, in order and completely when the channels
  take everything: a ping is answered by a pong on the channel of that peer and goes no further,
  any other message goes to the main loop, and a chat message is also broadcast, under the name
  that the hub gave the peer and not the one in the message.
\<close>

theorem hub_reader_delivers:
  assumes "json_ok K" and "sends_succeed N"
    and "list_all2 (\<lambda>m f. wf_wire m \<and> encode_message K m = Inr f) ms fs"
    and "feeds N (concat fs)" and "length ms < fuel"
    and pong: "encode_message K wire_pong = Inr pong"
  shows "\<exists>h. reader_task pid name tx K N fuel [] = Some (Ended, h)
    \<and> accepted h = concat (map (\<lambda>m. case wm_kind m of
        Ping \<Rightarrow> [ToWriter tx pong]
      | Chat \<Rightarrow> [ToMsg pid m, ToBroadcast (Message pid name (wm_text m))]
      | _ \<Rightarrow> [ToMsg pid m]) ms)"
proof -
  have "reader_out pid name tx K = (\<lambda>m. case wm_kind m of
        Ping \<Rightarrow> [ToWriter tx pong]
      | Chat \<Rightarrow> [ToMsg pid m, ToBroadcast (Message pid name (wm_text m))]
      | _ \<Rightarrow> [ToMsg pid m])"
    by (rule ext) (simp add: reader_out_def hub_peer_event_def pong split: message_type.split)
  with hub_reader.loop_delivers [OF assms(1-5), of Ended pid name tx] show ?thesis
    by (auto simp: reader_task_def)
qed

lemma sample_frames:
  "encode_message sample_crates wire_pong = Inr (frame_of (sample_json wire_pong))"
  "encode_message sample_crates wire_ping = Inr (frame_of (sample_json wire_ping))"
  by (rule sample_encode, code_simp)+

theorem hub_reader_delivers_witness:
  "\<exists>h. reader_task (PeerId ''p'') ''peer-1'' 5 sample_crates
       (mem_net (frame_of (sample_json wire_ping) @ frame_of (sample_json (wire_chat ''bob'' ''hi''))))
       3 [] = Some (Ended, h)
     \<and> accepted h = [ToWriter 5 (frame_of (sample_json wire_pong)),
          ToMsg (PeerId ''p'') (wire_chat ''bob'' ''hi''),
          ToBroadcast (Message (PeerId ''p'') ''peer-1'' ''hi'')]"
proof -
  have "list_all2 (\<lambda>m f. wf_wire m \<and> encode_message sample_crates m = Inr f)
     [wire_ping, wire_chat ''bob'' ''hi'']
     [frame_of (sample_json wire_ping), frame_of (sample_json (wire_chat ''bob'' ''hi''))]"
    by (simp add: ascii_is_utf8 sample_encode sample_length_small sample_frames)
  from hub_reader_delivers [OF _ _ this _ _ sample_frames(1), of "mem_net (frame_of (sample_json
      wire_ping) @ frame_of (sample_json (wire_chat ''bob'' ''hi'')))" 3 "PeerId ''p''" "''peer-1''" 5]
  show ?thesis by simp
qed

text \<open>
  What a peer's writer writes is an interleaving of the frames sent to it directly and of
  the frames of the broadcast events, each sequence in order and without a gap, for any
  scheduling and any network, and it never flushes the stream.
\<close>

theorem writer_interleaves:
  assumes "writer_task K N ps \<lparr>ws_rx = [], ws_bc = [], ws_log = h\<rparr> = (b, s')"
  shows "\<exists>k ds bs dr br. ws_log s' = h @ k
     \<and> writes k \<in> shuffles ds (concat (map (bcast_frames K) bs))
     \<and> concat (map wp_frames ps) = ds @ dr \<and> concat (map wp_events ps) = bs @ br
     \<and> (\<not> b \<longrightarrow> dr = ws_rx s' \<and> br = ws_bc s') \<and> (\<forall>r. Flush r \<notin> set k)"
  using writer_task_log [OF assms] unfolding no_flush_def writer_state.simps append_Nil by blast

definition demo_writer_poll :: "bytes list \<Rightarrow> bcast list \<Rightarrow> writer_poll" where
  "demo_writer_poll fs es = \<lparr>wp_frames = fs, wp_events = es, wp_tx_gone = False,
     wp_bcast_gone = False\<rparr>"

theorem writer_interleaves_witness:
  "\<exists>b s' ds bs. writer_task sample_crates (mem_net [])
       [demo_writer_poll [[1]] [Event RoomClosed], demo_writer_poll [[2]] [Lagged 3]]
       \<lparr>ws_rx = [], ws_bc = [], ws_log = []\<rparr> = (b, s')
     \<and> writes (ws_log s') \<in> shuffles ds (concat (map (bcast_frames sample_crates) bs))
     \<and> [[1], [2]] = ds @ ws_rx s' \<and> [Event RoomClosed, Lagged 3] = bs @ ws_bc s'"
proof -
  let ?ps = "[demo_writer_poll [[1]] [Event RoomClosed], demo_writer_poll [[2]] [Lagged 3]]"
  obtain s' where w: "writer_task sample_crates (mem_net []) ?ps
      \<lparr>ws_rx = [], ws_bc = [], ws_log = []\<rparr> = (False, s')"
    using writer_runs_on [of "mem_net []" ?ps sample_crates]
    by (auto simp: writer_undisturbed_def demo_writer_poll_def mem_net_def)
  obtain k ds bs dr br where "ws_log s' = [] @ k"
      "writes k \<in> shuffles ds (concat (map (bcast_frames sample_crates) bs))"
      "concat (map wp_frames ?ps) = ds @ dr" "concat (map wp_events ?ps) = bs @ br"
      "dr = ws_rx s' \<and> br = ws_bc s'"
    using writer_interleaves [OF w] by blast
  with w show ?thesis
    by (intro exI [of _ False] exI [of _ s'] exI [of _ ds] exI [of _ bs])
       (simp add: demo_writer_poll_def)
qed

text \<open>
  A peer of this hub is never removed while its writer is undisturbed: as the registry holds
  a sender of the writer's channel and the hub one of the broadcast channel, neither channel
  closes; then, however long the connection has been handled and whatever became of its reader,
  the task is still in the writer and the registry still holds the peer.
\<close>

theorem undisturbed_peer_stays:
  assumes "legacy_handshake K N nonces [] = (Ready (Inr (pid, name)), used, h)"
    and "writer_undisturbed N polls"
    and "\<And>reg. registered (others reg) pid = registered reg pid"
  shows "\<exists>reg' h'. handle_connection K N tx now now' polls others nonces reg = (None, used, reg', h')
    \<and> registered reg' pid = Some (name, tx, now)"
proof -
  obtain reg1 h1 where r: "register_peer N tx now now' pid name reg h = (reg1, h1)" by fastforce
  obtain s' where "writer_task K N polls \<lparr>ws_rx = [], ws_bc = [], ws_log = h1\<rparr> = (False, s')"
    using writer_runs_on [OF assms(2)] by blast
  with assms(1) r have "handle_connection K N tx now now' polls others nonces reg
      = (None, used, others reg1, ws_log s')"
    by (simp add: handle_connection_def)
  moreover have "registered reg1 pid = Some (name, tx, now)"
    using r registry.look_ins [of pid "(name, tx, now)" reg]
    by (auto simp: register_peer_def put_peer_def)
  ultimately show ?thesis using assms(3) by auto
qed

lemma demo_legacy:
  "\<exists>pid name used h. legacy_handshake sample_crates (mem_net (demo_nonce @ demo_disc)) {} []
     = (Ready (Inr (pid, name)), used, h)"
proof -
  have "\<exists>h. read_hello (mem_net (demo_nonce @ demo_disc)) [] []
      = (Hello (demo_nonce @ demo_disc), h)"
    by (simp add: read_hello.simps [of _ "[]"] read_hello.simps [of _ "demo_nonce @ demo_disc"]
      read_some_def mem_net_def HANDSHAKE_LEN_def Let_def)
       (simp add: demo_nonce_def)
  then show ?thesis
    by (auto simp: legacy_handshake_def Let_def claim_nonce_def send_ack_def write_flush_succeeds)
qed

theorem undisturbed_peer_stays_witness:
  "\<exists>pid name used reg' h'. handle_connection sample_crates (mem_net (demo_nonce @ demo_disc)) 0 1 2
       [demo_writer_poll [[1]] []] id {} registry_new = (None, used, reg', h')
    \<and> registered reg' pid = Some (name, 0, 1)"
proof -
  obtain pid name used h where
    l: "legacy_handshake sample_crates (mem_net (demo_nonce @ demo_disc)) {} []
      = (Ready (Inr (pid, name)), used, h)" using demo_legacy by blast
  have w: "writer_undisturbed (mem_net (demo_nonce @ demo_disc)) [demo_writer_poll [[1]] []]"
    by (simp add: writer_undisturbed_def demo_writer_poll_def mem_net_def)
  have "\<And>reg. registered (id reg) pid = registered reg pid" by simp
  from undisturbed_peer_stays [OF l w this, of 0 1 2 registry_new] show ?thesis by blast
qed

text \<open>
  \<open>run\<close> hands every stream of the onion service to a handler, in order of arrival, and when
  it has returned the hub yields no event any more: \<open>next_event\<close> answers \<open>None\<close> even when messages
  of peers are waiting.
\<close>

theorem hub_run_serves:
  assumes "hr_stream_rx (hub_room hub) \<noteq> None" and "hub_run ps hub = (ss, returned, hub')"
  shows "(\<exists>rest. hosted_pending (hub_room hub) @ concat ps = ss @ rest
      \<and> (\<not> returned \<longrightarrow> rest = hosted_pending (hub_room hub') \<and> hub_running hub'))
    \<and> (returned \<longrightarrow> next_event hub' = (Ready None, hub'))"
proof -
  let ?hub = "hub\<lparr>hub_running := True\<rparr>"
  obtain hub1 where l: "hub_run_loop ps ?hub = (ss, returned, hub1)"
      and hub': "hub' = (if returned then hub1\<lparr>hub_running := False\<rparr> else hub1)"
    using assms(2) by (auto simp: hub_run_def split: prod.splits)
  obtain room where room: "accept_loop hosted_accept_peer (\<lambda>r. r) hosted_feed
      (map (\<lambda>a. (a, False)) ps) (hub_room ?hub) = (ss, returned, room)"
      and hub1: "hub1 = ?hub\<lparr>hub_room := room\<rparr>"
    using hub_run_loop_accepts [OF l] by blast
  have c: "concat (map fst (map (\<lambda>a. (a, False)) ps)) = concat ps" by (simp add: comp_def)
  from hub_source.serves_in_order [OF _ room] assms(1) hub' hub1
  show ?thesis unfolding c by (auto simp: next_event_def)
qed

theorem hub_run_serves_witness:
  "\<exists>room n returned hub'. hosted_room_new sample_onion 0 80 = (Inr room, n)
    \<and> hub_run [[7 :: nat, 8], []] (hub_new room) = ([7, 8], returned, hub')
    \<and> \<not> returned \<and> hosted_pending (hub_room hub') = [] \<and> hub_running hub'"
proof -
  obtain room :: "nat hosted_room" and n where r: "hosted_room_new sample_onion 0 80 = (Inr room, n)"
      "hr_stream_rx room = Some \<lparr>rx_queue = [], rx_open = True\<rparr>"
    by (simp add: hosted_room_new_def sample_onion_def)
  have "\<exists>hub'. hub_run [[7, 8], []] (hub_new room) = ([7, 8], False, hub')"
    using r(2) by (simp add: hub_run_def hub_new_def accept_next_def hosted_accept_peer_def
      hosted_feed_def rx_recv_def rx_feed_def)
  then obtain hub' where l: "hub_run [[7, 8], []] (hub_new room) = ([7, 8], False, hub')" by blast
  have "hr_stream_rx (hub_room (hub_new room)) \<noteq> None" using r(2) by (simp add: hub_new_def)
  from hub_run_serves [OF this l] r l show ?thesis by (auto simp: hub_new_def hosted_pending_def)
qed

end
