(* ===== verification/Bootstrap.thy ===== *)
theory Bootstrap
  imports Async_IO
begin

text \<open>
  The Tor client's life cycle, \<open>crates/core/src/bootstrap.rs\<close>: the wrapper \<open>TorBootstrap\<close>, its
  directories, the task that forwards progress events, and \<open>bootstrap_with_shutdown\<close>, which every
  room runs first. What arti and the file system answer is the record \<open>boot_env\<close>; a percentage of
  progress is given as the \<open>u8\<close> that the code computes from arti's fraction.
\<close>

section \<open>Directories\<close>

text \<open>\<open>Path::join\<close> with a relative name.\<close>

definition path_join :: "string \<Rightarrow> string \<Rightarrow> string" where
  "path_join root name = (if root = [] \<or> ends_with root ''/'' then root @ name else root @ ''/'' @ name)"

text \<open>
  \<open>lock_dir_perms\<close>: the \<open>chmod\<close> calls it makes (their results are ignored), from the entries of
  the directory and whether each is a directory; \<open>None\<close> is a directory that cannot be read.
\<close>

definition lock_dir_perms :: "(string \<times> bool) list option \<Rightarrow> string \<Rightarrow> (string \<times> nat) list" where
  "lock_dir_perms entries root =
     (case entries of None \<Rightarrow> [] | Some es \<Rightarrow> map (\<lambda>(path, _). (path, 448)) (filter snd es))
     @ [(root, 448)]"

record 'c boot_env =
  be_state_dir :: "string option"                       \<comment> \<open>\<open>EPHEMERAL_CHAT_STATE_DIR\<close>\<close>
  be_temp_dir :: "string + string"
  be_create_dir :: "string \<Rightarrow> string + unit"
  be_read_dir :: "string \<Rightarrow> (string \<times> bool) list option"
  be_build :: "string \<Rightarrow> string \<Rightarrow> string + unit"          \<comment> \<open>\<open>from_directories(..).build()\<close>\<close>
  be_create_client :: "string \<Rightarrow> string + 'c"             \<comment> \<open>\<open>create_unbootstrapped_async\<close>\<close>

text \<open>\<open>build_config\<close>, with the \<open>chmod\<close> calls that it makes.\<close>

definition build_config :: "'c boot_env \<Rightarrow> string \<Rightarrow> (chat_error + unit) \<times> (string \<times> nat) list" where
  "build_config E root =
     (let state_dir = path_join root ''state''; cache_dir = path_join root ''cache'' in
      case be_create_dir E state_dir of
        Inl e \<Rightarrow> (Inl (Connection (''create state dir: '' @ e)), [])
      | Inr _ \<Rightarrow>
          (case be_create_dir E cache_dir of
             Inl e \<Rightarrow> (Inl (Connection (''create cache dir: '' @ e)), [])
           | Inr _ \<Rightarrow>
               (map_err (\<lambda>e. Connection (''config build failed: '' @ e)) (be_build E state_dir cache_dir),
                lock_dir_perms (be_read_dir E root) root)))"

section \<open>The wrapper\<close>

record 'c tor_bootstrap =
  tb_client :: "'c option"
  tb_bootstrapped :: bool
  tb_temp_dir :: "string option"

definition bootstrap_new :: "'c tor_bootstrap" where
  "bootstrap_new = \<lparr>tb_client = None, tb_bootstrapped = False, tb_temp_dir = None\<rparr>"

definition bootstrap_start :: "'c boot_env \<Rightarrow> 'c tor_bootstrap \<Rightarrow> (chat_error + unit) \<times> 'c tor_bootstrap"
where
  "bootstrap_start E b =
     (if tb_bootstrapped b then (Inl (Connection ''already bootstrapped''), b)
      else
        (case (case be_state_dir E of
                 Some dir \<Rightarrow> Inr (dir, None)
               | None \<Rightarrow>
                   (case be_temp_dir E of
                      Inl e \<Rightarrow> Inl (Connection (''create temp dir: '' @ e))
                    | Inr t \<Rightarrow> Inr (t, Some t))) of
           Inl e \<Rightarrow> (Inl e, b)
         | Inr (root, temp) \<Rightarrow>
             (case fst (build_config E root) of
                Inl e \<Rightarrow> (Inl e, b)
              | Inr _ \<Rightarrow>
                  (let b1 = b\<lparr>tb_temp_dir := temp\<rparr> in
                   case be_create_client E root of
                     Inl e \<Rightarrow> (Inl (Connection (''create client failed: '' @ e)), b1)
                   | Inr c \<Rightarrow> (Inr (), b1\<lparr>tb_client := Some c, tb_bootstrapped := True\<rparr>)))))"

definition bootstrap_client :: "'c tor_bootstrap \<Rightarrow> chat_error + 'c" where
  "bootstrap_client b = (case tb_client b of
     None \<Rightarrow> Inl (Connection ''client not bootstrapped'') | Some c \<Rightarrow> Inr c)"

definition bootstrap_shutdown :: "'c tor_bootstrap \<Rightarrow> 'c tor_bootstrap" where
  "bootstrap_shutdown b = b\<lparr>tb_client := None, tb_bootstrapped := False, tb_temp_dir := None\<rparr>"

definition is_bootstrapped :: "'c tor_bootstrap \<Rightarrow> bool" where
  "is_bootstrapped b = tb_bootstrapped b"

section \<open>The forwarding task\<close>

text \<open>
  A pass of its loop: the bootstrap has completed, a status event has come, or the stream of
  status events has ended (which the code passes over). \<open>True\<close>: the task has ended.
\<close>

datatype boot_poll = Done "string + unit" | Status u8 | NoStatus

fun forward_loop :: "net \<Rightarrow> boot_poll list \<Rightarrow> log \<Rightarrow> bool \<times> log" where
  "forward_loop N [] h = (False, h)"
| "forward_loop N (Done (Inr _) # ps) h =
     (case send_await N (ToProgress (BootstrapProgress 100)) h of
        (Elapsed, h1) \<Rightarrow> (False, h1) | (Ready _, h1) \<Rightarrow> (True, h1))"
| "forward_loop N (Done (Inl e) # ps) h =
     (case send_await N (ToProgress (ErrorEvent (Connection (''bootstrap failed: '' @ e)))) h of
        (Elapsed, h1) \<Rightarrow> (False, h1) | (Ready _, h1) \<Rightarrow> (True, h1))"
| "forward_loop N (NoStatus # ps) h = forward_loop N ps h"
| "forward_loop N (Status pct # ps) h =
     (case send_await N (ToProgress (BootstrapProgress pct)) h of
        (Elapsed, h1) \<Rightarrow> (False, h1)
      | (Ready False, h1) \<Rightarrow> (True, h1)
      | (Ready True, h1) \<Rightarrow> forward_loop N ps h1)"

definition forward_task :: "net \<Rightarrow> boot_poll list \<Rightarrow> log \<Rightarrow> bool \<times> log" where
  "forward_task N ps h =
     (case send_await N (ToProgress (BootstrapProgress 0)) h of
        (Elapsed, h1) \<Rightarrow> (False, h1)
      | (Ready False, h1) \<Rightarrow> (True, h1)
      | (Ready True, h1) \<Rightarrow> forward_loop N ps h1)"

section \<open>Bootstrapping a room\<close>

text \<open>
  A pass of the loop of \<open>bootstrap_with_shutdown\<close>: what has come in on the progress stream,
  whether it has ended, and whether shutdown is signalled (looked at first).
\<close>

record progress_poll =
  pp_arrivals :: "chat_event list"
  pp_ended :: bool
  pp_shutdown :: bool

text \<open>The result is \<open>None\<close> while the loop runs; otherwise what the function returns.\<close>

fun progress_loop :: "net \<Rightarrow> 'c tor_bootstrap \<Rightarrow> progress_poll list \<Rightarrow> chat_event list \<Rightarrow> bool \<Rightarrow> log
    \<Rightarrow> 'c tor_bootstrap option option \<times> log" where
  "progress_loop N b [] q ok h = (None, h)"
| "progress_loop N b (p # ps) q ok h =
     (if pp_shutdown p then (Some None, h)
      else
        (case q @ pp_arrivals p of
           e # es \<Rightarrow>
             (let ok' = (ok \<or> e = BootstrapProgress 100) in
              case send_await N (ToEvents e) h of
                (Elapsed, h1) \<Rightarrow> (None, h1)
              | (Ready False, h1) \<Rightarrow> (Some None, h1)
              | (Ready True, h1) \<Rightarrow> progress_loop N b ps es ok' h1)
         | [] \<Rightarrow>
             if pp_ended p then (Some (if ok then Some b else None), h)
             else progress_loop N b ps [] ok h))"

definition bootstrap_with_shutdown :: "'c boot_env \<Rightarrow> net \<Rightarrow> progress_poll list \<Rightarrow> log
    \<Rightarrow> 'c tor_bootstrap option option \<times> log" where
  "bootstrap_with_shutdown E N ps h =
     (case bootstrap_start E bootstrap_new of
        (Inl e, b) \<Rightarrow>
          (case send_await N (ToEvents (ErrorEvent e)) h of
             (Elapsed, h1) \<Rightarrow> (None, h1) | (Ready _, h1) \<Rightarrow> (Some None, h1))
      | (Inr _, b) \<Rightarrow> progress_loop N b ps [] False h)"

section \<open>Lemmas\<close>

lemma bootstrap_start_ok:
  "bootstrap_start E b = (Inr (), b') \<Longrightarrow> is_bootstrapped b' \<and> (\<exists>c. bootstrap_client b' = Inr c)"
  by (auto simp: bootstrap_start_def is_bootstrapped_def bootstrap_client_def Let_def
           split: if_splits option.splits sum.splits)

text \<open>
  The events forwarded to the room, and how they decide the result; \<open>calm\<close> says that nobody asks
  for a shutdown.
\<close>

definition forwarded :: "net \<Rightarrow> 'c tor_bootstrap \<Rightarrow> bool \<Rightarrow> bool \<Rightarrow> chat_event list
    \<Rightarrow> 'c tor_bootstrap option option \<Rightarrow> log \<Rightarrow> chat_event list \<Rightarrow> bool" where
  "forwarded N b calm ok arrived r k es \<longleftrightarrow> (\<exists>rest. arrived = es @ rest) \<and> offers k = map ToEvents es
     \<and> (\<forall>b'. r = Some (Some b') \<longrightarrow> b' = b \<and> accepted k = map ToEvents es
          \<and> (ok \<or> BootstrapProgress 100 \<in> set es))
     \<and> (r = Some None \<and> sends_succeed N \<and> calm \<longrightarrow> \<not> ok \<and> BootstrapProgress 100 \<notin> set es)"

lemma forwarded_nothing:
  "(\<forall>b'. r = Some (Some b') \<longrightarrow> b' = b \<and> ok) \<Longrightarrow> (r = Some None \<and> calm \<longrightarrow> \<not> ok) \<Longrightarrow>
   forwarded N b calm ok arrived r [] []"
  by (simp add: forwarded_def)

lemma forwarded_next:
  "forwarded N b calm (ok \<or> e = BootstrapProgress 100) arrived r k es \<Longrightarrow>
   forwarded N b calm ok (e # arrived) r (SendAwait (ToEvents e) (Ready True) # k) (e # es)"
  by (auto simp: forwarded_def)

lemma progress_loop_forwards:
  "progress_loop N b ps q ok h = (r, h') \<Longrightarrow> \<exists>k es. h' = h @ k
     \<and> forwarded N b (\<forall>p \<in> set ps. \<not> pp_shutdown p) ok (q @ concat (map pp_arrivals ps)) r k es"
proof (induction ps arbitrary: q ok h)
  case Nil
  then show ?case by (auto intro!: exI [of _ "[]"] forwarded_nothing)
next
  case (Cons p ps)
  have q: "q @ concat (map pp_arrivals (p # ps)) = (q @ pp_arrivals p) @ concat (map pp_arrivals ps)"
    by simp
  show ?case
  proof (cases "pp_shutdown p \<or> (q @ pp_arrivals p = [] \<and> pp_ended p)")
    case True
    with Cons.prems show ?thesis
      by (intro exI [of _ "[]"] conjI forwarded_nothing) (auto split: if_splits)
  next
    case go: False
    show ?thesis
    proof (cases "q @ pp_arrivals p")
      case Nil
      with Cons.prems go have "progress_loop N b ps [] ok h = (r, h')" by auto
      from Cons.IH [OF this] go show ?thesis unfolding q Nil by auto
    next
      case (Cons e es)
      obtain x where x: "n_send N h (ToEvents e) = x" by simp
      show ?thesis
      proof (cases "x = Ready True")
        case True
        with Cons.prems go Cons x have "progress_loop N b ps es (ok \<or> e = BootstrapProgress 100)
            (h @ [SendAwait (ToEvents e) (Ready True)]) = (r, h')" by (simp add: send_await_def Let_def)
        from Cons.IH [OF this] forwarded_next go show ?thesis unfolding q Cons by fastforce
      next
        case False
        with Cons.prems go Cons x have "h' = h @ [SendAwait (ToEvents e) x]" "r \<noteq> Some (Some b')"
            "\<not> sends_succeed N" for b'
          by (auto simp: send_await_def sends_succeed_def Let_def split: timed.splits bool.splits)
        then show ?thesis unfolding q Cons
          by (intro exI [of _ "[SendAwait (ToEvents e) x]"] exI [of _ "[e]"]) (auto simp: forwarded_def)
      qed
    qed
  qed
qed

lemma progress_loop_log:
  assumes "progress_loop N b ps q ok h = (r, h')"
  shows "\<exists>k es rest. h' = h @ k \<and> q @ concat (map pp_arrivals ps) = es @ rest
     \<and> offers k = map ToEvents es
     \<and> (\<forall>b'. r = Some (Some b') \<longrightarrow> b' = b \<and> accepted k = map ToEvents es
          \<and> (ok \<or> BootstrapProgress 100 \<in> set es))
     \<and> (r = Some None \<and> sends_succeed N \<and> (\<forall>p \<in> set ps. \<not> pp_shutdown p) \<longrightarrow>
          \<not> ok \<and> BootstrapProgress 100 \<notin> set es)"
  using progress_loop_forwards [OF assms] unfolding forwarded_def by blast

text \<open>A stream that yields its events at once and ends.\<close>

definition burst :: "chat_event list \<Rightarrow> progress_poll list" where
  "burst es = \<lparr>pp_arrivals = es, pp_ended = True, pp_shutdown = False\<rparr>
     # replicate (length es) \<lparr>pp_arrivals = [], pp_ended = True, pp_shutdown = False\<rparr>"

lemma progress_loop_queue:
  "sends_succeed N \<Longrightarrow> \<exists>k. progress_loop N b
     (replicate (Suc (length q)) \<lparr>pp_arrivals = [], pp_ended = True, pp_shutdown = False\<rparr>) q ok h
     = (Some (if ok \<or> BootstrapProgress 100 \<in> set q then Some b else None), h @ k)
     \<and> accepted k = map ToEvents q"
proof (induction q arbitrary: ok h)
  case (Cons e es)
  let ?h1 = "h @ [SendAwait (ToEvents e) (Ready True)]"
  from Cons.IH [OF Cons.prems, of "ok \<or> e = BootstrapProgress 100" ?h1] obtain k where
    "progress_loop N b
       (replicate (Suc (length es)) \<lparr>pp_arrivals = [], pp_ended = True, pp_shutdown = False\<rparr>) es
       (ok \<or> e = BootstrapProgress 100) ?h1
     = (Some (if (ok \<or> e = BootstrapProgress 100) \<or> BootstrapProgress 100 \<in> set es then Some b
          else None), ?h1 @ k)" "accepted k = map ToEvents es" by blast
  then show ?case
    by (intro exI [of _ "SendAwait (ToEvents e) (Ready True) # k"])
       (use Cons.prems in \<open>auto simp: send_await_def sends_succeed_def Let_def\<close>)
qed simp

lemma progress_loop_burst:
  assumes "sends_succeed N"
  shows "\<exists>k. progress_loop N b (burst es) [] False h
     = (Some (if BootstrapProgress 100 \<in> set es then Some b else None), h @ k)
     \<and> accepted k = map ToEvents es"
proof -
  have "progress_loop N b (burst es) [] False h = progress_loop N b
     (replicate (Suc (length es)) \<lparr>pp_arrivals = [], pp_ended = True, pp_shutdown = False\<rparr>) es False h"
    by (simp add: burst_def)
  with progress_loop_queue [OF assms, of b es False h] show ?thesis by simp
qed

section \<open>Properties\<close>

text \<open>
  C37. A room starts only on a complete bootstrap: \<open>bootstrap_with_shutdown\<close> returns a client only
  when the client exists, is marked bootstrapped, and the room's event stream has taken a progress
  event of 100; and without a shutdown or a closed channel it returns nothing only when the
  start failed or no such event came.
\<close>

theorem bootstrap_result:
  assumes "bootstrap_with_shutdown E N ps [] = (Some res, h)"
  shows "(\<forall>b. res = Some b \<longrightarrow> is_bootstrapped b \<and> (\<exists>c. bootstrap_client b = Inr c)
      \<and> ToEvents (BootstrapProgress 100) \<in> set (accepted h))
    \<and> (res = None \<and> sends_succeed N \<and> (\<forall>p \<in> set ps. \<not> pp_shutdown p) \<longrightarrow>
         (\<exists>e. fst (bootstrap_start E bootstrap_new) = Inl e)
         \<or> ToEvents (BootstrapProgress 100) \<notin> set (offers h))"
proof (cases "fst (bootstrap_start E bootstrap_new)")
  case (Inl e)
  then obtain b where "bootstrap_start E bootstrap_new = (Inl e, b)"
    by (cases "bootstrap_start E bootstrap_new") simp
  with assms have "res = None"
    by (auto simp: bootstrap_with_shutdown_def split: prod.splits timed.splits)
  with Inl show ?thesis by simp
next
  case (Inr u)
  then obtain b where st: "bootstrap_start E bootstrap_new = (Inr (), b)"
    by (cases "bootstrap_start E bootstrap_new") simp
  with assms have l: "progress_loop N b ps [] False [] = (Some res, h)"
    by (simp add: bootstrap_with_shutdown_def)
  obtain es where es: "offers h = map ToEvents es"
      "\<And>b'. res = Some b' \<Longrightarrow> b' = b \<and> accepted h = map ToEvents es \<and> BootstrapProgress 100 \<in> set es"
      "res = None \<Longrightarrow> sends_succeed N \<Longrightarrow> \<forall>p \<in> set ps. \<not> pp_shutdown p \<Longrightarrow>
         BootstrapProgress 100 \<notin> set es"
    using progress_loop_log [OF l] by auto
  then show ?thesis using bootstrap_start_ok [OF st] by auto
qed

definition sample_boot :: "unit boot_env" where
  "sample_boot = \<lparr>be_state_dir = Some ''/tmp/t'', be_temp_dir = Inl ''no'',
     be_create_dir = (\<lambda>_. Inr ()), be_read_dir = (\<lambda>_. None), be_build = (\<lambda>_ _. Inr ()),
     be_create_client = (\<lambda>_. Inr ())\<rparr>"

lemma sample_boot_start: "\<exists>b. bootstrap_start sample_boot bootstrap_new = (Inr (), b)"
  by (simp add: bootstrap_start_def bootstrap_new_def sample_boot_def build_config_def Let_def)

theorem bootstrap_result_witness:
  "\<exists>b h. bootstrap_with_shutdown sample_boot (mem_net []) (burst [BootstrapProgress 100]) []
      = (Some (Some b), h)
    \<and> is_bootstrapped b \<and> ToEvents (BootstrapProgress 100) \<in> set (accepted h)"
proof -
  obtain b where b: "bootstrap_start sample_boot bootstrap_new = (Inr (), b)"
    using sample_boot_start by blast
  obtain h where "bootstrap_with_shutdown sample_boot (mem_net []) (burst [BootstrapProgress 100]) []
      = (Some (Some b), h)"
    using progress_loop_burst [of "mem_net []" b "[BootstrapProgress 100]" "[]"] b
    by (auto simp: bootstrap_with_shutdown_def)
  with bootstrap_result [OF this] show ?thesis by blast
qed

text \<open>
  A failure after the last progress event is not noticed: when arti reports 100 percent and
  the bootstrap then fails, the room is sent 0, 100 and the error, and \<open>bootstrap_with_shutdown\<close>
  still returns the client.
\<close>

theorem late_failure_unnoticed:
  assumes N: "sends_succeed N" and b: "bootstrap_start E bootstrap_new = (Inr (), b)"
    and f: "forward_task N [Status 100, Done (Inl e)] [] = (ended, h)"
    and es: "accepted h = map ToProgress es"
  shows "\<exists>h'. bootstrap_with_shutdown E N (burst es) [] = (Some (Some b), h')
    \<and> accepted h' = [ToEvents (BootstrapProgress 0), ToEvents (BootstrapProgress 100),
        ToEvents (ErrorEvent (Connection (''bootstrap failed: '' @ e)))]"
proof -
  have "accepted h = map ToProgress [BootstrapProgress 0, BootstrapProgress 100,
      ErrorEvent (Connection (''bootstrap failed: '' @ e))]"
    using f N by (auto simp: forward_task_def send_await_def sends_succeed_def Let_def)
  then have "es = [BootstrapProgress 0, BootstrapProgress 100,
      ErrorEvent (Connection (''bootstrap failed: '' @ e))]"
    using es by auto
  with progress_loop_burst [OF N, of b es "[]"] b show ?thesis
    by (auto simp: bootstrap_with_shutdown_def)
qed

theorem late_failure_unnoticed_witness:
  "\<exists>b h'. bootstrap_with_shutdown sample_boot (mem_net []) (burst [BootstrapProgress 0,
        BootstrapProgress 100, ErrorEvent (Connection ''bootstrap failed: x'')]) [] = (Some (Some b), h')"
proof -
  obtain b where b: "bootstrap_start sample_boot bootstrap_new = (Inr (), b)"
    using sample_boot_start by blast
  obtain ended h where f: "forward_task (mem_net []) [Status 100, Done (Inl ''x'')] [] = (ended, h)"
    by fastforce
  have "accepted h = map ToProgress [BootstrapProgress 0, BootstrapProgress 100,
      ErrorEvent (Connection ''bootstrap failed: x'')]"
    using f by (auto simp: forward_task_def send_await_def mem_net_def Let_def)
  from late_failure_unnoticed [OF _ b f this] show ?thesis by auto
qed

end
