(* ===== verification/Room_Handle.thy ===== *)
theory Room_Handle
  imports Bootstrap Invite Peer_Table
begin

text \<open>
  The public side of a room, \<open>RoomHandle\<close> and \<open>RoomInner\<close> of \<open>crates/core/src/room.rs\<close>: sending,
  inviting, listing peers, quitting, and what dropping handles does beside the task of the room; the constructors of rooms and
  the factory of \<open>crates/core/src/factory.rs\<close>.

  The mutexes around \<open>invite\<close> and \<open>tor\<close> cannot be poisoned: no code that holds one can panic.
\<close>

section \<open>State\<close>

record invite_info =
  ii_onion_address :: string
  ii_port :: u16
  ii_ttl_secs :: u64

text \<open>\<open>ri_shutdowns\<close> counts the values sent on the \<open>watch\<close> channel \<open>shutdown_tx\<close>.\<close>

record 'c room_inner =
  ri_invite :: "invite_info option"
  ri_peers :: "(peer_id \<times> peer_info) list"
  ri_quit_flag :: bool
  ri_tor :: "'c tor_bootstrap option"
  ri_name :: string
  ri_shutdowns :: nat

definition room_inner_new :: "string \<Rightarrow> 'c room_inner" where
  "room_inner_new name = \<lparr>ri_invite = None, ri_peers = [], ri_quit_flag = False, ri_tor = None,
     ri_name = name, ri_shutdowns = 0\<rparr>"

section \<open>Operations\<close>

definition room_send :: "net \<Rightarrow> string \<Rightarrow> 'c room_inner \<Rightarrow> log \<Rightarrow> (chat_error + unit) timed \<times> log" where
  "room_send N txt r h =
     (if ri_quit_flag r then (Ready (Inl ShuttingDown), h)
      else
        (case send_await N (ToSend txt) h of
           (Elapsed, h1) \<Rightarrow> (Elapsed, h1)
         | (Ready True, h1) \<Rightarrow> (Ready (Inr ()), h1)
         | (Ready False, h1) \<Rightarrow> (Ready (Inl ShuttingDown), h1)))"

definition room_invite :: "crates \<Rightarrow> nonce \<Rightarrow> u64 \<Rightarrow> string option \<Rightarrow> 'c room_inner \<Rightarrow> chat_error + string"
where
  "room_invite K random_nonce now suggested_name r =
     (if ri_quit_flag r then Inl ShuttingDown
      else
        (case ri_invite r of
           None \<Rightarrow> Inl (Connection ''invite generation only available on hub'')
         | Some info \<Rightarrow>
             encode_invite K \<lparr>ip_onion_address = ii_onion_address info, ip_nonce = random_nonce,
               ip_timestamp = now, ip_suggested_name = suggested_name\<rparr>))"

definition room_peers :: "'c room_inner \<Rightarrow> peer_info list" where
  "room_peers r = map snd (ri_peers r)"

definition do_quit :: "'c room_inner \<Rightarrow> 'c room_inner" where
  "do_quit r =
     (if ri_quit_flag r then r
      else r\<lparr>ri_quit_flag := True, ri_shutdowns := Suc (ri_shutdowns r), ri_tor := None\<rparr>)"

definition room_quit :: "'c room_inner \<Rightarrow> 'c room_inner" where
  "room_quit r = do_quit r"

text \<open>\<open>Drop\<close> of a handle, before the reference count goes down.\<close>

definition room_drop :: "nat \<Rightarrow> 'c room_inner \<Rightarrow> 'c room_inner" where
  "room_drop strong_count r = (if strong_count = 1 then do_quit r else r)"

section \<open>Making rooms\<close>

text \<open>The constructors return at once; the task that each spawns is named here.\<close>

datatype room_task = HostTask host_config | JoinTask join_config
  | HostMockTask host_config | JoinMockTask join_config

definition host :: "host_config \<Rightarrow> 'c room_inner \<times> room_task" where
  "host config = (room_inner_new (hc_name config), HostTask config)"

definition join :: "join_config \<Rightarrow> 'c room_inner \<times> room_task" where
  "join config = (room_inner_new (jc_name config), JoinTask config)"

text \<open>The constructors for mock streams, which also hand their stream or streams to the task.\<close>

definition host_with_mock :: "host_config \<Rightarrow> 'c room_inner \<times> room_task" where
  "host_with_mock config = (room_inner_new (hc_name config), HostMockTask config)"

definition join_with_mock :: "join_config \<Rightarrow> 'c room_inner \<times> room_task" where
  "join_with_mock config = (room_inner_new (jc_name config), JoinMockTask config)"

datatype room_config = HostRoom string u64 | JoinRoom string string

definition factory_create :: "room_config \<Rightarrow> 'c room_inner \<times> room_task" where
  "factory_create config = (case config of
     HostRoom name ttl \<Rightarrow> host \<lparr>hc_name = name, hc_invite_ttl_secs = ttl\<rparr>
   | JoinRoom name code \<Rightarrow> join \<lparr>jc_name = name, jc_invite_code = code\<rparr>)"

text \<open>The host's task fills in the invite information when the room is ready.\<close>

definition set_invite :: "string \<Rightarrow> u16 \<Rightarrow> host_config \<Rightarrow> 'c room_inner \<Rightarrow> 'c room_inner" where
  "set_invite address port config r =
     r\<lparr>ri_invite := Some \<lparr>ii_onion_address = address, ii_port = port,
       ii_ttl_secs = hc_invite_ttl_secs config\<rparr>\<rparr>"

text \<open>The task puts the bootstrapped client into the shared slot, and takes it out when it is through.\<close>

definition store_tor :: "'c tor_bootstrap \<Rightarrow> 'c room_inner \<Rightarrow> 'c room_inner" where
  "store_tor b r = r\<lparr>ri_tor := Some b\<rparr>"

definition release_tor :: "'c room_inner \<Rightarrow> 'c room_inner" where
  "release_tor r = r\<lparr>ri_tor := None\<rparr>"

section \<open>Handles\<close>

text \<open>
  The handles of a room: those in use, and those in the middle of \<open>drop\<close>, past the test of the
  reference count but not yet released. The reference count is the number of both. Handles may be
  dropped by different threads at the same time, and beside them runs the task of the room, which
  writes to the shared state too: it bootstraps Tor and gives up or stores the client, a host's
  task then fills in the invite information, and at its end releases the client, unless it
  returns early (no client, or no connection). \<open>hd_late\<close> is history: the client was stored after a
  quit.
\<close>

datatype task_phase = Booting | Serving | TaskOver

record 'c handles =
  hd_live :: nat
  hd_dropping :: nat
  hd_task :: task_phase
  hd_inner :: "'c room_inner"
  hd_late :: bool

definition hd_init :: "'c room_inner \<Rightarrow> 'c handles" where
  "hd_init r = \<lparr>hd_live = 1, hd_dropping = 0, hd_task = Booting, hd_inner = r, hd_late = False\<rparr>"

lemma hd_init_simps [simp]:
  "hd_live (hd_init r) = 1" "hd_dropping (hd_init r) = 0" "hd_task (hd_init r) = Booting"
  "hd_inner (hd_init r) = r" "\<not> hd_late (hd_init r)"
  by (simp_all add: hd_init_def)

inductive handle_step :: "'c handles \<Rightarrow> 'c handles \<Rightarrow> bool" where
  h_clone: "0 < hd_live s \<Longrightarrow> handle_step s (s\<lparr>hd_live := Suc (hd_live s)\<rparr>)"
| h_quit: "0 < hd_live s \<Longrightarrow> handle_step s (s\<lparr>hd_inner := room_quit (hd_inner s)\<rparr>)"
| h_drop: "0 < hd_live s \<Longrightarrow> handle_step s (s\<lparr>hd_live := hd_live s - 1,
      hd_dropping := Suc (hd_dropping s),
      hd_inner := room_drop (hd_live s + hd_dropping s) (hd_inner s)\<rparr>)"
| h_release: "0 < hd_dropping s \<Longrightarrow> handle_step s (s\<lparr>hd_dropping := hd_dropping s - 1\<rparr>)"
| h_boot: "hd_task s = Booting \<Longrightarrow> handle_step s (s\<lparr>hd_task := Serving,
      hd_inner := store_tor b (hd_inner s), hd_late := ri_quit_flag (hd_inner s)\<rparr>)"
| h_giveup: "hd_task s = Booting \<Longrightarrow> handle_step s (s\<lparr>hd_task := TaskOver\<rparr>)"
| h_ready: "hd_task s = Serving \<Longrightarrow>
    handle_step s (s\<lparr>hd_inner := set_invite address port config (hd_inner s)\<rparr>)"
| h_finish: "hd_task s = Serving \<Longrightarrow>
    handle_step s (s\<lparr>hd_task := TaskOver, hd_inner := release_tor (hd_inner s)\<rparr>)"
| h_return: "hd_task s = Serving \<Longrightarrow> handle_step s (s\<lparr>hd_task := TaskOver\<rparr>)"

inductive handle_reach :: "'c room_inner \<Rightarrow> 'c handles \<Rightarrow> bool" for r where
  hr_init: "handle_reach r (hd_init r)"
| hr_step: "handle_reach r s \<Longrightarrow> handle_step s s' \<Longrightarrow> handle_reach r s'"

inductive_cases handle_stepE: "handle_step s s'"

section \<open>Lemmas\<close>

lemma do_quit_idem [simp]: "do_quit (do_quit r) = do_quit r"
  by (simp add: do_quit_def)

lemma do_quit_flag [simp]: "ri_quit_flag (do_quit r)"
  by (simp add: do_quit_def)

definition quit_once :: "'c room_inner \<Rightarrow> bool" where
  "quit_once r \<longleftrightarrow> ri_shutdowns r = (if ri_quit_flag r then 1 else 0)"

lemma quit_once_ops:
  "quit_once r \<Longrightarrow> quit_once (do_quit r)" "quit_once r \<Longrightarrow> quit_once (room_drop n r)"
  "quit_once r \<Longrightarrow> quit_once (store_tor b r)" "quit_once r \<Longrightarrow> quit_once (release_tor r)"
  "quit_once r \<Longrightarrow> quit_once (set_invite address port config r)"
  "quit_once (room_inner_new name)"
  by (auto simp: quit_once_def do_quit_def room_drop_def room_inner_new_def store_tor_def
        release_tor_def set_invite_def)

lemma flag_ops [simp]:
  "ri_quit_flag (store_tor b r) = ri_quit_flag r" "ri_quit_flag (release_tor r) = ri_quit_flag r"
  "ri_quit_flag (set_invite address port config r) = ri_quit_flag r"
  by (simp_all add: store_tor_def release_tor_def set_invite_def)

text \<open>After a quit the slot is empty, unless the client came later.\<close>

definition handles_ok :: "'c handles \<Rightarrow> bool" where
  "handles_ok s \<longleftrightarrow> quit_once (hd_inner s)
     \<and> (ri_quit_flag (hd_inner s) \<and> \<not> hd_late s \<longrightarrow> ri_tor (hd_inner s) = None)"

lemma handles_ok_step:
  assumes "handle_step s s'" and "handles_ok s"
  shows "handles_ok s'"
  using assms
  by cases (auto simp: handles_ok_def quit_once_ops room_quit_def do_quit_def room_drop_def quit_once_def
      release_tor_def set_invite_def store_tor_def)

lemma handle_reach_once:
  "handle_reach r s \<Longrightarrow> quit_once r \<Longrightarrow> \<not> ri_quit_flag r \<Longrightarrow> handles_ok s"
  by (induction rule: handle_reach.induct) (simp add: handles_ok_def, blast intro: handles_ok_step)

text \<open>Without handles nothing quits.\<close>

lemma no_handles_step:
  "handle_step s s' \<Longrightarrow> hd_live s = 0 \<and> hd_dropping s = 0 \<Longrightarrow> hd_live s' = 0 \<and> hd_dropping s' = 0
    \<and> ri_quit_flag (hd_inner s') = ri_quit_flag (hd_inner s)"
  by (auto elim!: handle_stepE)

lemma no_handles_steps:
  "handle_step\<^sup>*\<^sup>* s s' \<Longrightarrow> hd_live s = 0 \<and> hd_dropping s = 0 \<Longrightarrow> hd_live s' = 0 \<and> hd_dropping s' = 0
    \<and> ri_quit_flag (hd_inner s') = ri_quit_flag (hd_inner s)"
  by (induction rule: rtranclp_induct) (auto dest: no_handles_step)

text \<open>While no two drops overlap, the last one quits.\<close>

inductive calm_reach :: "'c room_inner \<Rightarrow> 'c handles \<Rightarrow> bool" for r where
  cr_init: "calm_reach r (hd_init r)"
| cr_step: "calm_reach r s \<Longrightarrow> handle_step s s' \<Longrightarrow> hd_dropping s' \<le> 1 \<Longrightarrow> calm_reach r s'"

lemma calm_last_quits:
  "calm_reach r s \<Longrightarrow>
   hd_dropping s \<le> 1 \<and> (hd_live s = 0 \<longrightarrow> ri_quit_flag (hd_inner s))"
proof (induction rule: calm_reach.induct)
  case (cr_step s s')
  from cr_step.hyps(2) show ?case
    using cr_step.IH cr_step.hyps(3)
    by cases (auto simp: room_drop_def room_quit_def do_quit_def)
qed simp

section \<open>Properties\<close>

text \<open>
  The invite of a host decodes to the room's address, the fresh nonce, the time of issue and
  the suggested name for exactly 300 s after it is issued (and 300 s before, for a slow clock),
  whatever TTL the host configured: \<open>invite_ttl_secs\<close> does not enter the code.
\<close>

theorem host_invite_window:
  assumes K: "base58_ok K" "hex_ok K"
    and room: "ri_quit_flag r = False"
    and p: "wf_invite p" "ip_onion_address p = address" "ip_nonce p = nonce" "ip_timestamp p = issued"
    and fit: "times_fit now issued (Some 300)"
  shows "\<exists>code. room_invite K nonce issued (ip_suggested_name p) (set_invite address port config r) = Inr code
    \<and> decode_invite K checks now code (Some 300) = Some
        (if unat now + 300 < unat issued then Inl (too_far_error issued now)
         else if unat issued + 300 < unat now then Inl (InviteExpired issued)
         else Inr (normalise p))"
proof -
  have "p = \<lparr>ip_onion_address = address, ip_nonce = nonce, ip_timestamp = issued,
      ip_suggested_name = ip_suggested_name p\<rparr>" using p(2-4) by (cases p) simp
  moreover obtain code where e: "encode_invite K p = Inr code" using encode_wf [OF p(1)] by blast
  ultimately have "room_invite K nonce issued (ip_suggested_name p) (set_invite address port config r)
      = Inr code"
    using room by (simp add: room_invite_def set_invite_def)
  moreover have "decode_invite K checks now code (Some 300)
      = check_times checks now (Some 300) (normalise p)"
    by (rule decode_encoded [OF K p(1) e])
  ultimately show ?thesis
    using check_times_exact [of now "normalise p" "Some 300" checks] fit p(4) by simp
qed

theorem host_invite_window_witness:
  "\<exists>code. room_invite sample_crates (replicate 16 66) 1000 (Some ''al:ice'')
       (set_invite sample_address 80 \<lparr>hc_name = ''h'', hc_invite_ttl_secs = 5\<rparr> (room_inner_new ''h''))
       = Inr code
     \<and> decode_invite sample_crates True 1300 code (Some 300) = Some (Inr (sample_invite 1000))"
  using host_invite_window [of sample_crates "room_inner_new ''h''" "sample_invite 1000" sample_address
      "replicate 16 66" 1000 1300 80 "\<lparr>hc_name = ''h'', hc_invite_ttl_secs = 5\<rparr>" True]
  by (simp add: times_fit_def room_inner_new_def)

text \<open>
  C17. Quitting is final and happens at most once, however handles are cloned, used and dropped,
  however drops overlap and whatever the task of the room does meanwhile: the shutdown signal is
  sent exactly when the room has quit, once, and Tor is released, unless the client is stored only
  after the quit; from then on every send and invite through any handle fails with \<open>ShuttingDown\<close>
  without touching a channel, and further quits change nothing.
\<close>

theorem quit_final:
  assumes "handle_reach (room_inner_new name) s"
  shows "ri_shutdowns (hd_inner s) = (if ri_quit_flag (hd_inner s) then 1 else 0)
    \<and> (ri_quit_flag (hd_inner s) \<longrightarrow> (\<not> hd_late s \<longrightarrow> ri_tor (hd_inner s) = None)
        \<and> room_send N txt (hd_inner s) h = (Ready (Inl ShuttingDown), h)
        \<and> room_invite K nonce now sugg (hd_inner s) = Inl ShuttingDown
        \<and> room_quit (hd_inner s) = hd_inner s)"
proof -
  have "\<not> ri_quit_flag (room_inner_new name :: 'a room_inner)" by (simp add: room_inner_new_def)
  from handle_reach_once [OF assms quit_once_ops(6) this] show ?thesis
    by (auto simp: handles_ok_def quit_once_def room_send_def room_invite_def room_quit_def do_quit_def)
qed

text \<open>A room that has its client and then quits.\<close>

theorem quit_final_witness:
  "\<exists>s :: unit handles. handle_reach (room_inner_new ''h'') s \<and> ri_quit_flag (hd_inner s)
     \<and> hd_task s = Serving \<and> ri_shutdowns (hd_inner s) = 1 \<and> ri_tor (hd_inner s) = None
     \<and> room_send (mem_net []) ''x'' (hd_inner s) [] = (Ready (Inl ShuttingDown), [])"
proof -
  let ?r = "room_inner_new ''h'' :: unit room_inner"
  let ?b = "\<lparr>tb_client = Some (), tb_bootstrapped = True, tb_temp_dir = None\<rparr> :: unit tor_bootstrap"
  let ?s1 = "(hd_init ?r)\<lparr>hd_task := Serving, hd_inner := store_tor ?b ?r, hd_late := False\<rparr>"
  let ?s = "?s1\<lparr>hd_inner := room_quit (store_tor ?b ?r)\<rparr>"
  have "handle_reach ?r ?s1"
    using hr_step [OF hr_init h_boot, of ?r ?b] by (simp add: room_inner_new_def)
  then have s: "handle_reach ?r ?s" using hr_step [OF _ h_quit, of ?r ?s1] by simp
  have q: "ri_quit_flag (hd_inner ?s)" "\<not> hd_late ?s" by (simp_all add: room_quit_def)
  from quit_final [OF s, of "mem_net []" "''x''" "[]"] s q show ?thesis
    by (intro exI [of _ ?s]) simp
qed

text \<open>
  The client of a room that has quit can stay behind: the quit falls between the end of the bootstrap
  and the store of the client, and the task of a joined room then fails to connect.
\<close>

theorem late_client_kept:
  "\<exists>s. handle_reach (room_inner_new name) s \<and> ri_quit_flag (hd_inner s) \<and> hd_task s = TaskOver
     \<and> ri_tor (hd_inner s) = Some b"
proof -
  let ?r = "room_inner_new name :: 'a room_inner"
  let ?s1 = "(hd_init ?r)\<lparr>hd_inner := room_quit ?r\<rparr>"
  let ?s2 = "?s1\<lparr>hd_task := Serving, hd_inner := store_tor b (room_quit ?r), hd_late := True\<rparr>"
  let ?s3 = "?s2\<lparr>hd_task := TaskOver\<rparr>"
  have "handle_reach ?r ?s1" using hr_step [OF hr_init h_quit, of ?r] by simp
  then have "handle_reach ?r ?s2"
    using hr_step [OF _ h_boot, of ?r ?s1 b] by (simp add: room_quit_def)
  then have "handle_reach ?r ?s3" using hr_step [OF _ h_return, of ?r ?s2] by simp
  moreover have "ri_quit_flag (hd_inner ?s3)" "hd_task ?s3 = TaskOver" "ri_tor (hd_inner ?s3) = Some b"
    by (simp_all add: room_quit_def) (simp add: store_tor_def)
  ultimately show ?thesis by blast
qed

text \<open>
  C35. The last drop quits the room as long as drops do not overlap; when two threads drop the last
  two handles at the same time, both read a count of two, and the room is left without having quit
  and with no handle, so that nothing can make it quit any more.
\<close>

theorem last_drop_quits:
  "(\<forall>s. calm_reach r s \<and> hd_live s = 0 \<longrightarrow> ri_quit_flag (hd_inner s))
   \<and> (\<exists>s. handle_reach r s \<and> hd_live s = 0 \<and> hd_inner s = r
        \<and> (\<forall>s'. handle_step\<^sup>*\<^sup>* s s' \<longrightarrow> ri_quit_flag (hd_inner s') = ri_quit_flag r))"
proof -
  let ?s = "\<lambda>l d. (hd_init r)\<lparr>hd_live := l, hd_dropping := d\<rparr>"
  have 1: "handle_reach r (?s 2 0)"
    using hr_step [OF hr_init h_clone, of r] by (simp add: numeral_2_eq_2 hd_init_def)
  have 2: "handle_reach r (?s 1 1)"
    using hr_step [OF 1 h_drop] by (simp add: room_drop_def hd_init_def)
  have 3: "handle_reach r (?s 0 2)"
    using hr_step [OF 2 h_drop] by (simp add: room_drop_def numeral_2_eq_2 hd_init_def)
  have 4: "handle_reach r (?s 0 1)"
    using hr_step [OF 3 h_release] by (simp add: hd_init_def)
  have "handle_reach r (?s 0 0)"
    using hr_step [OF 4 h_release] by (simp add: hd_init_def)
  then have "\<exists>s. handle_reach r s \<and> hd_live s = 0 \<and> hd_inner s = r
      \<and> (\<forall>s'. handle_step\<^sup>*\<^sup>* s s' \<longrightarrow> ri_quit_flag (hd_inner s') = ri_quit_flag r)"
    using no_handles_steps [of "?s 0 0"] by (intro exI [of _ "?s 0 0"]) simp
  then show ?thesis using calm_last_quits by blast
qed

theorem last_drop_quits_witness:
  "\<exists>s :: unit handles. calm_reach (room_inner_new ''h'') s \<and> hd_live s = 0
     \<and> ri_quit_flag (hd_inner s)"
proof -
  let ?r = "room_inner_new ''h'' :: unit room_inner"
  let ?s = "(hd_init ?r)\<lparr>hd_live := 0, hd_dropping := 1, hd_inner := room_drop 1 ?r\<rparr>"
  have s: "calm_reach ?r ?s" using cr_step [OF cr_init h_drop, of ?r] by simp
  have "hd_live ?s = 0" by simp
  with last_drop_quits [of ?r] s show ?thesis by blast
qed

text \<open>
  A room made with \<open>host_with_mock\<close> never produces an invite: its address is
  \<open>mock://test-room\<close>, which no onion address check accepts.
\<close>

theorem mock_room_no_invite:
  "room_invite K nonce now sugg (set_invite ''mock://test-room'' 80 config r) =
     Inl (if ri_quit_flag r then ShuttingDown else InvalidInvite ''address must end with .onion'')"
  by (simp add: room_invite_def set_invite_def encode_invite_def validate_address_def ends_with_def)

end
