(* ===== verification/Room_Host.thy ===== *)
theory Room_Host
  imports Room_Handle Acceptor Frame_Loop Handshake "HOL-Library.Sublist"
begin

text \<open>
  The host side of \<open>crates/core/src/room.rs\<close>: \<open>host_task\<close>, the main loop, and the life of an
  accepted connection (admission, the reader task, the writer task, removal). The accept loop is in
  \<open>Acceptor\<close>, the handshake in \<open>Handshake\<close>. The variants for mock streams run the same loops.

  A pass of the main loop is a poll: what has come in on its channels, which of them have no
  sender left, and whether shutdown is signalled; the branches are tried in the order of the code.
\<close>

definition EVENT_CHAN_CAP :: nat where
  "EVENT_CHAN_CAP = 256"

section \<open>The main loop\<close>

record host_poll =
  hp_texts :: "string list"
  hp_msgs :: "(peer_id \<times> wire_message) list"
  hp_shutdown :: bool
  hp_senders_gone :: bool
  hp_msgs_gone :: bool

record host_state =
  hs_texts :: "string list"
  hs_msgs :: "(peer_id \<times> wire_message) list"
  hs_log :: log

definition own_event :: "string \<Rightarrow> string \<Rightarrow> chat_event" where
  "own_event name txt = Message (PeerId ''[hub]'') name txt"

definition peer_event :: "peer_id \<times> wire_message \<Rightarrow> chat_event" where
  "peer_event x = Message (fst x) (wm_name (snd x)) (wm_text (snd x))"

text \<open>One pass; \<open>True\<close> breaks the loop.\<close>

definition host_step :: "net \<Rightarrow> string \<Rightarrow> host_poll \<Rightarrow> host_state \<Rightarrow> bool \<times> host_state" where
  "host_step N name p s0 =
     (let s = s0\<lparr>hs_texts := hs_texts s0 @ hp_texts p, hs_msgs := hs_msgs s0 @ hp_msgs p\<rparr> in
      if hp_shutdown p then (True, s\<lparr>hs_log := snd (try_send N (ToEvents RoomClosed) (hs_log s))\<rparr>)
      else
        (case hs_texts s of
           t # ts \<Rightarrow>
             (let h1 = snd (try_send N (ToEvents (own_event name t)) (hs_log s));
                  h2 = snd (try_send N (ToWire (wire_chat name t)) h1)
              in (False, s\<lparr>hs_texts := ts, hs_log := h2\<rparr>))
         | [] \<Rightarrow>
             if hp_senders_gone p then (True, s)
             else
               (case hs_msgs s of
                  x # xs \<Rightarrow>
                    if wm_kind (snd x) = Chat
                    then (False, s\<lparr>hs_msgs := xs,
                            hs_log := snd (try_send N (ToEvents (peer_event x)) (hs_log s))\<rparr>)
                    else (False, s\<lparr>hs_msgs := xs\<rparr>)
                | [] \<Rightarrow> (hp_msgs_gone p, s))))"

fun host_loop :: "net \<Rightarrow> string \<Rightarrow> host_poll list \<Rightarrow> host_state \<Rightarrow> bool \<times> host_state" where
  "host_loop N name [] s = (False, s)"
| "host_loop N name (p # ps) s =
     (case host_step N name p s of
        (True, s') \<Rightarrow> (True, s')
      | (False, s') \<Rightarrow> host_loop N name ps s')"

text \<open>After a failed start the loop only waits for the shutdown, and drops what the user sends.\<close>

fun failed_loop :: "net \<Rightarrow> host_poll list \<Rightarrow> string list \<Rightarrow> log \<Rightarrow> bool \<times> log" where
  "failed_loop N [] texts h = (False, h)"
| "failed_loop N (p # ps) texts h =
     (if hp_shutdown p then (True, snd (try_send N (ToEvents RoomClosed) h))
      else
        (case texts @ hp_texts p of
           t # ts \<Rightarrow> failed_loop N ps ts h
         | [] \<Rightarrow> if hp_senders_gone p then (True, h) else failed_loop N ps [] h))"

text \<open>
  \<open>run_host_loop\<close>, with the onion service that it starts and the invite information that it
  stores. The accept loop runs beside it and is aborted with it.
\<close>

definition run_host_loop :: "onion_ops \<Rightarrow> u64 \<Rightarrow> net \<Rightarrow> host_config \<Rightarrow> host_poll list
    \<Rightarrow> 'c room_inner \<Rightarrow> log \<Rightarrow> bool \<times> 'c room_inner \<times> log" where
  "run_host_loop T next_id N config ps r h =
     (case fst (hosted_room_new T next_id 80 :: (chat_error + unit hosted_room) \<times> u64) of
        Inl e \<Rightarrow>
          (case send_await N (ToEvents (ErrorEvent e)) h of
             (Elapsed, h1) \<Rightarrow> (False, r, h1)
           | (Ready _, h1) \<Rightarrow> (case failed_loop N ps [] h1 of (d, h2) \<Rightarrow> (d, r, h2)))
      | Inr room \<Rightarrow>
          (case send_await N (ToEvents (RoomReady (hosted_address room) 80)) h of
             (Elapsed, h1) \<Rightarrow> (False, r, h1)
           | (Ready _, h1) \<Rightarrow>
               (case host_loop N (hc_name config) ps \<lparr>hs_texts = [], hs_msgs = [], hs_log = h1\<rparr> of
                  (d, s) \<Rightarrow> (d, set_invite (hosted_address room) 80 config r, hs_log s))))"

text \<open>\<open>host_task_mock\<close>: a fixed address, and the same loop over a mock acceptor.\<close>

definition host_task_mock :: "net \<Rightarrow> host_config \<Rightarrow> host_poll list \<Rightarrow> 'c room_inner \<Rightarrow> log
    \<Rightarrow> bool \<times> 'c room_inner \<times> log" where
  "host_task_mock N config ps r h =
     (case send_await N (ToEvents (RoomReady ''mock://test-room'' 80)) h of
        (Elapsed, h1) \<Rightarrow> (False, r, h1)
      | (Ready _, h1) \<Rightarrow>
          (case host_loop N (hc_name config) ps \<lparr>hs_texts = [], hs_msgs = [], hs_log = h1\<rparr> of
             (d, s) \<Rightarrow> (d, set_invite ''mock://test-room'' 80 config r, hs_log s)))"

text \<open>
  The client that \<open>host_task\<close> and \<open>joiner_task\<close> take out of the shared slot. A quit may have
  emptied the slot in the meantime, which is the argument \<open>taken\<close>.
\<close>

definition shared_client :: "bool \<Rightarrow> 'c room_inner \<Rightarrow> 'c option" where
  "shared_client taken r =
     (if taken then None
      else case ri_tor r of
        None \<Rightarrow> None
      | Some b \<Rightarrow> (case bootstrap_client b of Inl e \<Rightarrow> None | Inr c \<Rightarrow> Some c))"

definition host_task :: "'c boot_env \<Rightarrow> progress_poll list \<Rightarrow> bool \<Rightarrow> ('c \<Rightarrow> onion_ops) \<Rightarrow> u64 \<Rightarrow> net
    \<Rightarrow> host_config \<Rightarrow> host_poll list \<Rightarrow> 'c room_inner \<Rightarrow> bool \<times> 'c room_inner \<times> log" where
  "host_task E progress taken service next_id N config ps r =
     (case bootstrap_with_shutdown E N progress [] of
        (None, h) \<Rightarrow> (False, r, h)
      | (Some None, h) \<Rightarrow> (True, r, h)
      | (Some (Some b), h) \<Rightarrow>
          (let r1 = r\<lparr>ri_tor := Some b\<rparr> in
           case shared_client taken r1 of
             None \<Rightarrow>
               (case send_await N (ToEvents (ErrorEvent (Connection ''Tor client not available''))) h of
                  (Elapsed, h1) \<Rightarrow> (False, r1, h1) | (Ready _, h1) \<Rightarrow> (True, r1, h1))
           | Some c \<Rightarrow>
               (case run_host_loop (service c) next_id N config ps r1 h of
                  (d, r2, h1) \<Rightarrow> (d, if d then r2\<lparr>ri_tor := None\<rparr> else r2, h1))))"

section \<open>The reader and writer of a connection\<close>

definition room_reader_frame :: "peer_id \<Rightarrow> crates \<Rightarrow> net \<Rightarrow> bytes \<Rightarrow> log \<Rightarrow> loop_step \<times> log" where
  "room_reader_frame pid K N frame h =
     (case decode_message K frame of
        Inl e \<Rightarrow> (Break, h)
      | Inr m \<Rightarrow>
          if wm_kind m = Ping then (Continue, h)
          else
            (case send_await N (ToMsg pid m) h of
               (Elapsed, h1) \<Rightarrow> (Stuck, h1)
             | (Ready _, h1) \<Rightarrow> (Continue, h1)))"

definition hub_reader_task :: "peer_id \<Rightarrow> crates \<Rightarrow> net \<Rightarrow> nat \<Rightarrow> log \<Rightarrow> (loop_end \<times> log) option" where
  "hub_reader_task pid K N fuel h = frame_loop Ended (room_reader_frame pid K N) N fuel h"

definition room_reader_out :: "peer_id \<Rightarrow> crates \<Rightarrow> wire_message \<Rightarrow> chan_msg list" where
  "room_reader_out pid K m = (if wm_kind m = Ping then [] else [ToMsg pid m])"

interpretation room_reader: frame_consumer "room_reader_frame pid" "room_reader_out pid" for pid
proof
  fix K N f h s h'
  assume "room_reader_frame pid K N f h = (s, h')"
  then show "\<exists>k. h' = h @ k \<and> read_bytes k = [] \<and> read_sizes k = [] \<and> reads_ok k
      \<and> (s \<noteq> Stuck \<longrightarrow> \<not> list_ex is_untaken k)"
    by (auto simp: room_reader_frame_def send_await_def Let_def
             split: sum.splits timed.splits if_splits)
next
  fix K N f h h'
  assume "room_reader_frame pid K N f h = (Stuck, h')"
  then show "\<exists>h0 x. h' = h0 @ [SendAwait x Elapsed]"
    by (auto simp: room_reader_frame_def send_await_def Let_def
             split: sum.splits timed.splits if_splits)
next
  fix K N f h m
  assume "sends_succeed N" and "decode_message K f = Inr m"
  then show "\<exists>k. room_reader_frame pid K N f h = (Continue, h @ k)
      \<and> offers k = room_reader_out pid K m \<and> accepted k = room_reader_out pid K m"
    by (auto simp: room_reader_frame_def room_reader_out_def send_await_def sends_succeed_def Let_def)
qed

text \<open>
  The writer task of a connection: what its subscription yields, until the channel closes or a
  write or flush is late. \<open>True\<close>: the task has ended.
\<close>

datatype wire_recv = WireMsg wire_message | WireLagged nat | WireClosed

fun room_writer :: "crates \<Rightarrow> net \<Rightarrow> wire_recv list \<Rightarrow> log \<Rightarrow> bool \<times> log" where
  "room_writer K N [] h = (False, h)"
| "room_writer K N (WireLagged n # rs) h = room_writer K N rs h"
| "room_writer K N (WireClosed # rs) h = (True, h)"
| "room_writer K N (WireMsg m # rs) h =
     (case encode_message K m of
        Inl e \<Rightarrow> room_writer K N rs h
      | Inr frame \<Rightarrow>
          (case write_all N frame h of
             (Elapsed, h1) \<Rightarrow> (True, h1)
           | (Ready _, h1) \<Rightarrow>
               (case flush N h1 of
                  (Elapsed, h2) \<Rightarrow> (True, h2)
                | (Ready _, h2) \<Rightarrow> room_writer K N rs h2)))"

text \<open>
  What a subscription may have yielded of the messages sent since it was made (the documented
  behaviour of \<open>tokio\<close>'s broadcast channel): the messages in order, where a report of a lag of
  \<open>k\<close> stands for the \<open>k\<close> oldest that were waiting, and the end of the channel after the last.
\<close>

fun yields :: "wire_message list \<Rightarrow> wire_recv list \<Rightarrow> bool" where
  "yields ms [] \<longleftrightarrow> True"
| "yields ms (WireMsg m # rs) \<longleftrightarrow> (case ms of [] \<Rightarrow> False | x # xs \<Rightarrow> x = m \<and> yields xs rs)"
| "yields ms (WireLagged k # rs) \<longleftrightarrow> 0 < k \<and> k \<le> length ms \<and> yields (drop k ms) rs"
| "yields ms (WireClosed # rs) \<longleftrightarrow> ms = [] \<and> rs = []"

fun received :: "wire_recv list \<Rightarrow> wire_message list" where
  "received [] = []"
| "received (WireMsg m # rs) = m # received rs"
| "received (r # rs) = received rs"

fun skipped :: "wire_recv list \<Rightarrow> nat" where
  "skipped [] = 0"
| "skipped (WireLagged k # rs) = k + skipped rs"
| "skipped (r # rs) = skipped rs"

text \<open>What is received is in order and without repetition, and the lags count what is not.\<close>

lemma yields_received:
  "yields ms rs \<Longrightarrow> \<exists>waiting. subseq (received rs) ms
     \<and> length ms = length (received rs) + skipped rs + length waiting
     \<and> (WireClosed \<in> set rs \<longrightarrow> waiting = []) \<and> (skipped rs = 0 \<longrightarrow> ms = received rs @ waiting)"
proof (induction ms rs rule: yields.induct)
  case (1 ms)
  show ?case by (rule exI [of _ ms]) simp
next
  case (2 ms m rs)
  then obtain xs where ms: "ms = m # xs" "yields xs rs" by (auto split: list.splits)
  with 2(1) obtain w where "subseq (received rs) xs"
      "length xs = length (received rs) + skipped rs + length w"
      "WireClosed \<in> set rs \<longrightarrow> w = []" "skipped rs = 0 \<longrightarrow> xs = received rs @ w" by blast
  with ms show ?case by auto
next
  case (3 ms k rs)
  from 3(2) have y: "0 < k" "k \<le> length ms" "yields (drop k ms) rs" by simp_all
  with 3(1) obtain w :: "wire_message list" where w: "subseq (received rs) (drop k ms)"
      "length (drop k ms) = length (received rs) + skipped rs + length w"
      "WireClosed \<in> set rs \<longrightarrow> w = []" by blast
  have "subseq (received rs) ms"
    using w(1) suffix_drop [of k ms] by (meson subseq_order.trans suffix_imp_subseq)
  with w y show ?case by (intro exI [of _ w]) auto
qed simp

section \<open>The life of a connection\<close>

type_synonym peer_map = "(peer_id \<times> peer_info) list"

definition register_room_peer :: "peer_id \<Rightarrow> string \<Rightarrow> nat \<Rightarrow> peer_map \<Rightarrow> peer_map" where
  "register_room_peer pid name joined_at peers =
     AList.update pid \<lparr>pi_id = pid, pi_name = name, pi_joined_at = joined_at\<rparr> peers"

definition remove_room_peer :: "peer_id \<Rightarrow> peer_map \<Rightarrow> peer_map" where
  "remove_room_peer pid peers = AList.delete pid peers"

text \<open>
  Steps 1 to 4 of \<open>handle_hub_connection\<close>: handshake, registration, the \<open>PeerJoin\<close> event, and the
  notice to the peer, which has no timeout and whose error is ignored. \<open>Elapsed\<close>: the task hangs.
\<close>

definition admit_peer :: "crates \<Rightarrow> net \<Rightarrow> nat \<Rightarrow> nonce set \<Rightarrow> peer_map
    \<Rightarrow> (chat_error + peer_id \<times> string) timed \<times> nonce set \<times> peer_map \<times> log" where
  "admit_peer K N joined_at nonces peers =
     (case hub_handshake K N nonces [] of
        (Elapsed, used, h) \<Rightarrow> (Elapsed, used, peers, h)
      | (Ready (Inl e), used, h) \<Rightarrow> (Ready (Inl e), used, peers, h)
      | (Ready (Inr (pid, name)), used, h) \<Rightarrow>
          (let peers1 = register_room_peer pid name joined_at peers;
               info = \<lparr>pi_id = pid, pi_name = name, pi_joined_at = joined_at\<rparr>;
               h1 = snd (try_send N (ToEvents (PeerJoin info)) h)
           in case encode_message K (wire_system (name @ '' joined'')) of
                Inl e \<Rightarrow> (Ready (Inr (pid, name)), used, peers1, h1)
              | Inr frame \<Rightarrow>
                  (case write_all N frame h1 of
                     (Elapsed, h2) \<Rightarrow> (Elapsed, used, peers1, h2)
                   | (Ready _, h2) \<Rightarrow> (Ready (Inr (pid, name)), used, peers1, h2))))"

text \<open>Steps 9 and 10: removal and the \<open>PeerLeave\<close> event.\<close>

definition dismiss_peer :: "net \<Rightarrow> peer_id \<Rightarrow> peer_map \<Rightarrow> log \<Rightarrow> peer_map \<times> log" where
  "dismiss_peer N pid peers h =
     (remove_room_peer pid peers, snd (try_send N (ToEvents (PeerLeave pid)) h))"

text \<open>
  The whole handler. \<open>over\<close> says whether the reader has finished or shutdown has been signalled
  (the writer is aborted then, wherever it is); \<open>others\<close> is what other tasks do to the peer map
  meanwhile. \<open>None\<close>: still running.
\<close>

definition handle_hub_connection :: "crates \<Rightarrow> net \<Rightarrow> nat \<Rightarrow> bool \<Rightarrow> (peer_map \<Rightarrow> peer_map)
    \<Rightarrow> nonce set \<Rightarrow> peer_map \<Rightarrow> (chat_error + unit) option \<times> nonce set \<times> peer_map \<times> log" where
  "handle_hub_connection K N joined_at over others nonces peers =
     (case admit_peer K N joined_at nonces peers of
        (Elapsed, used, peers1, h) \<Rightarrow> (None, used, others peers1, h)
      | (Ready (Inl e), used, peers1, h) \<Rightarrow> (Some (Inl e), used, others peers1, h)
      | (Ready (Inr (pid, name)), used, peers1, h) \<Rightarrow>
          if over then
            (case dismiss_peer N pid (others peers1) h of
               (peers2, h1) \<Rightarrow> (Some (Inr ()), used, peers2, h1))
          else (None, used, others peers1, h))"

text \<open>The peer map of a room is a listed table.\<close>

definition put_room_peer :: "peer_id \<Rightarrow> string \<times> nat \<Rightarrow> peer_map \<Rightarrow> peer_map" where
  "put_room_peer pid x peers = register_room_peer pid (fst x) (snd x) peers"

definition room_peer :: "peer_map \<Rightarrow> peer_id \<Rightarrow> (string \<times> nat) option" where
  "room_peer peers pid = map_option (\<lambda>i. (pi_name i, pi_joined_at i)) (map_of peers pid)"

interpretation room_table: listed_table put_room_peer remove_room_peer room_peer "map fst" alist_good
proof
  fix i v t
  show "room_peer (put_room_peer i v t) = (room_peer t)(i \<mapsto> v)"
    by (auto simp: room_peer_def put_room_peer_def register_room_peer_def update_conv')
  show "room_peer (remove_room_peer i t) = (room_peer t)(i := None)"
    by (auto simp: room_peer_def remove_room_peer_def delete_conv')
  show "alist_good t \<Longrightarrow> alist_good (put_room_peer i v t)"
    using alist.good_ins by (auto simp: put_room_peer_def register_room_peer_def)
  show "alist_good t \<Longrightarrow> alist_good (remove_room_peer i t)"
    using alist.good_del by (auto simp: remove_room_peer_def)
  show "alist_good t \<Longrightarrow> distinct (map fst t)" by (rule alist.ids_distinct)
  show "set (map fst t) = dom (room_peer t)"
    using alist.ids_dom [of t] by (auto simp: room_peer_def dom_def)
qed

section \<open>Observing the channels\<close>

fun wires_of :: "chan_msg list \<Rightarrow> wire_message list" where
  "wires_of [] = []"
| "wires_of (ToWire m # xs) = m # wires_of xs"
| "wires_of (_ # xs) = wires_of xs"

fun events_of :: "chan_msg list \<Rightarrow> chat_event list" where
  "events_of [] = []"
| "events_of (ToEvents e # xs) = e # events_of xs"
| "events_of (_ # xs) = events_of xs"

fun msgs_of :: "chan_msg list \<Rightarrow> (peer_id \<times> wire_message) list" where
  "msgs_of [] = []"
| "msgs_of (ToMsg pid m # xs) = (pid, m) # msgs_of xs"
| "msgs_of (_ # xs) = msgs_of xs"

lemma of_append [simp]:
  "wires_of (xs @ ys) = wires_of xs @ wires_of ys"
  "events_of (xs @ ys) = events_of xs @ events_of ys"
  by (induction xs rule: wires_of.induct) simp_all

lemma of_map [simp]:
  "events_of (map ToEvents es) = es" "wires_of (map ToWire ms) = ms"
  by (induction es, simp_all, induction ms, simp_all)

lemma try_send_snd: "snd (try_send N x h) = h @ [TrySend x (n_try_send N h x)]"
  by (simp add: try_send_def Let_def)

section \<open>Lemmas on the main loop\<close>

abbreviation is_chat :: "peer_id \<times> wire_message \<Rightarrow> bool" where
  "is_chat x \<equiv> wm_kind (snd x) = Chat"

lemma host_step_log:
  assumes "host_step N name p s = (b, s')"
  shows "\<exists>k ts xs close. hs_log s' = hs_log s @ k
     \<and> wires_of (offers k) = map (wire_chat name) ts
     \<and> events_of (offers k) = map (own_event name) ts @ map peer_event (filter is_chat xs) @ close
     \<and> (ts = [] \<or> xs = []) \<and> length ts \<le> 1 \<and> close \<in> {[], [RoomClosed]} \<and> (close \<noteq> [] \<longrightarrow> b)
     \<and> hs_texts s @ hp_texts p = ts @ hs_texts s' \<and> hs_msgs s @ hp_msgs p = xs @ hs_msgs s'"
proof (cases "hp_shutdown p")
  case True
  with assms show ?thesis
    by (intro exI [of _ "[TrySend (ToEvents RoomClosed) (n_try_send N (hs_log s) (ToEvents RoomClosed))]"]
          exI [of _ "[]"] exI [of _ "[RoomClosed]"])
       (auto simp: host_step_def Let_def try_send_snd intro: exI [of _ "[]"])
next
  case run: False
  show ?thesis
  proof (cases "hs_texts s @ hp_texts p")
    case (Cons t ts)
    with run assms show ?thesis
      by (auto simp: host_step_def Let_def try_send_snd intro!: exI [of _ "[t]"])
  next
    case Nil
    show ?thesis
    proof (cases "hp_senders_gone p \<or> hs_msgs s @ hp_msgs p = []")
      case True
      with Nil run assms show ?thesis
        by (intro exI [of _ "[]"]) (auto simp: host_step_def Let_def split: if_splits)
    next
      case False
      then obtain x xs where x: "hs_msgs s @ hp_msgs p = x # xs" by (cases "hs_msgs s @ hp_msgs p") auto
      let ?c = "TrySend (ToEvents (peer_event x)) (n_try_send N (hs_log s) (ToEvents (peer_event x)))"
      have "\<not> b \<and> hs_texts s' = [] \<and> hs_msgs s' = xs
          \<and> hs_log s' = hs_log s @ (if is_chat x then [?c] else [])"
        using Nil run assms False x by (auto simp: host_step_def Let_def try_send_snd split: if_splits)
      with Nil x show ?thesis
        by (intro exI [of _ "if is_chat x then [?c] else []"] exI [of _ "[]"] exI [of _ "[x]"]) auto
    qed
  qed
qed

lemma shuffles_prepend:
  assumes "w \<in> shuffles a b" and "xs = [] \<or> ys = []" and "length xs \<le> 1"
  shows "(xs @ ys) @ w \<in> shuffles (xs @ a) (ys @ b)"
proof (cases "xs = []")
  case True
  have "u @ w \<in> shuffles a (u @ b)" for u
    using assms(1) by (induction u) (auto intro: Cons_in_shuffles_rightI)
  with True show ?thesis by simp
next
  case False
  with assms(3) obtain d where "xs = [d]" by (cases xs) auto
  with assms(1,2) show ?thesis by (auto intro: Cons_in_shuffles_leftI)
qed

definition host_trace :: "string \<Rightarrow> chan_msg list \<Rightarrow> string list \<Rightarrow> (peer_id \<times> wire_message) list \<Rightarrow> bool"
where
  "host_trace name outs ts xs \<longleftrightarrow>
     wires_of outs = map (wire_chat name) ts
   \<and> (\<exists>evs close. events_of outs = evs @ close \<and> close \<in> {[], [RoomClosed]}
        \<and> evs \<in> shuffles (map (own_event name) ts) (map peer_event (filter is_chat xs)))"

lemma host_trace_prepend:
  assumes "wires_of outs = map (wire_chat name) ts"
    and "events_of outs = map (own_event name) ts @ map peer_event (filter is_chat xs)"
    and "ts = [] \<or> xs = []" and "length ts \<le> 1" and "host_trace name outs2 ts2 xs2"
  shows "host_trace name (outs @ outs2) (ts @ ts2) (xs @ xs2)"
proof -
  obtain evs close where 2: "wires_of outs2 = map (wire_chat name) ts2" "events_of outs2 = evs @ close"
      "close \<in> {[], [RoomClosed]}"
      "evs \<in> shuffles (map (own_event name) ts2) (map peer_event (filter is_chat xs2))"
    using assms(5) unfolding host_trace_def by blast
  have "(map (own_event name) ts @ map peer_event (filter is_chat xs)) @ evs
      \<in> shuffles (map (own_event name) (ts @ ts2)) (map peer_event (filter is_chat (xs @ xs2)))"
    using shuffles_prepend [OF 2(4), of "map (own_event name) ts" "map peer_event (filter is_chat xs)"]
      assms(3,4) by auto
  with assms(1,2) 2(1-3) show ?thesis
    unfolding host_trace_def of_append map_append by (metis append.assoc)
qed

lemma host_trace_last:
  assumes "wires_of outs = map (wire_chat name) ts" and "ts = [] \<or> xs = []" and "length ts \<le> 1"
    and "events_of outs = map (own_event name) ts @ map peer_event (filter is_chat xs) @ close"
    and "close \<in> {[], [RoomClosed]}"
  shows "host_trace name outs ts xs"
proof -
  have "(map (own_event name) ts @ map peer_event (filter is_chat xs)) @ []
      \<in> shuffles (map (own_event name) ts @ []) (map peer_event (filter is_chat xs) @ [])"
    using assms(2,3) by (intro shuffles_prepend) auto
  with assms show ?thesis
    unfolding host_trace_def append_Nil2 by (metis append.assoc)
qed

lemma host_loop_log:
  "host_loop N name ps s = (b, s') \<Longrightarrow> \<exists>k ts xs tr xr. hs_log s' = hs_log s @ k
     \<and> host_trace name (offers k) ts xs
     \<and> hs_texts s @ concat (map hp_texts ps) = ts @ tr
     \<and> hs_msgs s @ concat (map hp_msgs ps) = xs @ xr
     \<and> (\<not> b \<longrightarrow> tr = hs_texts s' \<and> xr = hs_msgs s')"
proof (induction ps arbitrary: s)
  case Nil
  then have "s' = s" by simp
  have tr: "host_trace name (offers []) [] []" by (simp add: host_trace_def)
  show ?case unfolding \<open>s' = s\<close>
    by (rule exI [of _ "[]"], rule exI [of _ "[]"], rule exI [of _ "[]"],
        rule exI [of _ "hs_texts s"], rule exI [of _ "hs_msgs s"]) (auto simp: tr [simplified])
next
  case (Cons p ps)
  obtain b1 s1 where st: "host_step N name p s = (b1, s1)" by fastforce
  obtain k ts xs close where 1: "hs_log s1 = hs_log s @ k"
      "wires_of (offers k) = map (wire_chat name) ts"
      "events_of (offers k) = map (own_event name) ts @ map peer_event (filter is_chat xs) @ close"
      "ts = [] \<or> xs = []" "length ts \<le> 1" "close \<in> {[], [RoomClosed]}" "close \<noteq> [] \<longrightarrow> b1"
      "hs_texts s @ hp_texts p = ts @ hs_texts s1" "hs_msgs s @ hp_msgs p = xs @ hs_msgs s1"
    using host_step_log [OF st] by blast
  have app: "hs_texts s @ concat (map hp_texts (p # ps)) = ts @ hs_texts s1 @ concat (map hp_texts ps)"
      "hs_msgs s @ concat (map hp_msgs (p # ps)) = xs @ hs_msgs s1 @ concat (map hp_msgs ps)"
    using 1(8,9) by (metis append.assoc concat.simps(2) list.map(2))+
  show ?case
  proof (cases b1)
    case True
    with Cons.prems st have "s' = s1" "b" by simp_all
    moreover have "host_trace name (offers k) ts xs"
      by (rule host_trace_last [OF 1(2,4,5,3,6)])
    ultimately show ?thesis using 1(1) app by blast
  next
    case False
    with 1(3,7) have ev: "events_of (offers k) = map (own_event name) ts @ map peer_event (filter is_chat xs)"
      by auto
    from False Cons.prems st have "host_loop N name ps s1 = (b, s')" by simp
    from Cons.IH [OF this] obtain k2 ts2 xs2 tr xr where 2: "hs_log s' = hs_log s1 @ k2"
        "host_trace name (offers k2) ts2 xs2" "hs_texts s1 @ concat (map hp_texts ps) = ts2 @ tr"
        "hs_msgs s1 @ concat (map hp_msgs ps) = xs2 @ xr"
        "\<not> b \<longrightarrow> tr = hs_texts s' \<and> xr = hs_msgs s'" by blast
    have "host_trace name (offers (k @ k2)) (ts @ ts2) (xs @ xs2)"
      using host_trace_prepend [OF 1(2) ev 1(4,5) 2(2)] by simp
    moreover have "hs_log s' = hs_log s @ (k @ k2)" using 1(1) 2(1) by simp
    moreover have "hs_texts s @ concat (map hp_texts (p # ps)) = (ts @ ts2) @ tr"
        "hs_msgs s @ concat (map hp_msgs (p # ps)) = (xs @ xs2) @ xr"
      using app 2(3,4) by simp_all
    ultimately show ?thesis using 2(5) by blast
  qed
qed

text \<open>When the event stream keeps up, the loop loses nothing that it offers.\<close>

lemma host_step_accepted:
  "sends_succeed N \<Longrightarrow> host_step N name p s = (b, s') \<Longrightarrow> accepted (hs_log s) = offers (hs_log s) \<Longrightarrow>
   accepted (hs_log s') = offers (hs_log s')"
  by (auto simp: host_step_def Let_def try_send_snd sends_succeed_def split: if_splits list.splits)

lemma host_loop_accepted:
  "sends_succeed N \<Longrightarrow> host_loop N name ps s = (b, s') \<Longrightarrow> accepted (hs_log s) = offers (hs_log s) \<Longrightarrow>
   accepted (hs_log s') = offers (hs_log s')"
  by (induction N name ps s rule: host_loop.induct)
     (auto split: prod.splits bool.splits dest: host_step_accepted)

section \<open>Lemmas on connections\<close>

definition wire_frames :: "crates \<Rightarrow> wire_message \<Rightarrow> bytes list" where
  "wire_frames K m = (case encode_message K m of Inl e \<Rightarrow> [] | Inr f \<Rightarrow> [f])"

text \<open>On a stream that takes everything the writer writes every message that it receives and that
  encodes, in order.\<close>

lemma room_writer_all:
  "writes_succeed N \<Longrightarrow> yields ms rs \<Longrightarrow> \<exists>b k. room_writer K N rs h = (b, h @ k)
     \<and> written k = concat (concat (map (wire_frames K) (received rs)))"
proof (induction ms rs arbitrary: h rule: yields.induct)
  case (2 ms m rs)
  then obtain xs where ms: "ms = m # xs" "yields xs rs" by (auto split: list.splits)
  show ?case
  proof (cases "encode_message K m")
    case (Inl e)
    with 2(1) [OF ms(1) 2(2) ms(2), of h] show ?thesis by (simp add: wire_frames_def)
  next
    case (Inr f)
    let ?w = "[WriteAll f (Ready (Inr ())), Flush (Ready (Inr ()))]"
    obtain b k where "room_writer K N rs (h @ ?w) = (b, (h @ ?w) @ k)"
        "written k = concat (concat (map (wire_frames K) (received rs)))"
      using 2(1) [OF ms(1) 2(2) ms(2)] by blast
    moreover have "wire_frames K m = [f]" using Inr by (simp add: wire_frames_def)
    ultimately show ?thesis
      by (intro exI [of _ b] exI [of _ "?w @ k"])
         (use Inr 2(2) in \<open>simp add: write_all_def flush_def writes_succeed_def Let_def\<close>)
  qed
qed auto

text \<open>The handshake itself sends nothing on a channel.\<close>

lemma write_flush_offers:
  "write_flush a b c d N f h = (r, h') \<Longrightarrow> offers h' = offers h"
  by (auto elim!: write_flush_cases)

lemma hub_handshake_offers:
  assumes "hub_handshake K N nonces [] = (r, used, h)"
  shows "offers h = []"
proof -
  have rej: "offers h' = offers h1" if "reject N e h1 = (x, h')" for e h1 h' and x :: "(chat_error + peer_id \<times> string) timed"
    using that by (cases rule: reject_cases) auto
  have ack: "offers h' = offers h1" if "send_ack N h1 = (x, h')" for h1 x h'
    using that write_flush_offers unfolding send_ack_def by metis
  have name: "offers h' = offers h1" if "read_name K N h1 = (x, h')" for h1 x h'
  proof -
    note run = that
    obtain y where "read_frame N h1 = (y, h')"
      using run by (auto simp: read_name_def split: timed.splits sum.splits prod.splits)
    from read_frame_log [OF this] show ?thesis by auto
  qed
  show ?thesis
    using assms
    by (auto simp: hub_handshake_def read_exact_def Let_def
             split: sum.splits if_splits prod.splits bool.splits dest!: rej ack name)
qed

lemma admit_peer_cases:
  assumes "admit_peer K N t nonces peers = (r, used, peers1, h)"
  obtains (no) "\<not> is_admitted r" "peers1 = peers" "offers h = []"
      "\<exists>r0 h0. hub_handshake K N nonces [] = (r0, used, h0) \<and> (r0 = Elapsed \<longleftrightarrow> r = Elapsed)"
  | (yes) pid name h0 where "hub_handshake K N nonces [] = (Ready (Inr (pid, name)), used, h0)"
      "r = Elapsed \<or> r = Ready (Inr (pid, name))" "peers1 = register_room_peer pid name t peers"
      "offers h = [ToEvents (PeerJoin \<lparr>pi_id = pid, pi_name = name, pi_joined_at = t\<rparr>)]"
proof -
  obtain r0 used0 h0 where hs: "hub_handshake K N nonces [] = (r0, used0, h0)"
    by (cases "hub_handshake K N nonces []") auto
  note off = hub_handshake_offers [OF hs]
  show thesis
  proof (cases "is_admitted r0")
    case True
    then obtain pid name where x: "r0 = Ready (Inr (pid, name))"
      by (cases r0 rule: is_admitted.cases) auto
    have "used = used0" "r = Elapsed \<or> r = Ready (Inr (pid, name))"
        "peers1 = register_room_peer pid name t peers"
        "offers h = [ToEvents (PeerJoin \<lparr>pi_id = pid, pi_name = name, pi_joined_at = t\<rparr>)]"
      using assms hs x off
      by (auto simp: admit_peer_def Let_def try_send_snd write_all_def
               split: sum.splits timed.splits prod.splits)
    with yes hs x show ?thesis by blast
  next
    case False
    with assms hs off have "\<not> is_admitted r" "peers1 = peers" "offers h = []" "used = used0"
        "r0 = Elapsed \<longleftrightarrow> r = Elapsed"
      by (cases r0 rule: is_admitted.cases; simp add: admit_peer_def; fail)+
    with no hs show ?thesis by blast
  qed
qed

section \<open>Properties\<close>

text \<open>
  C15. What the main loop of a host does, for any arrivals, any scheduling and any behaviour of
  the channels: the messages put on the wire broadcast are exactly the chat messages of the
  local user's texts, each once and in order; no message of a peer is ever put there. The
  event stream is offered an interleaving of the local texts and of the chat messages of the
  peers, each in order, other kinds being dropped, closed by at most one \<open>RoomClosed\<close>. While
  the loop runs, what is not accounted for is still queued.
\<close>

theorem host_loop_spec:
  assumes "host_loop N name ps \<lparr>hs_texts = [], hs_msgs = [], hs_log = h\<rparr> = (ended, s')"
  shows "\<exists>k ts xs tr xr evs close. hs_log s' = h @ k
     \<and> concat (map hp_texts ps) = ts @ tr \<and> concat (map hp_msgs ps) = xs @ xr
     \<and> (\<not> ended \<longrightarrow> tr = hs_texts s' \<and> xr = hs_msgs s')
     \<and> wires_of (offers k) = map (wire_chat name) ts
     \<and> events_of (offers k) = evs @ close \<and> close \<in> {[], [RoomClosed]}
     \<and> evs \<in> shuffles (map (Message (PeerId ''[hub]'') name) ts)
         (map (\<lambda>(pid, m). Message pid (wm_name m) (wm_text m))
            (filter (\<lambda>(pid, m). wm_kind m = Chat) xs))"
proof -
  have own: "own_event name = Message (PeerId ''[hub]'') name"
    by (rule ext) (simp add: own_event_def)
  have peer: "peer_event = (\<lambda>(pid, m). Message pid (wm_name m) (wm_text m))"
    by (rule ext) (simp add: peer_event_def split: prod.split)
  have chat: "is_chat = (\<lambda>(pid, m). wm_kind m = Chat)"
    by (rule ext) (simp split: prod.split)
  show ?thesis
    using host_loop_log [OF assms]
    unfolding host_trace_def own peer chat host_state.simps append_Nil by blast
qed

definition demo_host_poll :: "string list \<Rightarrow> (peer_id \<times> wire_message) list \<Rightarrow> bool \<Rightarrow> host_poll" where
  "demo_host_poll ts ms stop = \<lparr>hp_texts = ts, hp_msgs = ms, hp_shutdown = stop,
     hp_senders_gone = False, hp_msgs_gone = False\<rparr>"

theorem host_loop_spec_witness:
  "\<exists>s' ts tr. host_loop (mem_net []) ''h'' [demo_host_poll [''a''] [(PeerId ''p'', wire_ping)] False,
        demo_host_poll [] [] True] \<lparr>hs_texts = [], hs_msgs = [], hs_log = []\<rparr> = (True, s')
     \<and> [''a''] = ts @ tr \<and> wires_of (offers (hs_log s')) = map (wire_chat ''h'') ts"
proof -
  let ?ps = "[demo_host_poll [''a''] [(PeerId ''p'', wire_ping)] False, demo_host_poll [] [] True]"
  obtain s' where l: "host_loop (mem_net []) ''h'' ?ps \<lparr>hs_texts = [], hs_msgs = [], hs_log = []\<rparr>
      = (True, s')"
    by (simp add: host_step_def demo_host_poll_def Let_def)
  obtain k ts tr where "hs_log s' = [] @ k" "concat (map hp_texts ?ps) = ts @ tr"
      "wires_of (offers k) = map (wire_chat ''h'') ts"
    using host_loop_spec [OF l] by blast
  with l show ?thesis
    by (intro exI [of _ s'] exI [of _ ts] exI [of _ tr]) (simp add: demo_host_poll_def)
qed

text \<open>
  C16. The life of a connection. A handler that returns an error has offered no event and
  registered nobody; one that returns normally has offered exactly the join and then the leave of
  one peer, under the identifier that its hello named, and that peer is out of the map, while every
  other entry is as the other tasks left it. What stays behind in both cases is the nonce: it is
  used from the moment the hello has been read, even if the handshake fails after that, and a
  handler returns normally only if it was not used before.
\<close>

theorem connection_lifecycle:
  assumes "handle_hub_connection K N t over others nonces peers = (Some r, used, peers', h)"
  shows "used = (case hub_hello N [] of None \<Rightarrow> nonces | Some buf \<Rightarrow> insert (take 16 buf) nonces)
    \<and> (case r of
      Inl e \<Rightarrow> events_of (offers h) = [] \<and> peers' = others peers
    | Inr _ \<Rightarrow> \<exists>buf pid name h0. hub_handshake K N nonces [] = (Ready (Inr (pid, name)), used, h0)
        \<and> hub_hello N [] = Some buf \<and> take 16 buf \<notin> nonces
        \<and> pid = PeerId (to_base58 K (take 16 (drop 16 buf)))
        \<and> events_of (offers h) = [PeerJoin \<lparr>pi_id = pid, pi_name = name, pi_joined_at = t\<rparr>, PeerLeave pid]
        \<and> room_peer peers' pid = None
        \<and> (\<forall>q. q \<noteq> pid \<longrightarrow>
             room_peer peers' q = room_peer (others (register_room_peer pid name t peers)) q))"
proof -
  obtain x used1 peers1 h1 where ad: "admit_peer K N t nonces peers = (x, used1, peers1, h1)"
    by (cases "admit_peer K N t nonces peers") auto
  from ad show ?thesis
  proof (cases rule: admit_peer_cases)
    case no
    then have "used = used1 \<and> (case r of Inl e \<Rightarrow> events_of (offers h) = [] \<and> peers' = others peers
        | Inr _ \<Rightarrow> False)"
      using assms ad
      by (cases x rule: is_admitted.cases) (auto simp: handle_hub_connection_def)
    moreover obtain r0 h0 where "hub_handshake K N nonces [] = (r0, used1, h0)"
      using no(4) by blast
    then have "used1 = (case hub_hello N [] of None \<Rightarrow> nonces | Some buf \<Rightarrow> insert (take 16 buf) nonces)"
      by (rule hub_handshake_nonces)
    ultimately show ?thesis by (cases r) simp_all
  next
    case (yes pid name h0)
    then have "r = Inr () \<and> used = used1 \<and> peers' = remove_room_peer pid (others peers1)
        \<and> h = h1 @ [TrySend (ToEvents (PeerLeave pid)) (n_try_send N h1 (ToEvents (PeerLeave pid)))]"
      using assms ad
      by (auto simp: handle_hub_connection_def dismiss_peer_def try_send_snd split: if_splits)
    moreover obtain buf where buf: "hub_hello N [] = Some buf" "take 16 buf \<notin> nonces"
        "pid = PeerId (to_base58 K (take 16 (drop 16 buf)))"
      using hub_handshake_admits [OF yes(1)] by blast
    moreover have "used = insert (take 16 buf) nonces"
      using hub_handshake_nonces [OF yes(1)] buf(1) calculation(1) by simp
    ultimately show ?thesis using yes by (simp add: room_table.look_del)
  qed
qed

text \<open>A peer that comes and goes, and one that presents a nonce and no name.\<close>

theorem connection_lifecycle_witness:
  "(\<exists>h. handle_hub_connection sample_crates (mem_net (demo_nonce @ demo_disc @ demo_frame)) 5 True id {} []
        = (Some (Inr ()), {demo_nonce}, [], h)
      \<and> events_of (offers h) = [PeerJoin \<lparr>pi_id = PeerId (to_base58 sample_crates demo_disc),
          pi_name = ''al'', pi_joined_at = 5\<rparr>, PeerLeave (PeerId (to_base58 sample_crates demo_disc))])
   \<and> (\<exists>e h. handle_hub_connection sample_crates (mem_net (demo_nonce @ demo_disc)) 5 True id {} []
        = (Some (Inl e), {demo_nonce}, [], h) \<and> events_of (offers h) = [])"
proof (rule conjI)
  let ?pid = "PeerId (to_base58 sample_crates demo_disc)"
  let ?N = "mem_net (demo_nonce @ demo_disc @ demo_frame)"
  obtain hh where hs: "hub_handshake sample_crates ?N {} [] = (Ready (Inr (?pid, ''al'')), {demo_nonce}, hh)"
    using demo_admits by blast
  have w: "n_write_all ?N h bs = Ready (Inr ())" for h bs
    using mem_net_succeeds(1) [of "demo_nonce @ demo_disc @ demo_frame"] by (simp add: writes_succeed_def)
  have "\<exists>h. handle_hub_connection sample_crates ?N 5 True id {} []
      = (Some (Inr ()), {demo_nonce}, remove_room_peer ?pid (register_room_peer ?pid ''al'' 5 []), h)"
    by (cases "encode_message sample_crates (wire_system (''al'' @ '' joined''))")
       (simp_all add: handle_hub_connection_def admit_peer_def hs dismiss_peer_def write_all_def w Let_def)
  then obtain h where run: "handle_hub_connection sample_crates ?N 5 True id {} []
      = (Some (Inr ()), {demo_nonce}, remove_room_peer ?pid (register_room_peer ?pid ''al'' 5 []), h)"
    by blast
  have "remove_room_peer ?pid (register_room_peer ?pid ''al'' 5 []) = []"
    by (simp add: register_room_peer_def remove_room_peer_def AList.delete_eq)
  with run have run': "handle_hub_connection sample_crates ?N 5 True id {} []
      = (Some (Inr ()), {demo_nonce}, [], h)" by simp
  have "events_of (offers h) = [PeerJoin \<lparr>pi_id = ?pid, pi_name = ''al'', pi_joined_at = 5\<rparr>, PeerLeave ?pid]"
    using connection_lifecycle [OF run'] unfolding hs by auto
  with run' show "\<exists>h. handle_hub_connection sample_crates ?N 5 True id {} []
      = (Some (Inr ()), {demo_nonce}, [], h)
    \<and> events_of (offers h) = [PeerJoin \<lparr>pi_id = ?pid, pi_name = ''al'', pi_joined_at = 5\<rparr>, PeerLeave ?pid]"
    by blast
next
  let ?N = "mem_net (demo_nonce @ demo_disc)"
  have feeds: "feeds ?N (demo_nonce @ demo_disc @ [])" "writes_succeed ?N" by simp_all
  have "\<exists>e h3. read_name sample_crates ?N h = (Inl e, h3)" if "read_bytes h = demo_nonce @ demo_disc" for h
    using that by (simp add: read_name_def read_frame_def read_exact_def mem_net_def Let_def)
  then obtain e h3 where "read_name sample_crates ?N [ReadExact HANDSHAKE_LEN (Ready (Inr (demo_nonce @ demo_disc))),
      WriteAll [0] (Ready (Inr ())), Flush (Ready (Inr ()))] = (Inl e, h3)" by force
  then have "hub_handshake sample_crates ?N {} [] = (Ready (Inl e), {demo_nonce}, h3)"
    using hub_handshake_fresh [OF feeds, of "{}" sample_crates] by (simp add: Let_def)
  then have run: "handle_hub_connection sample_crates ?N 5 True id {} [] = (Some (Inl e), {demo_nonce}, [], h3)"
    by (simp add: handle_hub_connection_def admit_peer_def)
  from connection_lifecycle [OF run] run show "\<exists>e h. handle_hub_connection sample_crates ?N 5 True id {} []
      = (Some (Inl e), {demo_nonce}, [], h) \<and> events_of (offers h) = []"
    by auto
qed

end
