(* ===== verification/Room_System.thy ===== *)
theory Room_System
  imports Room_Host
begin

text \<open>
  The tasks of a hosted room running together: the connection handlers of \<open>room.rs\<close>, which share
  the set of used nonces, the peer map and the event channel, with their readers and writers, and
  the main loop, which takes the messages of the peers and broadcasts the texts of the user. A step
  of the relation is what one task does between two awaits that let another task in: the critical
  section of the handshake, the registration with its event, the start of the reader, the
  subscription to the broadcast, a message passed on, a message received from the broadcast, the
  removal with its event, a pass of the main loop, a quit. Any interleaving of the steps of any
  number of connections is a run. The nonce mutex is held for the critical section, and on a used
  nonce also while the rejection is written, which other tasks can see.

  The event channel holds 256 events. No task of a room waits for a place in it: what is offered to a
  full channel, or after the interface has dropped its end, is lost. Two writes have no timeout, the
  refusal and the notice to a new peer: a peer that takes no byte can stall its handler there for
  ever.

  After a quit the accept loop takes no stream and the main loop no message, since both look at
  the shutdown signal first; handlers look at it only once their reader runs.
\<close>

section \<open>States and steps\<close>

definition MSG_CHAN_CAP :: nat where
  "MSG_CHAN_CAP = 128"

definition BROADCAST_CHAN_CAP :: nat where
  "BROADCAST_CHAN_CAP = 256"

text \<open>
  A handler waits for a stream or a hello, has read the hello and waits for the mutex (\<open>Greeted\<close>),
  writes a refusal, writes the answer and reads the name, writes its notice to the peer (\<open>Joining\<close>),
  has started the reader, has also subscribed to the broadcast (\<open>Active\<close>), or has ended.
\<close>

datatype phase = Idle | Fresh | Greeted bytes | Rejecting | Claimed nonce bytes
  | Joining peer_id | Reading peer_id | Active peer_id | Over

text \<open>
  \<open>sy_lock\<close> is the connection that holds the nonce mutex over an await; \<open>sy_stalled\<close> are the
  connections whose write will never complete; \<open>sy_msgs\<close> is the channel from the readers to the main
  loop. \<open>sy_said\<close> is what has been sent on the broadcast channel, and \<open>sy_pos\<close> the position of each
  receiver in it. \<open>sy_queue\<close> is the event channel, and \<open>sy_gone\<close> says that its receiver is dropped.
  \<open>sy_quit\<close>: shutdown is signalled; \<open>sy_ended\<close>: the main loop has ended. The rest is history:
  \<open>sy_events\<close>, everything offered to the event channel, of which \<open>sy_put\<close> got in and \<open>sy_dropped\<close> did
  not; \<open>sy_seen\<close>, what the interface has received; \<open>sy_start\<close> and \<open>sy_got\<close>, where each receiver of the
  broadcast started and what it yielded; \<open>sy_reads\<close>, what the readers passed on; \<open>sy_claims\<close> and
  \<open>sy_admits\<close>, the nonces claimed and the identifiers admitted, with the connections that did.
\<close>

record room_sys =
  sy_nonces :: "nonce set"
  sy_lock :: "nat option"
  sy_peers :: peer_map
  sy_conns :: "nat \<Rightarrow> phase"
  sy_stalled :: "nat set"
  sy_msgs :: "(peer_id \<times> wire_message) list"
  sy_said :: "wire_message list"
  sy_pos :: "nat \<Rightarrow> nat"
  sy_queue :: "chat_event list"
  sy_gone :: bool
  sy_quit :: bool
  sy_ended :: bool
  sy_events :: "chat_event list"
  sy_put :: "chat_event list"
  sy_dropped :: "chat_event list"
  sy_seen :: "chat_event list"
  sy_start :: "nat \<Rightarrow> nat"
  sy_got :: "nat \<Rightarrow> wire_recv list"
  sy_reads :: "(nat \<times> peer_id \<times> wire_message) list"
  sy_claims :: "(nat \<times> nonce) list"
  sy_admits :: "(nat \<times> peer_id) list"

text \<open>
  A room starts with what its task has put on the event channel before, and the interface has not
  received yet: the progress of the bootstrap and the address.
\<close>

definition sys_start :: "chat_event list \<Rightarrow> room_sys" where
  "sys_start es = \<lparr>sy_nonces = {}, sy_lock = None, sy_peers = [], sy_conns = (\<lambda>_. Idle), sy_stalled = {},
     sy_msgs = [], sy_said = [], sy_pos = (\<lambda>_. 0), sy_queue = es, sy_gone = False, sy_quit = False,
     sy_ended = False, sy_events = es, sy_put = es, sy_dropped = [], sy_seen = [],
     sy_start = (\<lambda>_. 0), sy_got = (\<lambda>_. []), sy_reads = [], sy_claims = [], sy_admits = []\<rparr>"

fun is_startup :: "chat_event \<Rightarrow> bool" where
  "is_startup (BootstrapProgress pct) \<longleftrightarrow> True"
| "is_startup (RoomReady address port) \<longleftrightarrow> True"
| "is_startup e \<longleftrightarrow> False"

definition early :: "chat_event list \<Rightarrow> bool" where
  "early es \<longleftrightarrow> length es \<le> EVENT_CHAN_CAP \<and> list_all is_startup es"

abbreviation sys_init :: room_sys where
  "sys_init \<equiv> sys_start []"

lemma sys_start_simps [simp]:
  "sy_nonces (sys_start es) = {}" "sy_lock (sys_start es) = None" "sy_peers (sys_start es) = []"
  "sy_conns (sys_start es) = (\<lambda>_. Idle)" "sy_stalled (sys_start es) = {}" "sy_msgs (sys_start es) = []"
  "sy_said (sys_start es) = []" "sy_queue (sys_start es) = es" "\<not> sy_gone (sys_start es)"
  "\<not> sy_quit (sys_start es)" "\<not> sy_ended (sys_start es)" "sy_events (sys_start es) = es"
  "sy_put (sys_start es) = es" "sy_dropped (sys_start es) = []" "sy_seen (sys_start es) = []"
  "sy_got (sys_start es) = (\<lambda>_. [])" "sy_reads (sys_start es) = []"
  "sy_claims (sys_start es) = []" "sy_admits (sys_start es) = []"
  by (simp_all add: sys_start_def)

text \<open>A handler moves on, which it does when its write has completed.\<close>

definition go :: "nat \<Rightarrow> phase \<Rightarrow> room_sys \<Rightarrow> room_sys" where
  "go c ph s = s\<lparr>sy_conns := (sy_conns s)(c := ph), sy_stalled := sy_stalled s - {c}\<rparr>"

lemma go_simps [simp]:
  "sy_conns (go c ph s) c = ph" "sy_nonces (go c ph s) = sy_nonces s" "sy_lock (go c ph s) = sy_lock s"
  "sy_peers (go c ph s) = sy_peers s" "sy_msgs (go c ph s) = sy_msgs s" "sy_said (go c ph s) = sy_said s"
  "sy_events (go c ph s) = sy_events s" "sy_quit (go c ph s) = sy_quit s" "sy_ended (go c ph s) = sy_ended s"
  by (simp_all add: go_def)

text \<open>\<open>try_send\<close> on the event channel: an event that finds no place is dropped.\<close>

definition offer :: "chat_event \<Rightarrow> room_sys \<Rightarrow> room_sys" where
  "offer e s =
     (if \<not> sy_gone s \<and> length (sy_queue s) < EVENT_CHAN_CAP
      then s\<lparr>sy_events := sy_events s @ [e], sy_queue := sy_queue s @ [e], sy_put := sy_put s @ [e]\<rparr>
      else s\<lparr>sy_events := sy_events s @ [e], sy_dropped := sy_dropped s @ [e]\<rparr>)"

lemma offer_simps [simp]:
  "sy_events (offer e s) = sy_events s @ [e]" "sy_nonces (offer e s) = sy_nonces s"
  "sy_lock (offer e s) = sy_lock s" "sy_peers (offer e s) = sy_peers s" "sy_conns (offer e s) = sy_conns s"
  "sy_stalled (offer e s) = sy_stalled s" "sy_msgs (offer e s) = sy_msgs s" "sy_said (offer e s) = sy_said s"
  "sy_pos (offer e s) = sy_pos s" "sy_gone (offer e s) = sy_gone s" "sy_quit (offer e s) = sy_quit s"
  "sy_ended (offer e s) = sy_ended s" "sy_seen (offer e s) = sy_seen s" "sy_start (offer e s) = sy_start s"
  "sy_got (offer e s) = sy_got s" "sy_reads (offer e s) = sy_reads s" "sy_claims (offer e s) = sy_claims s"
  "sy_admits (offer e s) = sy_admits s"
  by (simp_all add: offer_def)

text \<open>
  The critical section: 32 bytes have been read, the nonce is tested and inserted. A used nonce is
  answered with the mutex still held.
\<close>

definition do_claim :: "nat \<Rightarrow> bytes \<Rightarrow> room_sys \<Rightarrow> room_sys" where
  "do_claim c buf s =
     (case claim_nonce (take 16 buf) (sy_nonces s) of
        (False, _) \<Rightarrow> go c Rejecting (s\<lparr>sy_lock := Some c\<rparr>)
      | (True, used) \<Rightarrow> go c (Claimed (take 16 buf) (take 16 (drop 16 buf)))
          (s\<lparr>sy_nonces := used, sy_claims := sy_claims s @ [(c, take 16 buf)]\<rparr>))"

text \<open>Registration and the \<open>PeerJoin\<close> event, once the name has been read.\<close>

definition do_admit :: "nat \<Rightarrow> peer_id \<Rightarrow> string \<Rightarrow> nat \<Rightarrow> room_sys \<Rightarrow> room_sys" where
  "do_admit c pid name t s = go c (Joining pid)
     (offer (PeerJoin \<lparr>pi_id = pid, pi_name = name, pi_joined_at = t\<rparr>)
       (s\<lparr>sy_peers := register_room_peer pid name t (sy_peers s),
          sy_admits := sy_admits s @ [(c, pid)]\<rparr>))"

text \<open>\<open>subscribe\<close>: a receiver of what is sent from now on.\<close>

definition do_subscribe :: "nat \<Rightarrow> peer_id \<Rightarrow> room_sys \<Rightarrow> room_sys" where
  "do_subscribe c pid s = go c (Active pid)
     (s\<lparr>sy_pos := (sy_pos s)(c := length (sy_said s)),
        sy_start := (sy_start s)(c := length (sy_said s)), sy_got := (sy_got s)(c := [])\<rparr>)"

definition do_read :: "nat \<Rightarrow> peer_id \<Rightarrow> wire_message \<Rightarrow> room_sys \<Rightarrow> room_sys" where
  "do_read c pid m s = s\<lparr>sy_msgs := sy_msgs s @ [(pid, m)], sy_reads := sy_reads s @ [(c, pid, m)]\<rparr>"

text \<open>
  \<open>recv\<close> of a broadcast receiver (the documented behaviour of \<open>tokio\<close>): the channel keeps the last
  messages up to its capacity, and a receiver that is further behind gets a report of how many it
  missed and goes on with the oldest kept one.
\<close>

definition recv_from :: "wire_message list \<Rightarrow> nat \<Rightarrow> wire_recv \<times> nat" where
  "recv_from said p =
     (if BROADCAST_CHAN_CAP < length said - p
      then (WireLagged (length said - BROADCAST_CHAN_CAP - p), length said - BROADCAST_CHAN_CAP)
      else (WireMsg (said ! p), Suc p))"

definition do_recv :: "nat \<Rightarrow> room_sys \<Rightarrow> room_sys" where
  "do_recv c s = (case recv_from (sy_said s) (sy_pos s c) of (x, p) \<Rightarrow>
     s\<lparr>sy_pos := (sy_pos s)(c := p), sy_got := (sy_got s)(c := sy_got s c @ [x])\<rparr>)"

definition do_leave :: "nat \<Rightarrow> peer_id \<Rightarrow> room_sys \<Rightarrow> room_sys" where
  "do_leave c pid s = go c Over
     (offer (PeerLeave pid) (s\<lparr>sy_peers := remove_room_peer pid (sy_peers s)\<rparr>))"

text \<open>A text of the user, and a message of a peer, in the main loop.\<close>

definition do_say :: "string \<Rightarrow> string \<Rightarrow> room_sys \<Rightarrow> room_sys" where
  "do_say name t s = (offer (own_event name t) s)\<lparr>sy_said := sy_said s @ [wire_chat name t]\<rparr>"

definition do_take :: "peer_id \<times> wire_message \<Rightarrow> (peer_id \<times> wire_message) list \<Rightarrow> room_sys \<Rightarrow> room_sys" where
  "do_take x xs s = (let s1 = s\<lparr>sy_msgs := xs\<rparr> in if is_chat x then offer (peer_event x) s1 else s1)"

definition do_close :: "room_sys \<Rightarrow> room_sys" where
  "do_close s = offer RoomClosed (s\<lparr>sy_ended := True\<rparr>)"

text \<open>The interface receives the next event, or drops its end of the channel with what is in it.\<close>

definition do_see :: "chat_event \<Rightarrow> chat_event list \<Rightarrow> room_sys \<Rightarrow> room_sys" where
  "do_see e es s = s\<lparr>sy_queue := es, sy_seen := sy_seen s @ [e]\<rparr>"

definition do_hang_up :: "room_sys \<Rightarrow> room_sys" where
  "do_hang_up s = s\<lparr>sy_queue := [], sy_gone := True\<rparr>"

text \<open>
  \<open>s_stall\<close>: the peer will take no more bytes, so that the write under way never completes, where it
  has no timeout. \<open>s_abandon\<close>: the room is dropped without a quit and the main loop finds its text
  channel closed before it finds the shutdown channel closed, so that it ends without an event.
\<close>

inductive sys_step :: "crates \<Rightarrow> string \<Rightarrow> room_sys \<Rightarrow> room_sys \<Rightarrow> bool" for K name where
  s_connect: "sy_conns s c = Idle \<Longrightarrow> \<not> sy_quit s \<Longrightarrow> sys_step K name s (go c Fresh s)"
| s_lost: "sy_conns s c = Fresh \<Longrightarrow> sys_step K name s (go c Over s)"
| s_hello: "sy_conns s c = Fresh \<Longrightarrow> length buf = HANDSHAKE_LEN \<Longrightarrow>
    sys_step K name s (go c (Greeted buf) s)"
| s_claim: "sy_conns s c = Greeted buf \<Longrightarrow> sy_lock s = None \<Longrightarrow> sys_step K name s (do_claim c buf s)"
| s_reject: "sy_conns s c = Rejecting \<Longrightarrow> c \<notin> sy_stalled s \<Longrightarrow>
    sys_step K name s (go c Over (s\<lparr>sy_lock := None\<rparr>))"
| s_fail: "sy_conns s c = Claimed n d \<Longrightarrow> sys_step K name s (go c Over s)"
| s_admit: "sy_conns s c = Claimed n d \<Longrightarrow>
    sys_step K name s (do_admit c (PeerId (to_base58 K d)) peer t s)"
| s_spawn: "sy_conns s c = Joining pid \<Longrightarrow> c \<notin> sy_stalled s \<Longrightarrow> sys_step K name s (go c (Reading pid) s)"
| s_stall: "sy_conns s c = Rejecting \<or> sy_conns s c = Joining pid \<Longrightarrow> c \<notin> sy_stalled s \<Longrightarrow>
    sys_step K name s (s\<lparr>sy_stalled := insert c (sy_stalled s)\<rparr>)"
| s_subscribe: "sy_conns s c = Reading pid \<Longrightarrow> sys_step K name s (do_subscribe c pid s)"
| s_read: "sy_conns s c = Reading pid \<or> sy_conns s c = Active pid \<Longrightarrow> wm_kind m \<noteq> Ping \<Longrightarrow>
    length (sy_msgs s) < MSG_CHAN_CAP \<Longrightarrow> \<not> sy_ended s \<Longrightarrow> sys_step K name s (do_read c pid m s)"
| s_recv: "sy_conns s c = Active pid \<Longrightarrow> sy_pos s c < length (sy_said s) \<Longrightarrow>
    sys_step K name s (do_recv c s)"
| s_leave: "sy_conns s c = Active pid \<Longrightarrow> sys_step K name s (do_leave c pid s)"
| s_say: "\<not> sy_quit s \<Longrightarrow> sys_step K name s (do_say name t s)"
| s_take: "sy_msgs s = x # xs \<Longrightarrow> \<not> sy_quit s \<Longrightarrow> sys_step K name s (do_take x xs s)"
| s_see: "sy_queue s = e # es \<Longrightarrow> sys_step K name s (do_see e es s)"
| s_hang_up: "\<not> sy_gone s \<Longrightarrow> sys_step K name s (do_hang_up s)"
| s_quit: "\<not> sy_quit s \<Longrightarrow> sys_step K name s (s\<lparr>sy_quit := True\<rparr>)"
| s_close: "sy_quit s \<Longrightarrow> \<not> sy_ended s \<Longrightarrow> sys_step K name s (do_close s)"
| s_abandon: "\<not> sy_quit s \<Longrightarrow> sys_step K name s (s\<lparr>sy_quit := True, sy_ended := True\<rparr>)"

inductive sys_reach :: "crates \<Rightarrow> string \<Rightarrow> room_sys \<Rightarrow> bool" for K name where
  sr_start: "early es \<Longrightarrow> sys_reach K name (sys_start es)"
| sr_step: "sys_reach K name s \<Longrightarrow> sys_step K name s s' \<Longrightarrow> sys_reach K name s'"

lemma sr_init: "sys_reach K name sys_init"
  by (rule sr_start) (simp add: early_def)

text \<open>An invariant of the start and of every step holds in every reachable state.\<close>

lemma sys_reach_invariant:
  assumes "sys_reach K name s" and "\<And>es. early es \<Longrightarrow> P (sys_start es)"
    and "\<And>s s'. sys_step K name s s' \<Longrightarrow> P s \<Longrightarrow> P s'"
  shows "P s"
  using assms by (induction rule: sys_reach.induct) blast+

lemmas do_defs = go_def do_claim_def do_admit_def do_subscribe_def do_read_def do_recv_def do_leave_def
  do_say_def do_take_def do_close_def do_see_def do_hang_up_def Let_def

inductive_cases sys_stepE: "sys_step K name s s'"

section \<open>Single use of nonces\<close>

definition nonces_ok :: "room_sys \<Rightarrow> bool" where
  "nonces_ok s \<longleftrightarrow> distinct (map snd (sy_claims s)) \<and> sy_nonces s = set (map snd (sy_claims s))
     \<and> (\<forall>c n d. sy_conns s c = Claimed n d \<longrightarrow> (c, n) \<in> set (sy_claims s))"

lemma nonces_ok_step:
  assumes "sys_step K name s s'" and "nonces_ok s"
  shows "nonces_ok s'"
  using assms
  by cases (auto simp: nonces_ok_def do_defs split: prod.splits bool.splits)

lemma nonces_ok_reach: "sys_reach K name s \<Longrightarrow> nonces_ok s"
  by (erule sys_reach_invariant, simp add: nonces_ok_def, erule nonces_ok_step, assumption)

section \<open>The nonce mutex\<close>

definition lock_ok :: "room_sys \<Rightarrow> bool" where
  "lock_ok s \<longleftrightarrow> (\<forall>c. sy_conns s c = Rejecting \<longleftrightarrow> sy_lock s = Some c)"

lemma lock_ok_go:
  "lock_ok s \<Longrightarrow> sy_conns s c \<noteq> Rejecting \<Longrightarrow> ph \<noteq> Rejecting \<Longrightarrow> sy_conns s' = (sy_conns s)(c := ph)
    \<Longrightarrow> sy_lock s' = sy_lock s \<Longrightarrow> lock_ok s'"
  by (metis fun_upd_apply lock_ok_def)

lemma lock_ok_fields:
  "lock_ok s \<Longrightarrow> sy_conns s' = sy_conns s \<Longrightarrow> sy_lock s' = sy_lock s \<Longrightarrow> lock_ok s'"
  by (simp add: lock_ok_def)

lemma lock_ok_step:
  assumes "sys_step K name s s'" and "lock_ok s"
  shows "lock_ok s'"
  using assms(1)
proof cases
  case (s_claim c buf)
  then show ?thesis using assms(2)
    by (auto simp: lock_ok_def go_def do_claim_def claim_nonce_def)
next
  case (s_reject c)
  then show ?thesis using assms(2) by (auto simp: lock_ok_def go_def)
qed ((rule lock_ok_go [OF assms(2)]; simp add: do_defs; fail)
    | (rule lock_ok_fields [OF assms(2)]; simp add: do_defs split: prod.split))+

lemma lock_ok_reach: "sys_reach K name s \<Longrightarrow> lock_ok s"
  by (erule sys_reach_invariant, simp add: lock_ok_def, erule lock_ok_step, assumption)

text \<open>The steps taken while the rejection of \<open>c\<close> is still being written.\<close>

definition held_step :: "crates \<Rightarrow> string \<Rightarrow> nat \<Rightarrow> room_sys \<Rightarrow> room_sys \<Rightarrow> bool" where
  "held_step K name c s s' \<longleftrightarrow> sys_step K name s s' \<and> sy_conns s' c = Rejecting"

definition unclaimed :: "phase \<Rightarrow> bool" where
  "unclaimed ph \<longleftrightarrow> ph \<in> {Idle, Fresh, Over} \<or> (\<exists>buf. ph = Greeted buf)"

definition no_claims :: "nat \<Rightarrow> room_sys \<Rightarrow> room_sys \<Rightarrow> bool" where
  "no_claims c s s' \<longleftrightarrow> sy_claims s' = sy_claims s \<and> sy_nonces s' = sy_nonces s
     \<and> (\<forall>e. e \<noteq> c \<longrightarrow> unclaimed (sy_conns s e) \<longrightarrow> unclaimed (sy_conns s' e))"

lemma no_claims_refl [simp]: "no_claims c s s"
  by (simp add: no_claims_def)

lemma no_claims_trans: "no_claims c s s1 \<Longrightarrow> no_claims c s1 s2 \<Longrightarrow> no_claims c s s2"
  by (simp add: no_claims_def)

lemma held_step_no_claims:
  assumes "sys_step K name s s'" and "sy_lock s = Some c"
  shows "no_claims c s s'"
  using assms
  by cases (auto simp: no_claims_def unclaimed_def do_defs split: prod.split)

lemma held_steps_no_claims:
  assumes "(held_step K name c)\<^sup>*\<^sup>* s s'" and "lock_ok s" and "sy_conns s c = Rejecting"
  shows "no_claims c s s' \<and> lock_ok s' \<and> sy_conns s' c = Rejecting"
  using assms
proof (induction rule: rtranclp_induct)
  case base
  then show ?case by simp
next
  case (step s1 s2)
  then have s1: "no_claims c s s1" "lock_ok s1" "sy_conns s1 c = Rejecting"
      and 12: "sys_step K name s1 s2" "sy_conns s2 c = Rejecting"
    by (simp_all add: held_step_def)
  from s1(2,3) have "sy_lock s1 = Some c" by (simp add: lock_ok_def)
  from no_claims_trans [OF s1(1) held_step_no_claims [OF 12(1) this]] lock_ok_step [OF 12(1) s1(2)] 12(2)
  show ?case by simp
qed

section \<open>The peer map and the connections\<close>

text \<open>The identifier under which a handler has registered its peer.\<close>

fun seat :: "phase \<Rightarrow> peer_id option" where
  "seat (Joining pid) = Some pid"
| "seat (Reading pid) = Some pid"
| "seat (Active pid) = Some pid"
| "seat ph = None"

definition active :: "room_sys \<Rightarrow> peer_id set" where
  "active s = {pid. \<exists>c. seat (sy_conns s c) = Some pid}"

definition roster_ok :: "room_sys \<Rightarrow> bool" where
  "roster_ok s \<longleftrightarrow> alist_good (sy_peers s) \<and> dom (room_peer (sy_peers s)) \<subseteq> active s
     \<and> (\<forall>c pid. seat (sy_conns s c) = Some pid \<longrightarrow> (c, pid) \<in> set (sy_admits s))
     \<and> (distinct (map snd (sy_admits s)) \<longrightarrow> active s \<subseteq> dom (room_peer (sy_peers s)))"

lemma distinct_snd_fst:
  "distinct (map snd xs) \<Longrightarrow> (a, x) \<in> set xs \<Longrightarrow> (b, x) \<in> set xs \<Longrightarrow> a = b"
  by (induction xs) force+

lemma active_same:
  "(\<And>c. seat (sy_conns s' c) = seat (sy_conns s c)) \<Longrightarrow> active s' = active s"
  by (simp add: active_def)

lemma roster_same:
  assumes "roster_ok s" and "sy_peers s' = sy_peers s" and "sy_admits s' = sy_admits s"
    and "\<And>c. seat (sy_conns s' c) = seat (sy_conns s c)"
  shows "roster_ok s'"
  using assms active_same [OF assms(4)] by (simp add: roster_ok_def)

lemma roster_admit:
  assumes "roster_ok s" and c: "seat (sy_conns s c) = None"
  shows "roster_ok (do_admit c pid peer t s)"
proof -
  let ?s = "do_admit c pid peer t s"
  have peers: "sy_peers ?s = put_room_peer pid (peer, t) (sy_peers s)"
    by (simp add: do_admit_def go_def put_room_peer_def)
  have "active ?s = insert pid (active s)"
    using c by (auto simp: do_admit_def active_def go_def) (metis option.distinct(1))
  moreover have "dom (room_peer (sy_peers ?s)) = insert pid (dom (room_peer (sy_peers s)))"
    unfolding peers room_table.look_ins by simp
  moreover have "alist_good (sy_peers ?s)"
    unfolding peers using assms(1) room_table.good_ins by (simp add: roster_ok_def)
  ultimately show ?thesis
    using assms(1) by (auto simp: roster_ok_def do_admit_def go_def)
qed

lemma roster_leave:
  assumes ok: "roster_ok s" and c: "seat (sy_conns s c) = Some pid"
  shows "roster_ok (do_leave c pid s)"
proof -
  let ?s = "do_leave c pid s"
  have conns: "sy_conns ?s = (sy_conns s)(c := Over)" and admits: "sy_admits ?s = sy_admits s"
      and peers: "sy_peers ?s = remove_room_peer pid (sy_peers s)"
    by (simp_all add: do_leave_def go_def)
  have dom: "dom (room_peer (sy_peers ?s)) = dom (room_peer (sy_peers s)) - {pid}"
    unfolding peers room_table.look_del by auto
  have act: "active ?s = {q. \<exists>e. e \<noteq> c \<and> seat (sy_conns s e) = Some q}"
    by (auto simp: active_def conns)
  have "dom (room_peer (sy_peers ?s)) \<subseteq> active ?s"
  proof
    fix q assume "q \<in> dom (room_peer (sy_peers ?s))"
    then have q: "q \<noteq> pid" "q \<in> active s" using dom ok by (auto simp: roster_ok_def)
    then obtain e where "seat (sy_conns s e) = Some q" by (auto simp: active_def)
    with q c show "q \<in> active ?s" unfolding act by force
  qed
  moreover have "active ?s \<subseteq> dom (room_peer (sy_peers ?s))" if d: "distinct (map snd (sy_admits s))"
  proof
    fix q assume "q \<in> active ?s"
    then obtain e where e: "e \<noteq> c" "seat (sy_conns s e) = Some q" unfolding act by blast
    have "q \<in> dom (room_peer (sy_peers s))"
      using ok d e by (auto simp: roster_ok_def active_def)
    moreover have "(c, pid) \<in> set (sy_admits s)" "(e, q) \<in> set (sy_admits s)"
      using ok c e by (auto simp: roster_ok_def)
    then have "q \<noteq> pid" using distinct_snd_fst [OF d] e(1) by blast
    ultimately show "q \<in> dom (room_peer (sy_peers ?s))" using dom by blast
  qed
  moreover have "alist_good (sy_peers ?s)"
    unfolding peers using ok room_table.good_del by (simp add: roster_ok_def)
  ultimately show ?thesis using ok by (auto simp: roster_ok_def conns admits)
qed

lemma roster_step:
  assumes "sys_step K name s s'" and "roster_ok s"
  shows "roster_ok s'"
  using assms(1)
proof cases
  case (s_admit c n d peer t)
  then show ?thesis using roster_admit [OF assms(2)] by simp
next
  case (s_leave c pid)
  then show ?thesis using roster_leave [OF assms(2)] by simp
qed (rule roster_same [OF assms(2)]; auto simp: do_defs split: prod.split bool.split)+

lemma roster_reach: "sys_reach K name s \<Longrightarrow> roster_ok s"
  by (erule sys_reach_invariant, simp add: roster_ok_def active_def room_peer_def fun_eq_iff, erule roster_step, assumption)

section \<open>The order of events\<close>

text \<open>Every message of a peer and every leave comes after a join of that peer.\<close>

fun causal :: "peer_id set \<Rightarrow> chat_event list \<Rightarrow> bool" where
  "causal J [] = True"
| "causal J (PeerJoin i # es) = causal (insert (pi_id i) J) es"
| "causal J (Message pid n t # es) = ((pid = PeerId ''[hub]'' \<or> pid \<in> J) \<and> causal J es)"
| "causal J (PeerLeave pid # es) = (pid \<in> J \<and> causal J es)"
| "causal J (e # es) = causal J es"

definition joined :: "chat_event list \<Rightarrow> peer_id set" where
  "joined es = {pi_id i | i. PeerJoin i \<in> set es}"

lemma joined_simps [simp]:
  "joined [] = {}" "joined (xs @ ys) = joined xs \<union> joined ys"
  "joined (PeerJoin i # es) = insert (pi_id i) (joined es)"
  "joined (Message pid n t # es) = joined es" "joined (PeerLeave pid # es) = joined es"
  by (auto simp: joined_def)

lemma joined_other:
  "(\<forall>i. e \<noteq> PeerJoin i) \<Longrightarrow> joined (e # es) = joined es"
  by (auto simp: joined_def)

lemma causal_append [simp]: "causal J (xs @ ys) \<longleftrightarrow> causal J xs \<and> causal (J \<union> joined xs) ys"
  by (induction J xs rule: causal.induct) (auto simp: joined_other insert_commute)

definition order_ok :: "room_sys \<Rightarrow> bool" where
  "order_ok s \<longleftrightarrow> causal {} (sy_events s)
     \<and> (\<forall>x \<in> set (sy_msgs s). fst x \<in> joined (sy_events s)) \<and> active s \<subseteq> joined (sy_events s)"

lemma order_same:
  assumes "order_ok s" and "sy_events s' = sy_events s" and "sy_msgs s' = sy_msgs s"
    and "\<And>c pid. seat (sy_conns s' c) = Some pid \<Longrightarrow> seat (sy_conns s c) = Some pid"
  shows "order_ok s'"
proof -
  have "active s' \<subseteq> active s" using assms(4) by (auto simp: active_def)
  with assms(1-3) show ?thesis by (auto simp: order_ok_def)
qed

lemma order_step:
  assumes "sys_step K name s s'" and "order_ok s"
  shows "order_ok s'"
  using assms(1)
proof cases
  case (s_admit c n d peer t)
  then show ?thesis using assms(2)
    by (auto simp: order_ok_def active_def do_admit_def go_def split: if_splits)
next
  case (s_read c pid m)
  then have "pid \<in> active s" by (auto simp: active_def intro!: exI [of _ c])
  then show ?thesis using s_read assms(2) by (auto simp: order_ok_def active_def do_read_def)
next
  case (s_leave c pid)
  then have "pid \<in> active s" by (auto simp: active_def intro!: exI [of _ c])
  then show ?thesis using s_leave assms(2)
    by (auto simp: order_ok_def active_def do_leave_def go_def split: if_splits)
next
  case (s_say t)
  then show ?thesis using assms(2) by (auto simp: order_ok_def active_def do_say_def own_event_def)
next
  case (s_take x xs)
  then show ?thesis using assms(2)
    by (auto simp: order_ok_def active_def do_take_def peer_event_def Let_def)
next
  case s_close
  then show ?thesis using assms(2) by (auto simp: order_ok_def active_def do_close_def joined_other)
qed (rule order_same [OF assms(2)]; auto simp: do_defs split: if_splits prod.splits bool.splits)+

lemma startup_causal: "list_all is_startup es \<Longrightarrow> causal J es \<and> joined es = {}"
proof (induction es arbitrary: J)
  case (Cons e es)
  then show ?case by (cases e) (auto simp: joined_other)
qed simp

lemma order_reach: "sys_reach K name s \<Longrightarrow> order_ok s"
  by (erule sys_reach_invariant, simp add: order_ok_def active_def early_def startup_causal,
      erule order_step, assumption)

section \<open>The event channel\<close>

text \<open>
  What is offered is a merge of what gets into the channel and of what is dropped; what got in and
  has not been received is waiting, unless the interface has hung up.
\<close>

definition chan_ok :: "room_sys \<Rightarrow> bool" where
  "chan_ok s \<longleftrightarrow> sy_events s \<in> shuffles (sy_put s) (sy_dropped s)
     \<and> prefix (sy_seen s) (sy_put s) \<and> length (sy_queue s) \<le> EVENT_CHAN_CAP
     \<and> (if sy_gone s then sy_queue s = []
        else sy_put s = sy_seen s @ sy_queue s
          \<and> (length (sy_events s) \<le> EVENT_CHAN_CAP \<longrightarrow> sy_dropped s = []))"

lemma chan_offer:
  assumes "chan_ok s"
  shows "chan_ok (offer e s)"
proof (cases "\<not> sy_gone s \<and> length (sy_queue s) < EVENT_CHAN_CAP")
  case True
  with assms shuffles_snoc_left [of "sy_events s" "sy_put s" "sy_dropped s" e] show ?thesis
    by (auto simp: chan_ok_def offer_def)
next
  case False
  have "EVENT_CHAN_CAP \<le> length (sy_events s)" if "\<not> sy_gone s"
    using False that assms length_shuffles [of "sy_events s" "sy_put s" "sy_dropped s"]
    by (auto simp: chan_ok_def)
  with False assms shuffles_snoc_right [of "sy_events s" "sy_put s" "sy_dropped s" e] show ?thesis
    by (auto simp: chan_ok_def offer_def)
qed

lemma chan_same:
  assumes "chan_ok s" and "sy_events s' = sy_events s" and "sy_put s' = sy_put s"
    and "sy_dropped s' = sy_dropped s" and "sy_seen s' = sy_seen s" and "sy_queue s' = sy_queue s"
    and "sy_gone s' = sy_gone s"
  shows "chan_ok s'"
  using assms by (simp add: chan_ok_def)

lemma chan_fields [simp]:
  "chan_ok (go c ph s) = chan_ok s" "chan_ok (s\<lparr>sy_said := ms\<rparr>) = chan_ok s"
  "chan_ok (s\<lparr>sy_msgs := xs\<rparr>) = chan_ok s" "chan_ok (s\<lparr>sy_ended := b\<rparr>) = chan_ok s"
  "chan_ok (s\<lparr>sy_peers := ps\<rparr>) = chan_ok s" "chan_ok (s\<lparr>sy_admits := ad\<rparr>) = chan_ok s"
  by (simp_all add: chan_ok_def go_def)

lemma chan_step:
  assumes "sys_step K name s s'" and "chan_ok s"
  shows "chan_ok s'"
  using assms(1)
proof cases
  case (s_admit c n d peer t)
  then show ?thesis using assms(2) by (simp add: do_admit_def chan_offer)
next
  case (s_leave c pid)
  then show ?thesis using assms(2) by (simp add: do_leave_def chan_offer)
next
  case (s_say t)
  then show ?thesis using assms(2) by (simp add: do_say_def chan_offer)
next
  case (s_take x xs)
  then show ?thesis using assms(2) by (simp add: do_take_def chan_offer Let_def)
next
  case s_close
  then show ?thesis using assms(2) by (simp add: do_close_def chan_offer)
next
  case (s_see e es)
  then show ?thesis using assms(2) by (auto simp: do_see_def chan_ok_def split: if_splits)
next
  case s_hang_up
  then show ?thesis using assms(2) by (auto simp: do_hang_up_def chan_ok_def)
qed (rule chan_same [OF assms(2)]; simp add: do_defs split: prod.split bool.split)+

lemma chan_reach: "sys_reach K name s \<Longrightarrow> chan_ok s"
  by (erule sys_reach_invariant, simp add: chan_ok_def early_def, erule chan_step, assumption)

text \<open>What is lost from a causal stream does no harm, unless it is a join.\<close>

lemma causal_without:
  assumes "joined ds = {}"
  shows "es \<in> shuffles ps ds \<Longrightarrow> causal J es \<Longrightarrow> causal J ps"
  using assms
proof (induction es arbitrary: J ps ds)
  case (Cons e es)
  from Cons.prems(1) consider (put) ps' where "ps = e # ps'" "es \<in> shuffles ps' ds"
    | (lost) ds' where "ds = e # ds'" "es \<in> shuffles ps ds'"
    by (auto simp: Cons_in_shuffles_iff neq_Nil_conv)
  then show ?case
  proof cases
    case put
    with Cons.IH Cons.prems(2,3) show ?thesis by (cases e) auto
  next
    case lost
    with Cons.prems(3) have "\<forall>i. e \<noteq> PeerJoin i" "joined ds' = {}" by (auto simp: joined_def)
    with Cons.prems(2) have "causal J es" by (cases e) auto
    with Cons.IH [OF lost(2)] \<open>joined ds' = {}\<close> show ?thesis by blast
  qed
qed simp

section \<open>The sequential handler and the steps\<close>

abbreviation sys_steps :: "crates \<Rightarrow> string \<Rightarrow> room_sys \<Rightarrow> room_sys \<Rightarrow> bool" where
  "sys_steps K name \<equiv> (sys_step K name)\<^sup>*\<^sup>*"

lemma reach_steps: "sys_steps K name s s' \<Longrightarrow> sys_reach K name s \<Longrightarrow> sys_reach K name s'"
  by (induction rule: rtranclp_induct) (auto intro: sr_step)

text \<open>The hello is read and the mutex is free.\<close>

lemma greet_steps:
  assumes "sy_conns s c = Fresh" and "sy_lock s = None" and "length buf = HANDSHAKE_LEN"
  shows "sys_steps K name s (do_claim c buf (go c (Greeted buf) s))"
proof -
  have "sys_step K name s (go c (Greeted buf) s)" by (rule s_hello [OF assms(1,3)])
  moreover have "sys_step K name (go c (Greeted buf) s) (do_claim c buf (go c (Greeted buf) s))"
    by (rule s_claim) (simp_all add: go_def assms(2))
  ultimately show ?thesis by (rule converse_rtranclp_into_rtranclp [OF _ r_into_rtranclp])
qed

lemma admit_steps:
  assumes c: "sy_conns s c = Fresh" and free: "sy_lock s = None"
    and hs: "hub_handshake K N (sy_nonces s) [] = (Ready (Inr (pid, peer)), used, h)"
  obtains s' where "sys_steps K name s s'" "sy_nonces s' = used" "sy_lock s' = None"
    "sy_peers s' = register_room_peer pid peer t (sy_peers s)" "sy_conns s' c = Joining pid"
    "c \<notin> sy_stalled s'"
    "sy_events s' = sy_events s @ [PeerJoin \<lparr>pi_id = pid, pi_name = peer, pi_joined_at = t\<rparr>]"
proof -
  obtain buf where buf: "hub_hello N [] = Some buf" "take 16 buf \<notin> sy_nonces s"
      "pid = PeerId (to_base58 K (take 16 (drop 16 buf)))"
    using hub_handshake_admits [OF hs] by blast
  have used: "used = insert (take 16 buf) (sy_nonces s)"
    using hub_handshake_nonces [OF hs] buf(1) by simp
  have len: "length buf = HANDSHAKE_LEN"
    using buf(1) by (auto simp: hub_hello_def split: timed.splits sum.splits if_splits)
  let ?s0 = "go c (Greeted buf) s"
  let ?s1 = "do_claim c buf ?s0"
  let ?s2 = "do_admit c pid peer t ?s1"
  have claim: "claim_nonce (take 16 buf) (sy_nonces s) = (True, used)"
    using buf(2) used by simp
  have c1: "sy_conns ?s1 c = Claimed (take 16 buf) (take 16 (drop 16 buf))"
    by (simp add: do_claim_def claim go_def)
  have "sys_steps K name s ?s1" by (rule greet_steps [OF c free len])
  moreover have "sys_step K name ?s1 ?s2" unfolding buf(3) by (rule s_admit [OF c1])
  ultimately have "sys_steps K name s ?s2" by simp
  then show ?thesis
    by (rule that) (simp_all add: do_admit_def do_claim_def claim go_def free)
qed

text \<open>The rest of a handler: the reader, the subscription, and the end.\<close>

lemma stay_steps:
  assumes "sy_conns s c = Joining pid" and "c \<notin> sy_stalled s"
  shows "sys_steps K name s (do_leave c pid (do_subscribe c pid (go c (Reading pid) s)))"
proof -
  let ?s1 = "go c (Reading pid) s"
  have "sys_step K name s ?s1" by (rule s_spawn [OF assms])
  moreover have "sys_step K name ?s1 (do_subscribe c pid ?s1)"
    by (rule s_subscribe) (simp add: go_def)
  moreover have "sys_step K name (do_subscribe c pid ?s1) (do_leave c pid (do_subscribe c pid ?s1))"
    by (rule s_leave) (simp add: do_subscribe_def go_def)
  ultimately show ?thesis by (meson converse_rtranclp_into_rtranclp rtranclp.rtrancl_refl)
qed

text \<open>A refusal that gets past its last write leaves the mutex free.\<close>

lemma refuse_steps:
  assumes c: "sy_conns s c = Fresh" and free: "sy_lock s = None"
    and hs: "hub_handshake K N (sy_nonces s) [] = (r, used, h)"
  obtains s' where "sys_steps K name s s'" "sy_nonces s' = used" "sy_peers s' = sy_peers s"
    "sy_events s' = sy_events s" "r \<noteq> Elapsed \<longrightarrow> sy_lock s' = None"
proof (cases "hub_hello N []")
  case None
  with hub_handshake_nonces [OF hs] have "used = sy_nonces s" by simp
  with that [of s] free show ?thesis by simp
next
  case (Some buf)
  with hub_handshake_nonces [OF hs] have used: "used = insert (take 16 buf) (sy_nonces s)" by simp
  have len: "length buf = HANDSHAKE_LEN"
    using Some by (auto simp: hub_hello_def split: timed.splits sum.splits if_splits)
  let ?s1 = "do_claim c buf (go c (Greeted buf) s)"
  have 1: "sys_steps K name s ?s1" by (rule greet_steps [OF c free len])
  have f1: "sy_nonces ?s1 = used" "sy_peers ?s1 = sy_peers s" "sy_events ?s1 = sy_events s"
    by (auto simp: do_claim_def claim_nonce_def go_def used insert_absorb)
  show ?thesis
  proof (cases "take 16 buf \<in> sy_nonces s \<and> r \<noteq> Elapsed")
    case True
    then have "sy_conns ?s1 c = Rejecting" "c \<notin> sy_stalled ?s1"
      by (simp_all add: do_claim_def claim_nonce_def go_def)
    from rtranclp.rtrancl_into_rtrancl [OF 1 s_reject [OF this]] show ?thesis
      by (rule that) (simp_all add: f1)
  next
    case False
    show ?thesis
    proof (rule that [OF 1 f1])
      show "r \<noteq> Elapsed \<longrightarrow> sy_lock ?s1 = None"
        using False free by (auto simp: do_claim_def claim_nonce_def go_def)
    qed
  qed
qed

text \<open>The undisturbed entry of a connection that presents a fresh nonce, for building runs.\<close>

definition admitted :: "crates \<Rightarrow> nat \<Rightarrow> nonce \<Rightarrow> bytes \<Rightarrow> string \<Rightarrow> nat \<Rightarrow> room_sys \<Rightarrow> room_sys" where
  "admitted K c n d peer t s =
     do_admit c (PeerId (to_base58 K d)) peer t
       (do_claim c (n @ d) (go c (Greeted (n @ d)) (go c Fresh s)))"

definition entered :: "crates \<Rightarrow> nat \<Rightarrow> nonce \<Rightarrow> bytes \<Rightarrow> string \<Rightarrow> nat \<Rightarrow> room_sys \<Rightarrow> room_sys" where
  "entered K c n d peer t s = (let pid = PeerId (to_base58 K d) in
     do_subscribe c pid (go c (Reading pid) (admitted K c n d peer t s)))"

definition can_enter :: "room_sys \<Rightarrow> nat \<Rightarrow> nonce \<Rightarrow> bytes \<Rightarrow> bool" where
  "can_enter s c n d \<longleftrightarrow> sy_conns s c = Idle \<and> sy_lock s = None \<and> \<not> sy_quit s
     \<and> length n = 16 \<and> length d = 16 \<and> n \<notin> sy_nonces s"

lemma can_enter_init: "can_enter sys_init c n d \<longleftrightarrow> length n = 16 \<and> length d = 16"
  by (simp add: can_enter_def)

lemma admitted_simps:
  assumes "can_enter s c n d"
  shows "admitted K c n d peer t s = offer
      (PeerJoin \<lparr>pi_id = PeerId (to_base58 K d), pi_name = peer, pi_joined_at = t\<rparr>)
      (s\<lparr>sy_nonces := insert n (sy_nonces s),
         sy_peers := register_room_peer (PeerId (to_base58 K d)) peer t (sy_peers s),
         sy_conns := (sy_conns s)(c := Joining (PeerId (to_base58 K d))),
         sy_stalled := sy_stalled s - {c},
         sy_claims := sy_claims s @ [(c, n)], sy_admits := sy_admits s @ [(c, PeerId (to_base58 K d))]\<rparr>)"
  using assms
  by (simp add: can_enter_def admitted_def do_admit_def do_claim_def claim_nonce_def go_def offer_def)

lemma entered_simps:
  assumes "can_enter s c n d"
  shows "entered K c n d peer t s = (admitted K c n d peer t s)\<lparr>
      sy_conns := (sy_conns s)(c := Active (PeerId (to_base58 K d))),
      sy_pos := (sy_pos s)(c := length (sy_said s)),
      sy_start := (sy_start s)(c := length (sy_said s)), sy_got := (sy_got s)(c := [])\<rparr>"
  using assms by (simp add: entered_def admitted_simps do_subscribe_def go_def Let_def)

lemma reach_admitted:
  assumes "sys_reach K name s" and "can_enter s c n d"
  shows "sys_reach K name (admitted K c n d peer t s)"
proof -
  have "sys_reach K name (go c Fresh s)"
    by (rule sr_step [OF assms(1) s_connect]) (use assms(2) in \<open>simp_all add: can_enter_def\<close>)
  then have "sys_reach K name (go c (Greeted (n @ d)) (go c Fresh s))"
    by (rule sr_step [OF _ s_hello])
       (use assms(2) in \<open>simp_all add: go_def HANDSHAKE_LEN_def can_enter_def\<close>)
  then have 1: "sys_reach K name (do_claim c (n @ d) (go c (Greeted (n @ d)) (go c Fresh s)))"
    by (rule sr_step [OF _ s_claim]) (use assms(2) in \<open>simp_all add: go_def can_enter_def\<close>)
  show ?thesis unfolding admitted_def
    by (rule sr_step [OF 1 s_admit [of _ c n d]])
       (use assms(2) in \<open>simp add: do_claim_def claim_nonce_def go_def can_enter_def\<close>)
qed

lemma reach_entered:
  assumes "sys_reach K name s" and "can_enter s c n d"
  shows "sys_reach K name (entered K c n d peer t s)"
  unfolding entered_def Let_def
proof (rule sr_step [OF sr_step [OF reach_admitted [OF assms] s_spawn] s_subscribe])
  show "sy_conns (admitted K c n d peer t s) c = Joining (PeerId (to_base58 K d))"
      "c \<notin> sy_stalled (admitted K c n d peer t s)"
    using admitted_simps [OF assms(2)] by simp_all
qed (simp add: go_def)

section \<open>Properties\<close>

text \<open>
  C2. Under any interleaving of any number of connections no nonce is claimed twice, and the set
  of used nonces is exactly the set of the nonces claimed so far.
\<close>

theorem interleaved_single_use:
  assumes "sys_reach K name s"
  shows "distinct (map snd (sy_claims s)) \<and> sy_nonces s = set (map snd (sy_claims s))"
  using nonces_ok_reach [OF assms] by (simp add: nonces_ok_def)

theorem interleaved_single_use_witness:
  "\<exists>s. sys_reach sample_crates ''h'' s \<and> sy_claims s = [(0, demo_nonce)] \<and> sy_nonces s = {demo_nonce}"
proof -
  let ?s = "admitted sample_crates 0 demo_nonce demo_disc ''al'' 1 sys_init"
  have e: "can_enter sys_init 0 demo_nonce demo_disc" by (simp add: can_enter_init)
  have s: "sys_reach sample_crates ''h'' ?s" by (rule reach_admitted [OF sr_init e])
  have "sy_claims ?s = [(0, demo_nonce)]" using admitted_simps [OF e] by (simp)
  with interleaved_single_use [OF s] s show ?thesis by auto
qed

text \<open>
  C12. The peer map under any interleaving: it lists no identifier twice and only identifiers of
  connections that are active now; and as long as no identifier has been admitted twice it lists
  all of them.
\<close>

theorem roster_matches_connections:
  assumes "sys_reach K name s"
  shows "distinct (map fst (sy_peers s)) \<and> dom (room_peer (sy_peers s)) \<subseteq> active s
    \<and> (distinct (map snd (sy_admits s)) \<longrightarrow> dom (room_peer (sy_peers s)) = active s)"
  using roster_reach [OF assms] room_table.ids_distinct [of "sy_peers s"]
  by (auto simp: roster_ok_def)

theorem roster_matches_connections_witness:
  "\<exists>s. sys_reach sample_crates ''h'' s
     \<and> dom (room_peer (sy_peers s)) = {PeerId (to_base58 sample_crates demo_disc)}
     \<and> dom (room_peer (sy_peers s)) = active s"
proof -
  let ?s = "entered sample_crates 0 demo_nonce demo_disc ''al'' 1 sys_init"
  have e: "can_enter sys_init 0 demo_nonce demo_disc" by (simp add: can_enter_init)
  have s: "sys_reach sample_crates ''h'' ?s" by (rule reach_entered [OF sr_init e])
  have "distinct (map snd (sy_admits ?s))"
      "active ?s = {PeerId (to_base58 sample_crates demo_disc)}"
    by (simp_all add: entered_simps [OF e] admitted_simps [OF e] active_def)
  with roster_matches_connections [OF s] s show ?thesis by blast
qed

text \<open>
  C34. The identifier is the joiner's choice, and nothing checks it: two connections that present
  different nonces and the same discriminator are both admitted, under one identifier with one
  entry, and when one of them leaves the other stays active without an entry.
\<close>

theorem identifier_collision:
  assumes "length (n1 :: nonce) = 16" and "length n2 = 16" and "n1 \<noteq> n2" and "length d = 16"
  shows "\<exists>s. sys_reach K name s \<and> sy_conns s 1 = Active (PeerId (to_base58 K d))
    \<and> sy_peers s = [] \<and> sy_admits s = [(0, PeerId (to_base58 K d)), (1, PeerId (to_base58 K d))]"
proof -
  let ?pid = "PeerId (to_base58 K d)"
  let ?s1 = "entered K 0 n1 d ''a'' 1 sys_init"
  let ?s2 = "entered K (Suc 0) n2 d ''b'' 2 ?s1"
  have e1: "can_enter sys_init 0 n1 d" using assms by (simp add: can_enter_init)
  note f1 = entered_simps [OF e1] admitted_simps [OF e1]
  have e2: "can_enter ?s1 (Suc 0) n2 d" using assms by (simp add: can_enter_def f1)
  note f2 = entered_simps [OF e2] admitted_simps [OF e2]
  have "sys_reach K name ?s2" by (rule reach_entered [OF reach_entered [OF sr_init e1] e2])
  moreover have f: "sy_conns ?s2 0 = Active ?pid" "sy_conns ?s2 1 = Active ?pid"
      "sy_admits ?s2 = [(0, ?pid), (1, ?pid)]"
      "sy_peers ?s2 = register_room_peer ?pid ''b'' 2 (register_room_peer ?pid ''a'' 1 [])"
    unfolding f2 by (simp_all add: f1)
  ultimately have "sys_reach K name (do_leave 0 ?pid ?s2)"
    by (blast intro: sr_step s_leave)
  moreover have "sy_conns (do_leave 0 ?pid ?s2) 1 = Active ?pid" "sy_peers (do_leave 0 ?pid ?s2) = []"
      "sy_admits (do_leave 0 ?pid ?s2) = [(0, ?pid), (1, ?pid)]"
    using f by (simp_all add: do_leave_def go_def register_room_peer_def remove_room_peer_def
      AList.delete_eq)
  ultimately show ?thesis by blast
qed

theorem identifier_collision_witness:
  "\<exists>s. sys_reach sample_crates ''h'' s
    \<and> sy_conns s 1 = Active (PeerId (to_base58 sample_crates demo_disc)) \<and> sy_peers s = []"
  using identifier_collision [of "replicate 16 1" "replicate 16 2" demo_disc sample_crates "''h''"]
  by auto

text \<open>
  C14. The events of a room tell a causal story under any interleaving: among the events offered
  every message of a peer and every leave comes after a join of that peer; and so it does among
  the events that the interface receives, as long as no join has been dropped for want of a
  place in the event channel, and in any case as long as no more than 256 events have been offered
  and the interface has not hung up.
\<close>

theorem events_causal:
  assumes "sys_reach K name s"
  shows "causal {} (sy_events s) \<and> ((\<forall>i. PeerJoin i \<notin> set (sy_dropped s)) \<longrightarrow> causal {} (sy_seen s))
    \<and> (length (sy_events s) \<le> 256 \<and> \<not> sy_gone s \<longrightarrow> causal {} (sy_seen s))"
proof -
  have c: "causal {} (sy_events s)" using order_reach [OF assms] by (simp add: order_ok_def)
  have ok: "chan_ok s" by (rule chan_reach [OF assms])
  have seen: "causal {} (sy_seen s)" if "\<forall>i. PeerJoin i \<notin> set (sy_dropped s)"
  proof -
    have "joined (sy_dropped s) = {}" using that by (auto simp: joined_def)
    with c ok have "causal {} (sy_put s)" using causal_without by (auto simp: chan_ok_def)
    with ok show ?thesis by (auto simp: chan_ok_def prefix_def)
  qed
  moreover have "sy_dropped s = []" if "length (sy_events s) \<le> 256 \<and> \<not> sy_gone s"
    using ok that by (auto simp: chan_ok_def EVENT_CHAN_CAP_def)
  ultimately show ?thesis using c by auto
qed

text \<open>A run of events received one after the other.\<close>

lemma see_all:
  "sy_queue s = xs @ ys \<Longrightarrow> sys_steps K name s (s\<lparr>sy_queue := ys, sy_seen := sy_seen s @ xs\<rparr>)"
proof (induction xs arbitrary: s)
  case (Cons x xs)
  have "sys_step K name s (do_see x (xs @ ys) s)" by (rule s_see) (use Cons.prems in simp)
  moreover have "sys_steps K name (do_see x (xs @ ys) s)
      (s\<lparr>sy_queue := ys, sy_seen := sy_seen s @ x # xs\<rparr>)"
    using Cons.IH [of "do_see x (xs @ ys) s"] by (simp add: do_see_def)
  ultimately show ?case by (rule converse_rtranclp_into_rtranclp)
next
  case Nil
  then have "s = s\<lparr>sy_queue := ys, sy_seen := sy_seen s @ []\<rparr>" by simp
  then show ?case by (metis rtranclp.rtrancl_refl)
qed

theorem events_causal_witness:
  "\<exists>s. sys_reach sample_crates ''h'' s \<and> length (sy_seen s) = 2 \<and> causal {} (sy_seen s)"
proof -
  let ?pid = "PeerId (to_base58 sample_crates demo_disc)"
  let ?s = "do_leave 0 ?pid (entered sample_crates 0 demo_nonce demo_disc ''al'' 1 sys_init)"
  let ?t = "?s\<lparr>sy_queue := [], sy_seen := sy_seen ?s @ sy_queue ?s\<rparr>"
  have e: "can_enter sys_init 0 demo_nonce demo_disc" by (simp add: can_enter_init)
  note f = entered_simps [OF e] admitted_simps [OF e]
  have "sys_reach sample_crates ''h'' ?s"
    by (rule sr_step [OF reach_entered [OF sr_init e] s_leave]) (simp add: f)
  then have t: "sys_reach sample_crates ''h'' ?t"
    by (rule reach_steps [OF see_all, rotated]) simp
  have "length (sy_seen ?t) = 2" "length (sy_events ?t) = 2" "\<not> sy_gone ?t"
    by (simp_all add: do_leave_def go_def f offer_def EVENT_CHAN_CAP_def)
  with events_causal [OF t] t show ?thesis by auto
qed

text \<open>
  When a join is dropped the interface can be shown the messages of a peer that it never heard of:
  256 texts of the host that the interface has not taken fill the channel, a peer is admitted, and
  sends a message when the interface has caught up.
\<close>

lemma say_many:
  "n \<le> EVENT_CHAN_CAP \<Longrightarrow> \<exists>s. sys_reach K name s
    \<and> sy_queue s = replicate n (own_event name t) \<and> sy_seen s = [] \<and> \<not> sy_gone s
    \<and> sy_conns s = (\<lambda>_. Idle) \<and> sy_lock s = None \<and> sy_nonces s = {} \<and> sy_msgs s = []
    \<and> \<not> sy_quit s \<and> \<not> sy_ended s"
proof (induction n)
  case 0
  show ?case by (rule exI [of _ sys_init]) (simp add: sr_init)
next
  case (Suc n)
  then obtain s where s: "sys_reach K name s" "sy_queue s = replicate n (own_event name t)"
      "sy_seen s = []" "\<not> sy_gone s" "sy_conns s = (\<lambda>_. Idle)" "sy_lock s = None" "sy_nonces s = {}"
      "sy_msgs s = []" "\<not> sy_quit s" "\<not> sy_ended s" by auto
  have "sys_reach K name (do_say name t s)" by (rule sr_step [OF s(1) s_say [OF s(9)]])
  then show ?case using s Suc.prems
    by (intro exI [of _ "do_say name t s"]) (simp add: do_say_def offer_def replicate_append_same)
qed

theorem dropped_join:
  assumes "length (n :: nonce) = 16" and "length (d :: bytes) = 16" and "wm_kind m = Chat"
  shows "\<exists>s. sys_reach K name s \<and> peer_event (PeerId (to_base58 K d), m) \<in> set (sy_seen s)
    \<and> (\<forall>i. PeerJoin i \<notin> set (sy_seen s @ sy_queue s)) \<and> \<not> sy_gone s"
proof -
  let ?pid = "PeerId (to_base58 K d)"
  obtain a where a: "sys_reach K name a" "sy_queue a = replicate EVENT_CHAN_CAP (own_event name ''x'')"
      "sy_seen a = []" "\<not> sy_gone a" "sy_conns a = (\<lambda>_. Idle)" "sy_lock a = None" "sy_nonces a = {}"
      "sy_msgs a = []" "\<not> sy_quit a" "\<not> sy_ended a"
    using say_many [of EVENT_CHAN_CAP K name "''x''"] by auto
  have e: "can_enter a 0 n d" using a assms by (simp add: can_enter_def)
  let ?b = "entered K 0 n d ''al'' 0 a"
  let ?c = "?b\<lparr>sy_queue := [], sy_seen := sy_seen ?b @ sy_queue ?b\<rparr>"
  let ?d = "do_take (?pid, m) [] (do_read 0 ?pid m ?c)"
  let ?e = "?d\<lparr>sy_queue := [], sy_seen := sy_seen ?d @ sy_queue ?d\<rparr>"
  have f: "sy_conns ?b 0 = Active ?pid" "sy_msgs ?b = []" "\<not> sy_ended ?b" "\<not> sy_quit ?b" "\<not> sy_gone ?b"
      "sy_seen ?b = []" "sy_queue ?b = replicate EVENT_CHAN_CAP (own_event name ''x'')"
    using a by (simp_all add: entered_simps [OF e] admitted_simps [OF e]) (simp add: offer_def)
  have "sys_reach K name ?b" by (rule reach_entered [OF a(1) e])
  then have "sys_reach K name ?c" by (rule reach_steps [OF see_all, rotated]) simp
  then have "sys_reach K name (do_read 0 ?pid m ?c)"
    by (rule sr_step [OF _ s_read]) (simp_all add: f assms MSG_CHAN_CAP_def)
  then have "sys_reach K name ?d"
    by (rule sr_step [OF _ s_take]) (simp_all add: f do_read_def)
  then have "sys_reach K name ?e" by (rule reach_steps [OF see_all, rotated]) simp
  moreover have "sy_seen ?e = replicate EVENT_CHAN_CAP (own_event name ''x'') @ [peer_event (?pid, m)]"
    by (simp add: do_take_def do_read_def f assms offer_def EVENT_CHAN_CAP_def)
  moreover have "sy_queue ?e = []" "\<not> sy_gone ?e"
    by (simp_all add: do_take_def do_read_def f Let_def)
  ultimately show ?thesis
    by (intro exI [of _ ?e]) (simp add: own_event_def peer_event_def)
qed

text \<open>
  C8. The handler of a connection refines the step relation: whatever its stream does, a run of
  the handler that is not disturbed by other tasks is a sequence of steps from the same nonces and
  peers to the same nonces and peers, and offers the same events. It starts with the nonce mutex
  free, and when it returns the mutex is free again.
\<close>

theorem handler_refines_steps:
  assumes c: "sy_conns s c = Fresh" and free: "sy_lock s = None"
    and run: "handle_hub_connection K N t over id (sy_nonces s) (sy_peers s) = (r, used, peers, h)"
  shows "\<exists>s'. sys_steps K name s s' \<and> sy_nonces s' = used \<and> sy_peers s' = peers
    \<and> sy_events s' = sy_events s @ events_of (offers h) \<and> (r \<noteq> None \<longrightarrow> sy_lock s' = None)"
proof -
  obtain x used1 peers1 h1 where
    ad: "admit_peer K N t (sy_nonces s) (sy_peers s) = (x, used1, peers1, h1)"
    by (cases "admit_peer K N t (sy_nonces s) (sy_peers s)") auto
  from ad show ?thesis
  proof (cases rule: admit_peer_cases)
    case no
    then have same: "used = used1" "peers = sy_peers s" "offers h = []" "r \<noteq> None \<Longrightarrow> x \<noteq> Elapsed"
      using run ad by (cases x rule: is_admitted.cases; simp add: handle_hub_connection_def)+
    obtain r0 h0 where "hub_handshake K N (sy_nonces s) [] = (r0, used1, h0)"
        and r0: "r0 = Elapsed \<longleftrightarrow> x = Elapsed"
      using no(4) by blast
    from refuse_steps [where name = name, OF c free this(1)] obtain s' where "sys_steps K name s s'"
        "sy_nonces s' = used1" "sy_peers s' = sy_peers s" "sy_events s' = sy_events s"
        "r0 \<noteq> Elapsed \<longrightarrow> sy_lock s' = None" .
    with same r0 show ?thesis by (intro exI [of _ s']) auto
  next
    case (yes pid peer h0)
    obtain s1 where s1: "sys_steps K name s s1" "sy_nonces s1 = used1" "sy_lock s1 = None"
        "sy_peers s1 = register_room_peer pid peer t (sy_peers s)" "sy_conns s1 c = Joining pid"
        "c \<notin> sy_stalled s1" "sy_events s1 = sy_events s @ [PeerJoin \<lparr>pi_id = pid, pi_name = peer, pi_joined_at = t\<rparr>]"
      using admit_steps [OF c free yes(1)] .
    show ?thesis
    proof (cases "x = Ready (Inr (pid, peer)) \<and> over")
      case True
      then have "used = used1" "peers = remove_room_peer pid peers1"
          "offers h = offers h1 @ [ToEvents (PeerLeave pid)]"
        using run ad by (simp_all add: handle_hub_connection_def dismiss_peer_def try_send_snd) auto
      moreover have "sys_steps K name s1 (do_leave c pid (do_subscribe c pid (go c (Reading pid) s1)))"
        by (rule stay_steps [OF s1(5,6)])
      with s1(1) have "sys_steps K name s (do_leave c pid (do_subscribe c pid (go c (Reading pid) s1)))"
        by (rule rtranclp_trans)
      ultimately show ?thesis using s1 yes
        by (intro exI [of _ "do_leave c pid (do_subscribe c pid (go c (Reading pid) s1))"])
           (simp add: do_leave_def do_subscribe_def go_def)
    next
      case False
      then have "used = used1" "peers = peers1" "h = h1"
        using run ad yes(2) by (auto simp: handle_hub_connection_def)
      with s1 yes show ?thesis by (intro exI [of _ s1]) simp
    qed
  qed
qed

theorem handler_refines_steps_witness:
  "\<exists>r used peers h s'. handle_hub_connection sample_crates (mem_net []) 1 True id {} []
      = (r, used, peers, h)
    \<and> sys_steps sample_crates ''h'' (go 0 Fresh sys_init) s' \<and> sy_nonces s' = used
    \<and> sy_peers s' = peers"
proof -
  let ?s = "go 0 Fresh sys_init"
  have s: "sy_conns ?s 0 = Fresh" "sy_lock ?s = None" "sy_nonces ?s = {}" "sy_peers ?s = []"
    by (simp_all add: go_def)
  obtain r used peers h where run: "handle_hub_connection sample_crates (mem_net []) 1 True id {} []
      = (r, used, peers, h)"
    by (cases "handle_hub_connection sample_crates (mem_net []) 1 True id {} []") auto
  from handler_refines_steps [OF s(1,2), unfolded s(3,4), OF run] run show ?thesis by blast
qed

text \<open>
  C32. A replayed hello can stop the admissions of a room that has not been quit. Whoever sees a free mutex and knows a
  used nonce (every guest knows its own) can connect and present it with any discriminator; from
  then on, until its one-byte refusal has been written, which nothing times out, no nonce is
  claimed and no other connection that has not claimed one yet gets past the handshake.
\<close>

theorem replay_blocks_room:
  assumes "sys_reach K name s" and "sy_conns s c = Idle" and "sy_lock s = None"
    and "n \<in> sy_nonces s" and "length n = 16" and "length (d :: bytes) = 16"
    and "\<not> sy_quit s"
  shows "\<exists>s1. sys_steps K name s s1 \<and> sy_conns s1 c = Rejecting
    \<and> (\<forall>s2. (held_step K name c)\<^sup>*\<^sup>* s1 s2 \<longrightarrow> no_claims c s s2)"
proof -
  let ?s0 = "go c Fresh s"
  let ?s1 = "do_claim c (n @ d) (go c (Greeted (n @ d)) ?s0)"
  have 0: "sys_step K name s ?s0" by (rule s_connect [OF assms(2) assms(7)])
  have "sys_steps K name ?s0 ?s1"
    by (rule greet_steps) (simp_all add: go_def HANDSHAKE_LEN_def assms)
  with 0 have 1: "sys_steps K name s ?s1" by (rule converse_rtranclp_into_rtranclp)
  have c: "sy_conns ?s1 c = Rejecting" and s: "no_claims c s ?s1"
    using assms by (simp_all add: do_claim_def claim_nonce_def go_def no_claims_def)
  have ok: "lock_ok ?s1" by (rule lock_ok_reach [OF reach_steps [OF 1 assms(1)]])
  have "no_claims c s s2" if "(held_step K name c)\<^sup>*\<^sup>* ?s1 s2" for s2
    using no_claims_trans [OF s] held_steps_no_claims [OF that ok c] by blast
  then show ?thesis using c 1 by blast
qed

theorem replay_blocks_room_witness:
  "\<exists>s s1. sys_reach sample_crates ''h'' s \<and> sy_claims s = [(0, demo_nonce)]
    \<and> sys_steps sample_crates ''h'' s s1 \<and> sy_conns s1 1 = Rejecting
    \<and> (\<forall>s2. (held_step sample_crates ''h'' 1)\<^sup>*\<^sup>* s1 s2 \<longrightarrow> no_claims 1 s s2)"
proof -
  let ?s = "admitted sample_crates 0 demo_nonce demo_disc ''al'' 1 sys_init"
  have e: "can_enter sys_init 0 demo_nonce demo_disc" by (simp add: can_enter_init)
  note f = admitted_simps [OF e]
  have s: "sys_reach sample_crates ''h'' ?s" by (rule reach_admitted [OF sr_init e])
  have h: "sy_conns ?s 1 = Idle" "sy_lock ?s = None" "demo_nonce \<in> sy_nonces ?s"
      "length demo_nonce = 16" "length demo_disc = 16" "\<not> sy_quit ?s"
      and c: "sy_claims ?s = [(0, demo_nonce)]"
    by (simp_all add: f)
  from replay_blocks_room [OF s h] s c show ?thesis by blast
qed

end
