(* ===== verification/Room_Delivery.thy ===== *)
theory Room_Delivery
  imports Room_System
begin

text \<open>
  What a hosted room delivers, and how it ends, over the step relation of \<open>Room_System\<close>: the way of a
  peer's message through the channel to the events of the host, the way of the host's text through
  the broadcast to the writer of each connection, the main loop as a refinement of the steps, and
  the winding down after a quit.
\<close>

section \<open>From the readers to the events\<close>

text \<open>The events that stand for a text somebody said, and the event of a text of the host's user.\<close>

fun is_spoken :: "chat_event \<Rightarrow> bool" where
  "is_spoken (Message pid name txt) = True"
| "is_spoken e = False"

definition said_event :: "wire_message \<Rightarrow> chat_event" where
  "said_event m = Message (PeerId ''[hub]'') (wm_name m) (wm_text m)"

lemma said_event_chat [simp]: "said_event (wire_chat name t) = own_event name t"
  by (simp add: said_event_def own_event_def wire_chat_def)

lemma spoken_events [simp]: "is_spoken (own_event name t)" "is_spoken (peer_event x)"
  by (simp_all add: own_event_def peer_event_def)

lemma startup_silent: "list_all is_startup es \<Longrightarrow> filter is_spoken es = [] \<and> RoomClosed \<notin> set es"
proof (induction es)
  case (Cons e es)
  then show ?case by (cases e) auto
qed simp

definition delivery_ok :: "room_sys \<Rightarrow> bool" where
  "delivery_ok s \<longleftrightarrow> (\<exists>taken. map snd (sy_reads s) = taken @ sy_msgs s
       \<and> filter is_spoken (sy_events s)
         \<in> shuffles (map said_event (sy_said s)) (map peer_event (filter is_chat taken)))
     \<and> length (sy_msgs s) \<le> MSG_CHAN_CAP
     \<and> (\<forall>c pid m. (c, pid, m) \<in> set (sy_reads s) \<longrightarrow> wm_kind m \<noteq> Ping \<and> (c, pid) \<in> set (sy_admits s))"

lemma delivery_same:
  assumes "delivery_ok s" and "sy_reads s' = sy_reads s" and "sy_msgs s' = sy_msgs s"
    and "sy_said s' = sy_said s" and "filter is_spoken (sy_events s') = filter is_spoken (sy_events s)"
    and "set (sy_admits s) \<subseteq> set (sy_admits s')"
  shows "delivery_ok s'"
  using assms unfolding delivery_ok_def by auto

lemma delivery_step:
  assumes "sys_step K name s s'" and "delivery_ok s \<and> roster_ok s"
  shows "delivery_ok s' \<and> roster_ok s'"
proof -
  obtain taken where taken: "map snd (sy_reads s) = taken @ sy_msgs s"
      "filter is_spoken (sy_events s)
         \<in> shuffles (map said_event (sy_said s)) (map peer_event (filter is_chat taken))"
    using assms(2) unfolding delivery_ok_def by blast
  have ok: "delivery_ok s" and rest: "length (sy_msgs s) \<le> MSG_CHAN_CAP"
      "\<forall>c pid m. (c, pid, m) \<in> set (sy_reads s) \<longrightarrow> wm_kind m \<noteq> Ping \<and> (c, pid) \<in> set (sy_admits s)"
    using assms(2) unfolding delivery_ok_def by blast+
  from assms(1) have "delivery_ok s'"
  proof cases
    case (s_read c pid m)
    then have "(c, pid) \<in> set (sy_admits s)"
      using assms(2) unfolding roster_ok_def by (metis seat.simps(2,3))
    with s_read taken rest show ?thesis
      unfolding delivery_ok_def do_read_def by (intro conjI exI [of _ taken]) auto
  next
    case (s_say t)
    then show ?thesis
      using taken(1) shuffles_snoc_left [OF taken(2), of "own_event name t"] rest
      unfolding delivery_ok_def do_say_def by (intro conjI exI [of _ taken]) auto
  next
    case (s_take x xs)
    then show ?thesis
      using taken(1) taken(2) shuffles_snoc_right [OF taken(2), of "peer_event x"] rest
      unfolding delivery_ok_def do_take_def Let_def
      by (intro conjI exI [of _ "taken @ [x]"]) auto
  qed (rule delivery_same [OF ok]; auto simp: do_defs split: prod.split bool.split)+
  with roster_step [OF assms(1)] assms(2) show ?thesis by blast
qed

lemma delivery_reach:
  assumes "sys_reach K name s"
  shows "delivery_ok s \<and> roster_ok s"
proof (rule sys_reach_invariant [OF assms])
  fix es assume "early es"
  then show "delivery_ok (sys_start es) \<and> roster_ok (sys_start es)"
    using roster_reach [OF sr_start, of es] startup_silent by (simp add: delivery_ok_def early_def)
qed (rule delivery_step)

section \<open>From the broadcast to the writers\<close>

lemma received_append [simp]: "received (xs @ ys) = received xs @ received ys"
  by (induction xs rule: received.induct) auto

lemma skipped_append [simp]: "skipped (xs @ ys) = skipped xs + skipped ys"
  by (induction xs rule: skipped.induct) auto

abbreviation consumed :: "wire_recv list \<Rightarrow> nat" where
  "consumed rs \<equiv> length (received rs) + skipped rs"

lemma yields_more: "yields ms rs \<Longrightarrow> WireClosed \<notin> set rs \<Longrightarrow> yields (ms @ xs) rs"
  by (induction ms rs rule: yields.induct) (auto split: list.splits)

lemma yields_msg:
  "yields ms rs \<Longrightarrow> WireClosed \<notin> set rs \<Longrightarrow> consumed rs < length ms \<Longrightarrow>
   yields ms (rs @ [WireMsg (ms ! consumed rs)])"
  by (induction ms rs rule: yields.induct) (auto split: list.splits simp: ac_simps)

lemma yields_lag:
  "yields ms rs \<Longrightarrow> WireClosed \<notin> set rs \<Longrightarrow> 0 < k \<Longrightarrow> consumed rs + k \<le> length ms \<Longrightarrow>
   yields ms (rs @ [WireLagged k])"
  by (induction ms rs rule: yields.induct) (auto split: list.splits)

text \<open>The subscription of a connection, and what it has consumed.\<close>

definition sent_to :: "nat \<Rightarrow> room_sys \<Rightarrow> wire_message list" where
  "sent_to c s = drop (sy_start s c) (sy_said s)"

definition recv_ok :: "nat \<Rightarrow> room_sys \<Rightarrow> bool" where
  "recv_ok c s \<longleftrightarrow> yields (sent_to c s) (sy_got s c) \<and> WireClosed \<notin> set (sy_got s c)
     \<and> sy_pos s c = sy_start s c + consumed (sy_got s c) \<and> sy_pos s c \<le> length (sy_said s)
     \<and> (length (sent_to c s) \<le> BROADCAST_CHAN_CAP \<longrightarrow> skipped (sy_got s c) = 0)"

lemma recv_same:
  assumes "recv_ok c s" and "sy_said s' = sy_said s" and "sy_start s' c = sy_start s c"
    and "sy_got s' c = sy_got s c" and "sy_pos s' c = sy_pos s c"
  shows "recv_ok c s'"
  using assms by (simp add: recv_ok_def sent_to_def)

lemma recv_say:
  assumes "recv_ok c s"
  shows "recv_ok c (do_say name t s)"
  using assms yields_more [of "sent_to c s" "sy_got s c" "[wire_chat name t]"]
  by (auto simp: recv_ok_def sent_to_def do_say_def)

lemma recv_subscribe: "recv_ok c (do_subscribe c pid s)"
  by (simp add: recv_ok_def sent_to_def do_subscribe_def go_def)

lemma recv_recv:
  assumes ok: "recv_ok c s" and waiting: "sy_pos s c < length (sy_said s)"
  shows "recv_ok c (do_recv c s)"
proof -
  let ?ms = "sent_to c s" and ?rs = "sy_got s c"
  have y: "yields ?ms ?rs" "WireClosed \<notin> set ?rs" and pos: "sy_pos s c = sy_start s c + consumed ?rs"
      and none: "length ?ms \<le> BROADCAST_CHAN_CAP \<longrightarrow> skipped ?rs = 0"
    using ok by (simp_all add: recv_ok_def)
  have len: "length ?ms = length (sy_said s) - sy_start s c" by (simp add: sent_to_def)
  show ?thesis
  proof (cases "BROADCAST_CHAN_CAP < length (sy_said s) - sy_pos s c")
    case True
    let ?k = "length (sy_said s) - BROADCAST_CHAN_CAP - sy_pos s c"
    have "yields ?ms (?rs @ [WireLagged ?k])"
      by (rule yields_lag [OF y]) (use True pos len in auto)
    then show ?thesis
      using True pos y(2) len by (auto simp: recv_ok_def sent_to_def do_recv_def recv_from_def)
  next
    case False
    have "consumed ?rs < length ?ms" using pos waiting len by linarith
    moreover have "?ms ! consumed ?rs = sy_said s ! sy_pos s c"
      using pos waiting by (simp add: sent_to_def)
    ultimately have "yields ?ms (?rs @ [WireMsg (sy_said s ! sy_pos s c)])"
      using yields_msg [OF y] by simp
    then show ?thesis
      using False pos y(2) none waiting by (auto simp: recv_ok_def sent_to_def do_recv_def recv_from_def)
  qed
qed

definition broadcast_ok :: "room_sys \<Rightarrow> bool" where
  "broadcast_ok s \<longleftrightarrow> (\<forall>c pid. sy_conns s c = Active pid \<longrightarrow> recv_ok c s)"

lemma broadcast_step:
  assumes "sys_step K name s s'" and "broadcast_ok s"
  shows "broadcast_ok s'"
  unfolding broadcast_ok_def
proof (intro allI impI)
  fix c pid assume act: "sy_conns s' c = Active pid"
  have ok: "recv_ok c s" if "sy_conns s c = Active pid"
    using that assms(2) by (simp add: broadcast_ok_def)
  from assms(1) show "recv_ok c s'"
  proof cases
    case (s_subscribe e pid')
    then show ?thesis
      using act ok recv_subscribe [of c pid s]
      by (cases "e = c") (auto simp: do_subscribe_def go_def intro: recv_same)
  next
    case (s_recv e pid')
    then show ?thesis
      using act ok recv_recv [of c s]
      by (cases "e = c") (auto simp: do_recv_def split: prod.splits intro: recv_same)
  next
    case (s_say t)
    with act ok recv_say show ?thesis by (simp add: do_say_def)
  qed (rule recv_same [OF ok]; use act in \<open>auto simp: do_defs split: prod.splits bool.splits if_splits\<close>)+
qed

lemma broadcast_reach: "sys_reach K name s \<Longrightarrow> broadcast_ok s"
  by (erule sys_reach_invariant, simp add: broadcast_ok_def, erule broadcast_step, assumption)

text \<open>
  A receiver that is registered but not yet subscribed starts after everything said so far.
\<close>

definition starts_after :: "nat \<Rightarrow> nat \<Rightarrow> room_sys \<Rightarrow> bool" where
  "starts_after n c s \<longleftrightarrow> n \<le> length (sy_said s)
     \<and> (case sy_conns s c of Joining pid \<Rightarrow> True | Reading pid \<Rightarrow> True
        | Active pid \<Rightarrow> n \<le> sy_start s c | Over \<Rightarrow> True | _ \<Rightarrow> False)"

lemma starts_after_step:
  assumes "sys_step K name s s'" and "starts_after n c s"
  shows "starts_after n c s'"
  using assms
  by cases (auto simp: starts_after_def do_defs split: phase.splits prod.splits bool.splits)

lemma starts_after_steps:
  "sys_steps K name s s' \<Longrightarrow> starts_after n c s \<Longrightarrow> starts_after n c s'"
  by (induction rule: rtranclp_induct) (auto dest: starts_after_step)

section \<open>The main loop\<close>

lemma host_step_ends:
  assumes "host_step N name p s = (b, s')" and "b"
  shows "(hp_shutdown p \<and> offers (hs_log s') = offers (hs_log s) @ [ToEvents RoomClosed]
      \<or> offers (hs_log s') = offers (hs_log s)) \<and> hs_msgs s' = hs_msgs s @ hp_msgs p"
  using assms by (auto simp: host_step_def Let_def try_send_snd split: if_splits list.splits)

section \<open>After a quit\<close>

lemma quit_stays:
  assumes "sys_step K name s s'" and "sy_quit s"
  shows "sy_quit s' \<and> sy_said s' = sy_said s
    \<and> filter is_spoken (sy_events s') = filter is_spoken (sy_events s)
    \<and> (sy_ended s \<longrightarrow> sy_ended s'
      \<and> count_list (sy_events s') RoomClosed = count_list (sy_events s) RoomClosed)"
  using assms by cases (auto simp: do_defs split: prod.split bool.split)

lemma quit_steps:
  "sys_steps K name s s' \<Longrightarrow> sy_quit s \<Longrightarrow> sy_quit s' \<and> sy_said s' = sy_said s
    \<and> filter is_spoken (sy_events s') = filter is_spoken (sy_events s)"
  by (induction rule: rtranclp_induct) (auto dest: quit_stays)

text \<open>The main loop ends only after a quit, and the room is closed once.\<close>

definition closing_ok :: "room_sys \<Rightarrow> bool" where
  "closing_ok s \<longleftrightarrow> (sy_ended s \<longrightarrow> sy_quit s)
     \<and> count_list (sy_events s) RoomClosed = (if RoomClosed \<in> set (sy_events s) then 1 else 0)
     \<and> (RoomClosed \<in> set (sy_events s) \<longrightarrow> sy_ended s)"

lemma closing_step:
  assumes "sys_step K name s s'" and "closing_ok s"
  shows "closing_ok s'"
  using assms
  by cases (auto simp: closing_ok_def do_defs own_event_def peer_event_def
      split: prod.splits bool.splits if_splits)

lemma closing_reach: "sys_reach K name s \<Longrightarrow> closing_ok s"
  by (erule sys_reach_invariant, simp add: closing_ok_def early_def startup_silent,
      erule closing_step, assumption)

text \<open>
  How many steps a connection has left once nothing new is said: \<open>unread\<close> are the messages of the
  broadcast that it has not received, \<open>st\<close> says that its write has stalled.
\<close>

fun rank :: "phase \<Rightarrow> nat \<Rightarrow> bool \<Rightarrow> nat" where
  "rank Idle unread st = 0"
| "rank Fresh unread st = 9"
| "rank (Greeted buf) unread st = 8"
| "rank Rejecting unread st = (if st then 1 else 2)"
| "rank (Claimed n d) unread st = 7"
| "rank (Joining pid) unread st = (if st then 4 else 5)"
| "rank (Reading pid) unread st = 3"
| "rank (Active pid) unread st = 2 + unread"
| "rank Over unread st = 0"

definition conn_load :: "room_sys \<Rightarrow> nat \<Rightarrow> nat" where
  "conn_load s c = rank (sy_conns s c) (length (sy_said s) - sy_pos s c) (c \<in> sy_stalled s)"

definition touched :: "room_sys \<Rightarrow> nat set" where
  "touched s = {c. sy_conns s c \<noteq> Idle}"

text \<open>What is left to do for the interface: the events that wait, and to hang up.\<close>

definition chan_load :: "room_sys \<Rightarrow> nat" where
  "chan_load s = (if sy_gone s then 0 else 1) + length (sy_queue s)"

definition load :: "room_sys \<Rightarrow> nat" where
  "load s = (\<Sum>c \<in> touched s. conn_load s c) + chan_load s"

lemma chan_load_offer: "chan_load (offer e s) \<le> Suc (chan_load s)"
  by (simp add: chan_load_def offer_def)

lemma chan_load_fields [simp]:
  "chan_load (go c ph s) = chan_load s" "chan_load (s\<lparr>sy_peers := ps\<rparr>) = chan_load s"
  "chan_load (s\<lparr>sy_peers := ps, sy_admits := ad\<rparr>) = chan_load s"
  by (simp_all add: chan_load_def go_def)

lemma touched_step:
  assumes "sys_step K name s s'" and "finite (touched s)"
  shows "finite (touched s')"
proof -
  have "\<exists>c. touched s' \<subseteq> insert c (touched s)"
    using assms(1) by cases (auto simp: touched_def do_defs split: prod.splits bool.splits)
  with assms(2) show ?thesis by (meson finite_insert finite_subset)
qed

lemma touched_reach: "sys_reach K name s \<Longrightarrow> finite (touched s)"
  by (erule sys_reach_invariant, simp add: touched_def, erule touched_step, assumption)

text \<open>
  Once the main loop has ended every step is one of the interface or one of a connection, which has
  fewer left then, even if it puts an event into the channel.
\<close>

lemma ended_step:
  assumes step: "sys_step K name s s'" and "sy_ended s" and "sy_quit s"
  shows "touched s' = touched s \<and> ((\<forall>e. conn_load s' e = conn_load s e) \<and> chan_load s' < chan_load s
    \<or> (\<exists>c \<in> touched s. conn_load s' c + chan_load s' < conn_load s c + chan_load s
        \<and> (\<forall>e. e \<noteq> c \<longrightarrow> conn_load s' e = conn_load s e)))"
  using step
proof cases
  case (s_admit c n d peer t)
  let ?e = "PeerJoin \<lparr>pi_id = PeerId (to_base58 K d), pi_name = peer, pi_joined_at = t\<rparr>"
  have "chan_load s' \<le> Suc (chan_load s)"
    unfolding s_admit(1) do_admit_def chan_load_fields
    by (rule order_trans [OF chan_load_offer]) simp
  with s_admit show ?thesis
    by (intro conjI disjI2 bexI [of _ c]) (auto simp: touched_def conn_load_def do_admit_def go_def)
next
  case (s_leave c pid)
  have "chan_load s' \<le> Suc (chan_load s)"
    unfolding s_leave(1) do_leave_def chan_load_fields
    by (rule order_trans [OF chan_load_offer]) simp
  with s_leave show ?thesis
    by (intro conjI disjI2 bexI [of _ c]) (auto simp: touched_def conn_load_def do_leave_def go_def)
next
  case (s_claim c buf)
  with assms show ?thesis
    by (intro conjI disjI2 bexI [of _ c])
       (auto simp: touched_def conn_load_def do_claim_def go_def chan_load_def split: prod.split bool.split)
next
  case (s_recv c pid)
  with assms show ?thesis
    by (intro conjI disjI2 bexI [of _ c])
       (auto simp: touched_def conn_load_def do_recv_def recv_from_def chan_load_def)
next
  case (s_see e es)
  then show ?thesis
    by (intro conjI disjI1) (auto simp: touched_def conn_load_def do_see_def chan_load_def)
next
  case s_hang_up
  then show ?thesis
    by (intro conjI disjI1) (auto simp: touched_def conn_load_def do_hang_up_def chan_load_def)
next
  case (s_stall c pid)
  then show ?thesis
    by (intro conjI disjI2 bexI [of _ c]) (auto simp: touched_def conn_load_def chan_load_def)
qed (use assms(2,3) in \<open>auto simp: touched_def conn_load_def chan_load_def do_defs intro!: disjI2\<close>)

lemma ended_load:
  assumes "sys_step K name s s'" and "sy_ended s" and "sy_quit s" and "finite (touched s)"
  shows "load s' < load s"
proof -
  have t: "touched s' = touched s" using ended_step [OF assms(1-3)] by blast
  from ended_step [OF assms(1-3)] consider
      "\<forall>e. conn_load s' e = conn_load s e" "chan_load s' < chan_load s"
    | c where "c \<in> touched s" "conn_load s' c + chan_load s' < conn_load s c + chan_load s"
      "\<forall>e. e \<noteq> c \<longrightarrow> conn_load s' e = conn_load s e" by blast
  then show ?thesis
  proof cases
    case 1
    then show ?thesis by (simp add: load_def t)
  next
    case 2
    have "(\<Sum>e \<in> touched s - {c}. conn_load s' e) = (\<Sum>e \<in> touched s - {c}. conn_load s e)"
      by (rule sum.cong) (use 2(3) in auto)
    with 2 assms(4) show ?thesis
      by (simp add: load_def t sum.remove [OF assms(4) 2(1)])
  qed
qed

text \<open>
  A connection that is under way can take a step, unless its write has stalled or it waits for the
  mutex.
\<close>

lemma phase_progress:
  assumes "sy_conns s c \<notin> {Idle, Over}"
    and "\<not> (c \<in> sy_stalled s \<and> (sy_conns s c = Rejecting \<or> (\<exists>pid. sy_conns s c = Joining pid)))"
    and "\<not> ((\<exists>buf. sy_conns s c = Greeted buf) \<and> sy_lock s \<noteq> None)"
  shows "\<exists>s'. sys_step K name s s' \<and> sy_conns s' c \<noteq> sy_conns s c"
proof (cases "sy_conns s c")
  case (Greeted buf)
  with assms(3) have "sys_step K name s (do_claim c buf s)" by (intro s_claim) auto
  with Greeted show ?thesis
    by (intro exI [of _ "do_claim c buf s"]) (auto simp: do_claim_def split: prod.split bool.split)
next
  case (Active pid)
  from s_leave [OF this] Active show ?thesis
    by (intro exI [of _ "do_leave c pid s"]) (simp add: do_leave_def)
next
  case (Reading pid)
  from s_subscribe [OF this] Reading show ?thesis
    by (intro exI [of _ "do_subscribe c pid s"]) (simp add: do_subscribe_def)
next
  case (Joining pid)
  with assms(2) s_spawn [OF this] show ?thesis by (intro exI [of _ "go c (Reading pid) s"]) simp
next
  case Rejecting
  with assms(2) s_reject [OF this] show ?thesis
    by (intro exI [of _ "go c Over (s\<lparr>sy_lock := None\<rparr>)"]) simp
next
  case (Claimed n d)
  from s_fail [OF this] Claimed show ?thesis by (intro exI [of _ "go c Over s"]) simp
next
  case Fresh
  from s_lost [OF this] Fresh show ?thesis by (intro exI [of _ "go c Over s"]) simp
qed (use assms(1) in simp_all)

text \<open>Only a refusal or a notice can stall.\<close>

definition stalled_ok :: "room_sys \<Rightarrow> bool" where
  "stalled_ok s \<longleftrightarrow> (\<forall>c \<in> sy_stalled s. sy_conns s c = Rejecting \<or> (\<exists>pid. sy_conns s c = Joining pid))"

lemma stalled_step:
  assumes "sys_step K name s s'" and "stalled_ok s"
  shows "stalled_ok s'"
  using assms by cases (auto simp: stalled_ok_def do_defs split: prod.splits bool.splits)

lemma stalled_reach: "sys_reach K name s \<Longrightarrow> stalled_ok s"
  by (erule sys_reach_invariant, simp add: stalled_ok_def, erule stalled_step, assumption)

lemma no_peers: "dom (room_peer ps) = {} \<Longrightarrow> ps = []"
  by (cases ps) (auto simp: room_peer_def fun_eq_iff split: if_splits)

lemma take_steps:
  "sy_msgs s = xs @ rest \<Longrightarrow> \<not> sy_quit s \<Longrightarrow> \<exists>s'. sys_steps K name s s' \<and> sy_msgs s' = rest
     \<and> sy_events s' = sy_events s @ map peer_event (filter is_chat xs) \<and> sy_said s' = sy_said s
     \<and> sy_ended s' = sy_ended s \<and> sy_conns s' = sy_conns s \<and> sy_peers s' = sy_peers s"
proof (induction xs arbitrary: s)
  case Nil
  then show ?case by (intro exI [of _ s]) simp
next
  case (Cons x xs)
  let ?s1 = "do_take x (xs @ rest) s"
  have "sys_step K name s ?s1" by (rule s_take) (use Cons.prems in simp_all)
  moreover have "sy_msgs ?s1 = xs @ rest" "\<not> sy_quit ?s1"
      "sy_events ?s1 = sy_events s @ map peer_event (filter is_chat [x])" "sy_said ?s1 = sy_said s"
      "sy_ended ?s1 = sy_ended s" "sy_conns ?s1 = sy_conns s" "sy_peers ?s1 = sy_peers s"
    using Cons.prems by (simp_all add: do_take_def Let_def)
  ultimately show ?case
    using Cons.IH [of ?s1] by (auto intro: converse_rtranclp_into_rtranclp)
qed

section \<open>Properties\<close>

text \<open>
  C6. Under any interleaving, what is offered to the host's interface as said is a merge of the
  texts of the user and of the chat messages that the main loop has taken, each once and in
  order; the messages taken and those waiting, at most 128, are all that the readers passed on, in
  that order, each under the identifier with which its connection was admitted. What is offered is a
  merge of what got into the event channel and of what was dropped; what got in has been received or
  waits, in that order, at most 256 events, unless the interface has hung up; and nothing is dropped
  before 256 events have been offered, so that until then what is received and waits is the whole
  conversation.
\<close>

theorem interleaved_delivery:
  assumes "sys_reach K name s"
  shows "\<exists>taken. map snd (sy_reads s) = taken @ sy_msgs s \<and> length (sy_msgs s) \<le> 128
    \<and> filter is_spoken (sy_events s)
        \<in> shuffles (map said_event (sy_said s)) (map peer_event (filter is_chat taken))
    \<and> (\<forall>c pid m. (c, pid, m) \<in> set (sy_reads s) \<longrightarrow> wm_kind m \<noteq> Ping \<and> (c, pid) \<in> set (sy_admits s))
    \<and> sy_events s \<in> shuffles (sy_put s) (sy_dropped s)
    \<and> prefix (sy_seen s) (sy_put s) \<and> length (sy_queue s) \<le> 256
    \<and> (\<not> sy_gone s \<longrightarrow> sy_put s = sy_seen s @ sy_queue s
        \<and> (length (sy_events s) \<le> 256 \<longrightarrow> sy_dropped s = []
          \<and> filter is_spoken (sy_seen s @ sy_queue s)
              \<in> shuffles (map said_event (sy_said s)) (map peer_event (filter is_chat taken))))"
proof -
  obtain taken where d: "map snd (sy_reads s) = taken @ sy_msgs s" "length (sy_msgs s) \<le> 128"
      "filter is_spoken (sy_events s)
        \<in> shuffles (map said_event (sy_said s)) (map peer_event (filter is_chat taken))"
      "\<forall>c pid m. (c, pid, m) \<in> set (sy_reads s) \<longrightarrow> wm_kind m \<noteq> Ping \<and> (c, pid) \<in> set (sy_admits s)"
    using delivery_reach [OF assms] unfolding delivery_ok_def MSG_CHAN_CAP_def by blast
  have ok: "sy_events s \<in> shuffles (sy_put s) (sy_dropped s)" "prefix (sy_seen s) (sy_put s)"
      "length (sy_queue s) \<le> 256" "\<not> sy_gone s \<longrightarrow> sy_put s = sy_seen s @ sy_queue s"
      "\<not> sy_gone s \<and> length (sy_events s) \<le> 256 \<longrightarrow> sy_dropped s = []"
    using chan_reach [OF assms] by (simp_all add: chan_ok_def EVENT_CHAN_CAP_def split: if_splits)
  then have "\<not> sy_gone s \<and> length (sy_events s) \<le> 256 \<longrightarrow> sy_events s = sy_seen s @ sy_queue s"
    by auto
  then have "\<not> sy_gone s \<and> length (sy_events s) \<le> 256 \<longrightarrow> filter is_spoken (sy_seen s @ sy_queue s)
      \<in> shuffles (map said_event (sy_said s)) (map peer_event (filter is_chat taken))"
    using d(3) by metis
  with d ok show ?thesis by blast
qed

text \<open>
  C7. Under any interleaving, what the writer of a connection has received is in order and without
  repetition what the host has said since the connection subscribed, but for the messages that a
  lag skipped, which the reports count; nothing is skipped while no more than 256 messages have
  been said since. On a stream that takes everything its frames are exactly what is written.
\<close>

theorem broadcast_delivery:
  assumes "sys_reach K name s" and "sy_conns s c = Active pid" and "writes_succeed N"
  shows "(\<exists>waiting. subseq (received (sy_got s c)) (sent_to c s)
        \<and> length (sent_to c s) = length (received (sy_got s c)) + skipped (sy_got s c) + length waiting
        \<and> (length (sent_to c s) \<le> 256 \<longrightarrow> sent_to c s = received (sy_got s c) @ waiting))
    \<and> (\<exists>b h. room_writer K N (sy_got s c) [] = (b, h)
        \<and> written h = concat (concat (map (wire_frames K) (received (sy_got s c)))))"
proof (rule conjI)
  have ok: "recv_ok c s" using broadcast_reach [OF assms(1)] assms(2) by (simp add: broadcast_ok_def)
  then have y: "yields (sent_to c s) (sy_got s c)" by (simp add: recv_ok_def)
  show "\<exists>waiting. subseq (received (sy_got s c)) (sent_to c s)
        \<and> length (sent_to c s) = length (received (sy_got s c)) + skipped (sy_got s c) + length waiting
        \<and> (length (sent_to c s) \<le> 256 \<longrightarrow> sent_to c s = received (sy_got s c) @ waiting)"
    using yields_received [OF y] ok by (auto simp: recv_ok_def BROADCAST_CHAN_CAP_def)
  show "\<exists>b h. room_writer K N (sy_got s c) [] = (b, h)
        \<and> written h = concat (concat (map (wire_frames K) (received (sy_got s c))))"
    using room_writer_all [OF assms(3) y, of K "[]"] by auto
qed

text \<open>
  C10. The peers of a room that keep up agree on what the host said: of two connections that have not
  been told of a lag, what the one that subscribed later has received and what the other has
  received since then are equal as far as both have come. A connection has not been told of a lag
  while no more than 256 messages have been said since it subscribed.
\<close>

theorem peers_agree:
  assumes "sys_reach K name s" and "sy_conns s c = Active p" and "sy_conns s e = Active q"
    and "sy_start s c \<le> sy_start s e"
    and "skipped (sy_got s c) = 0" and "skipped (sy_got s e) = 0"
  shows "prefix (drop (sy_start s e - sy_start s c) (received (sy_got s c))) (received (sy_got s e))
    \<or> prefix (received (sy_got s e)) (drop (sy_start s e - sy_start s c) (received (sy_got s c)))"
proof -
  let ?d = "sy_start s e - sy_start s c"
  have all: "\<exists>w. sent_to x s = received (sy_got s x) @ w"
    if "sy_conns s x = Active pid" and "skipped (sy_got s x) = 0" for x pid
  proof -
    have "recv_ok x s" using broadcast_reach [OF assms(1)] that(1) by (simp add: broadcast_ok_def)
    then have "yields (sent_to x s) (sy_got s x)" by (simp add: recv_ok_def)
    with that(2) yields_received [OF this] show ?thesis by blast
  qed
  have later: "sent_to e s = drop ?d (sent_to c s)" using assms(4) by (simp add: sent_to_def)
  have "prefix (received (sy_got s e)) (sent_to e s)" using all [OF assms(3,6)] by auto
  moreover from all [OF assms(2,5)] have "prefix (drop ?d (received (sy_got s c))) (sent_to e s)"
    unfolding later by auto
  ultimately show ?thesis using prefix_same_cases by blast
qed

text \<open>
  C33. A text can miss a peer that the host has already been told of: the join is announced and
  the peer listed before the handler subscribes to the broadcast, after a write that the peer can
  hold up; what the host says in between is never received by that connection, however long it
  stays.
\<close>

theorem missed_while_joining:
  assumes "sys_reach K name s" and "sy_conns s c = Joining pid \<or> sy_conns s c = Reading pid"
    and "\<not> sy_quit s" and "sys_steps K name (do_say name t s) s'" and "sy_conns s' c = Active pid'"
  shows "pid \<in> joined (sy_events s)
    \<and> (\<exists>k > length (sy_said s). subseq (received (sy_got s' c)) (drop k (sy_said s')))"
proof (rule conjI)
  have "pid \<in> active s" using assms(2) by (auto simp: active_def intro!: exI [of _ c])
  then show "pid \<in> joined (sy_events s)"
    using order_reach [OF assms(1)] by (auto simp: order_ok_def)
  have "sys_reach K name s'"
    using assms(4) sr_step [OF assms(1) s_say [OF assms(3)]]
    by (induction rule: rtranclp_induct) (auto intro: sr_step)
  then have "yields (sent_to c s') (sy_got s' c)"
    using broadcast_reach assms(5) by (auto simp: broadcast_ok_def recv_ok_def)
  from yields_received [OF this]
  have "subseq (received (sy_got s' c)) (drop (sy_start s' c) (sy_said s'))"
    by (auto simp: sent_to_def)
  moreover have "starts_after (Suc (length (sy_said s))) c (do_say name t s)"
    using assms(2) by (auto simp: starts_after_def do_say_def)
  from starts_after_steps [OF assms(4) this] assms(5)
  have "length (sy_said s) < sy_start s' c" by (simp add: starts_after_def)
  ultimately show "\<exists>k > length (sy_said s). subseq (received (sy_got s' c)) (drop k (sy_said s'))"
    by blast
qed

text \<open>
  C9. A pass of the main loop refines the step relation: it offers the events and broadcasts the
  texts of a sequence of steps, takes the same messages from the channel, ends exactly when they
  end the room, and touches neither the connections nor the peer map.
\<close>

theorem host_pass_refines:
  assumes pass: "host_step N name p h = (b, h')" and msgs: "hs_msgs h @ hp_msgs p = sy_msgs s"
    and run: "\<not> sy_quit s" "\<not> sy_ended s"
  shows "\<exists>s' k. sys_steps K name s s' \<and> hs_log h' = hs_log h @ k
    \<and> sy_events s' = sy_events s @ events_of (offers k) \<and> sy_said s' = sy_said s @ wires_of (offers k)
    \<and> sy_msgs s' = hs_msgs h' \<and> (b \<longleftrightarrow> sy_ended s') \<and> sy_conns s' = sy_conns s \<and> sy_peers s' = sy_peers s"
proof -
  obtain k ts xs close where k: "hs_log h' = hs_log h @ k"
      "wires_of (offers k) = map (wire_chat name) ts"
      "events_of (offers k) = map (own_event name) ts @ map peer_event (filter is_chat xs) @ close"
      "ts = [] \<or> xs = []" "length ts \<le> 1" "close \<in> {[], [RoomClosed]}" "close \<noteq> [] \<longrightarrow> b"
      "hs_msgs h @ hp_msgs p = xs @ hs_msgs h'"
    using host_step_log [OF pass] by blast
  show ?thesis
  proof (cases b)
    case True
    let ?q = "s\<lparr>sy_quit := True\<rparr>"
    from host_step_ends [OF pass True] k(1) msgs
    have last: "offers k = [ToEvents RoomClosed] \<or> offers k = []" "sy_msgs s = hs_msgs h'" by auto
    have "sys_step K name s ?q" "sys_step K name ?q (do_close ?q)"
      using run by (auto intro: s_quit s_close)
    then have "sys_steps K name s (do_close ?q)" 
      by (rule converse_rtranclp_into_rtranclp [OF _ r_into_rtranclp])
    moreover have "sys_steps K name s (s\<lparr>sy_quit := True, sy_ended := True\<rparr>)"
      using s_abandon [OF run(1)] by blast
    ultimately show ?thesis using last k(1) True
      by (elim disjE) (force simp: do_close_def)+
  next
    case False
    with k(7) have close: "close = []" by blast
    from k(4,5) consider t where "ts = [t]" "xs = []" | "ts = []"
      by (cases ts) auto
    then show ?thesis
    proof cases
      case 1
      have "sys_steps K name s (do_say name t s)" using s_say [OF run(1)] by blast
      with 1 k close False run msgs show ?thesis
        by (intro exI [of _ "do_say name t s"] exI [of _ k]) (simp add: do_say_def)
    next
      case 2
      have "sy_msgs s = xs @ hs_msgs h'" using k(8) msgs by simp
      from take_steps [OF this run(1)] obtain s' where "sys_steps K name s s'" "sy_msgs s' = hs_msgs h'"
          "sy_events s' = sy_events s @ map peer_event (filter is_chat xs)" "sy_said s' = sy_said s"
          "sy_ended s' = sy_ended s" "sy_conns s' = sy_conns s" "sy_peers s' = sy_peers s" by blast
      with 2 k close False run msgs show ?thesis
        by (intro exI [of _ s'] exI [of _ k]) simp
    qed
  qed
qed

text \<open>
  A frame that the reader of a connection handles refines the steps too: what it gets into the
  channel is what the steps put there.
\<close>

theorem reader_frame_refines:
  assumes "room_reader_frame pid K N frame h = (next, h')"
    and "sy_conns s c = Reading pid \<or> sy_conns s c = Active pid"
    and "length (sy_msgs s) < MSG_CHAN_CAP" and "\<not> sy_ended s"
  shows "\<exists>s' k. h' = h @ k \<and> sys_steps K name s s' \<and> sy_msgs s' = sy_msgs s @ msgs_of (accepted k)
    \<and> sy_conns s' = sy_conns s \<and> sy_events s' = sy_events s"
proof -
  have read: "sys_steps K name s (do_read c pid m s)" if "wm_kind m \<noteq> Ping" for m
    using s_read [OF assms(2) that assms(3,4)] by blast
  have stay: "sys_steps K name s s" by simp
  show ?thesis
  proof (cases "decode_message K frame")
    case (Inl e)
    with assms(1) stay show ?thesis
      by (intro exI [of _ s] exI [of _ "[]"]) (simp add: room_reader_frame_def)
  next
    case (Inr m)
    show ?thesis
    proof (cases "wm_kind m = Ping")
      case True
      with Inr assms(1) stay show ?thesis
        by (intro exI [of _ s] exI [of _ "[]"]) (simp add: room_reader_frame_def)
    next
      case False
      let ?r = "n_send N h (ToMsg pid m)"
      have h': "h' = h @ [SendAwait (ToMsg pid m) ?r]"
        using assms(1) Inr False
        by (auto simp: room_reader_frame_def send_await_def Let_def split: timed.splits)
      show ?thesis
      proof (cases "?r = Ready True")
        case True
        with h' read [OF False] show ?thesis
          by (intro exI [of _ "do_read c pid m s"] exI [of _ "[SendAwait (ToMsg pid m) ?r]"])
             (simp add: do_read_def)
      next
        case False
        with h' stay show ?thesis
          by (intro exI [of _ s] exI [of _ "[SendAwait (ToMsg pid m) ?r]"])
             (cases ?r, simp_all)
      qed
    qed
  qed
qed

text \<open>
  C13. Quitting is silent: once shutdown is signalled no further text is offered to the host's
  interface or sent to the peers, whatever is still under way, and \<open>RoomClosed\<close> is announced at most once, and no more
  once the main loop has ended.
\<close>

theorem quit_is_silent:
  assumes "sys_reach K name s" and "sy_quit s" and "sys_steps K name s s'"
  shows "sy_said s' = sy_said s
    \<and> filter is_spoken (sy_events s') = filter is_spoken (sy_events s)
    \<and> count_list (sy_events s') RoomClosed \<le> 1
    \<and> (sy_ended s \<longrightarrow> count_list (sy_events s') RoomClosed = count_list (sy_events s) RoomClosed)"
proof -
  have "sys_reach K name s'"
    using assms(3,1) by (induction rule: rtranclp_induct) (auto intro: sr_step)
  then have "count_list (sy_events s') RoomClosed \<le> 1"
    using closing_reach by (auto simp: closing_ok_def)
  moreover have "sy_ended s \<longrightarrow> sy_quit s' \<and> sy_ended s'
      \<and> count_list (sy_events s') RoomClosed = count_list (sy_events s) RoomClosed"
    using assms(3,2) by (induction rule: rtranclp_induct) (auto dest: quit_stays)
  ultimately show ?thesis using quit_steps [OF assms(3,2)] by blast
qed

text \<open>
  C11. A closed room winds down, as far as its peers let it: once the main loop has ended, every run
  is finite, of a length bounded by what the connections and the interface have left to do; and
  when no connection can move any more, each is over, or has stalled in the write of a refusal or of
  the notice to a new peer, which nothing times out, or waits for the nonce mutex, which then a
  stalled refusal holds. A peer that is still listed is one with a stalled notice. So if no write has
  stalled every connection is over, no peer is listed and the mutex is free.
\<close>

theorem room_winds_down:
  assumes "sys_reach K name s" and "sy_ended s" and "(sys_step K name ^^ n) s s'"
  shows "n + load s' \<le> load s
    \<and> ((\<forall>s''. sys_step K name s' s'' \<longrightarrow> sy_conns s'' = sy_conns s') \<longrightarrow>
        (\<forall>c. sy_conns s' c \<in> {Idle, Over}
           \<or> c \<in> sy_stalled s' \<and> (sy_conns s' c = Rejecting \<or> (\<exists>pid. sy_conns s' c = Joining pid))
           \<or> (\<exists>buf. sy_conns s' c = Greeted buf) \<and> sy_lock s' \<noteq> None)
      \<and> dom (room_peer (sy_peers s')) \<subseteq> {pid. \<exists>c \<in> sy_stalled s'. sy_conns s' c = Joining pid}
      \<and> (\<forall>c. sy_lock s' = Some c \<longrightarrow> c \<in> sy_stalled s' \<and> sy_conns s' c = Rejecting)
      \<and> (sy_stalled s' = {} \<longrightarrow>
          (\<forall>c. sy_conns s' c \<in> {Idle, Over}) \<and> sy_peers s' = [] \<and> sy_lock s' = None))"
proof -
  have inv: "sys_reach K name s' \<and> sy_ended s' \<and> n + load s' \<le> load s" using assms(3)
  proof (induction n arbitrary: s')
    case 0
    with assms(1,2) show ?case by simp
  next
    case (Suc n)
    then obtain s1 where 1: "(sys_step K name ^^ n) s s1" "sys_step K name s1 s'" by auto
    with Suc.IH have r: "sys_reach K name s1" "sy_ended s1" "n + load s1 \<le> load s" by blast+
    then have q: "sy_quit s1" using closing_reach by (auto simp: closing_ok_def)
    from ended_load [OF 1(2) r(2) q touched_reach [OF r(1)]] quit_stays [OF 1(2) q] r 1(2)
    show ?case by (auto intro: sr_step)
  qed
  then have reach: "sys_reach K name s'" by blast
  let ?stuck = "\<lambda>c. c \<in> sy_stalled s' \<and> (sy_conns s' c = Rejecting \<or> (\<exists>pid. sy_conns s' c = Joining pid))"
  let ?waits = "\<lambda>c. (\<exists>buf. sy_conns s' c = Greeted buf) \<and> sy_lock s' \<noteq> None"
  have rest: "\<forall>c. sy_conns s' c \<in> {Idle, Over} \<or> ?stuck c \<or> ?waits c"
    if still: "\<forall>s''. sys_step K name s' s'' \<longrightarrow> sy_conns s'' = sy_conns s'"
  proof (rule allI, rule ccontr)
    fix c assume "\<not> (sy_conns s' c \<in> {Idle, Over} \<or> ?stuck c \<or> ?waits c)"
    then obtain s'' where "sys_step K name s' s''" "sy_conns s'' c \<noteq> sy_conns s' c"
      using phase_progress [of s' c K name] by blast
    with still show False by auto
  qed
  have lock: "\<forall>c. sy_lock s' = Some c \<longrightarrow> c \<in> sy_stalled s' \<and> sy_conns s' c = Rejecting"
    if "\<forall>c. sy_conns s' c \<in> {Idle, Over} \<or> ?stuck c \<or> ?waits c"
  proof (intro allI impI)
    fix c assume "sy_lock s' = Some c"
    then have "sy_conns s' c = Rejecting" using lock_ok_reach [OF reach] by (simp add: lock_ok_def)
    with that [rule_format, of c] show "c \<in> sy_stalled s' \<and> sy_conns s' c = Rejecting" by auto
  qed
  have peers: "dom (room_peer (sy_peers s')) \<subseteq> {pid. \<exists>c \<in> sy_stalled s'. sy_conns s' c = Joining pid}"
    if "\<forall>c. sy_conns s' c \<in> {Idle, Over} \<or> ?stuck c \<or> ?waits c"
  proof
    fix pid assume "pid \<in> dom (room_peer (sy_peers s'))"
    then obtain c where c: "seat (sy_conns s' c) = Some pid"
      using roster_reach [OF reach] by (auto simp: roster_ok_def active_def)
    with that [rule_format, of c] have "c \<in> sy_stalled s' \<and> sy_conns s' c = Joining pid" by auto
    then show "pid \<in> {pid. \<exists>c \<in> sy_stalled s'. sy_conns s' c = Joining pid}" by blast
  qed
  have calm: "(\<forall>c. sy_conns s' c \<in> {Idle, Over}) \<and> sy_peers s' = [] \<and> sy_lock s' = None"
    if all: "\<forall>c. sy_conns s' c \<in> {Idle, Over} \<or> ?stuck c \<or> ?waits c" and none: "sy_stalled s' = {}"
  proof -
    have l: "sy_lock s' = None" using lock [OF all] none by (cases "sy_lock s'") auto
    with all none have "\<forall>c. sy_conns s' c \<in> {Idle, Over}" by auto
    moreover have "sy_peers s' = []" using peers [OF all] none by (intro no_peers) auto
    ultimately show ?thesis using l by blast
  qed
  show ?thesis
    by (intro conjI impI) (use inv in blast, (drule rest, use lock peers calm in blast)+)
qed

text \<open>
  Two orders that a reader of the events may not expect. A message that a peer sent before it
  left can be announced after its leave, since the handler announces that itself while the
  message waits for the main loop; and a connection whose handshake was under way at a quit is
  still admitted, and its join announced after \<open>RoomClosed\<close>.
\<close>

theorem late_events:
  assumes "length (n :: nonce) = 16" and "length (d :: bytes) = 16" and "wm_kind m = Chat"
  shows "\<exists>s1 s2. sys_reach K name s1 \<and> sys_reach K name s2
    \<and> sy_events s1 = [PeerJoin \<lparr>pi_id = PeerId (to_base58 K d), pi_name = peer, pi_joined_at = t\<rparr>,
        PeerLeave (PeerId (to_base58 K d)), peer_event (PeerId (to_base58 K d), m)]
    \<and> sy_events s2 = [RoomClosed,
        PeerJoin \<lparr>pi_id = PeerId (to_base58 K d), pi_name = peer, pi_joined_at = t\<rparr>]"
proof -
  let ?pid = "PeerId (to_base58 K d)"
  have e: "can_enter sys_init 0 n d" using assms by (simp add: can_enter_init)
  note f = entered_simps [OF e] admitted_simps [OF e]
  let ?a = "entered K 0 n d peer t sys_init"
  let ?b = "do_read 0 ?pid m ?a"
  let ?c = "do_leave 0 ?pid ?b"
  have "sys_reach K name ?b"
    by (rule sr_step [OF reach_entered [OF sr_init e] s_read])
       (simp_all add: f assms MSG_CHAN_CAP_def)
  then have "sys_reach K name ?c"
    by (rule sr_step [OF _ s_leave]) (simp add: f do_read_def)
  then have 1: "sys_reach K name (do_take (?pid, m) [] ?c)"
    by (rule sr_step [OF _ s_take]) (simp_all add: f do_read_def do_leave_def go_def)
  let ?u = "do_claim 0 (n @ d) (go 0 (Greeted (n @ d)) (go 0 Fresh sys_init))"
  let ?v = "do_close (?u\<lparr>sy_quit := True\<rparr>)"
  have "sys_reach K name (go 0 Fresh sys_init)" by (rule sr_step [OF sr_init s_connect]) simp_all
  then have "sys_reach K name (go 0 (Greeted (n @ d)) (go 0 Fresh sys_init))"
    by (rule sr_step [OF _ s_hello]) (simp_all add: go_def HANDSHAKE_LEN_def assms)
  then have "sys_reach K name ?u" by (rule sr_step [OF _ s_claim]) (simp_all add: go_def)
  then have "sys_reach K name (?u\<lparr>sy_quit := True\<rparr>)"
    by (rule sr_step [OF _ s_quit]) (simp add: do_claim_def claim_nonce_def go_def)
  then have "sys_reach K name ?v"
    by (rule sr_step [OF _ s_close]) (simp_all add: do_claim_def claim_nonce_def go_def)
  then have 2: "sys_reach K name (do_admit 0 ?pid peer t ?v)"
    by (rule sr_step [OF _ s_admit [of _ 0 n d]])
       (simp add: do_close_def do_claim_def claim_nonce_def go_def assms)
  show ?thesis
    by (rule exI [of _ "do_take (?pid, m) [] ?c"], rule exI [of _ "do_admit 0 ?pid peer t ?v"])
       (use 1 2 in \<open>simp add: f assms do_take_def do_leave_def do_read_def do_admit_def do_close_def
          do_claim_def claim_nonce_def go_def\<close>)
qed

section \<open>Witnesses\<close>

abbreviation demo_pid :: peer_id where
  "demo_pid \<equiv> PeerId (to_base58 sample_crates demo_disc)"

definition demo_entered :: room_sys where
  "demo_entered = entered sample_crates 0 demo_nonce demo_disc ''al'' 1 sys_init"

lemma demo_can_enter: "can_enter sys_init 0 demo_nonce demo_disc"
  by (simp add: can_enter_init)

lemmas demo_entered_simps =
  demo_entered_def entered_simps [OF demo_can_enter] admitted_simps [OF demo_can_enter]

lemma demo_entered_reach: "sys_reach sample_crates ''h'' demo_entered"
  unfolding demo_entered_def by (rule reach_entered [OF sr_init demo_can_enter])

theorem interleaved_delivery_witness:
  "\<exists>s. sys_reach sample_crates ''h'' s \<and> sy_reads s = [(0, demo_pid, wire_chat ''al'' ''hi'')]
    \<and> filter is_spoken (sy_seen s @ sy_queue s)
        = [peer_event (demo_pid, wire_chat ''al'' ''hi''), own_event ''h'' ''yo'']
    \<and> filter is_spoken (sy_seen s @ sy_queue s) \<in> shuffles (map said_event (sy_said s))
        (map peer_event (filter is_chat (map snd (sy_reads s)))) \<and> sy_queue s = []"
proof -
  let ?m = "wire_chat ''al'' ''hi''"
  let ?s = "do_say ''h'' ''yo'' (do_take (demo_pid, ?m) [] (do_read 0 demo_pid ?m demo_entered))"
  let ?t = "?s\<lparr>sy_queue := [], sy_seen := sy_seen ?s @ sy_queue ?s\<rparr>"
  have "sys_reach sample_crates ''h'' (do_read 0 demo_pid ?m demo_entered)"
    by (rule sr_step [OF demo_entered_reach s_read])
       (simp_all add: demo_entered_simps MSG_CHAN_CAP_def wire_chat_def)
  then have "sys_reach sample_crates ''h'' (do_take (demo_pid, ?m) [] (do_read 0 demo_pid ?m demo_entered))"
    by (rule sr_step [OF _ s_take]) (simp_all add: demo_entered_simps do_read_def)
  then have "sys_reach sample_crates ''h'' ?s"
    by (rule sr_step [OF _ s_say]) (simp add: demo_entered_simps do_read_def do_take_def)
  then have t: "sys_reach sample_crates ''h'' ?t" by (rule reach_steps [OF see_all, rotated]) simp
  have f: "sy_msgs ?t = []" "sy_reads ?t = [(0, demo_pid, ?m)]" "\<not> sy_gone ?t" "sy_queue ?t = []"
      "length (sy_events ?t) \<le> 256"
      "filter is_spoken (sy_seen ?t) = [peer_event (demo_pid, ?m), own_event ''h'' ''yo'']"
    by (simp_all add: demo_entered_simps do_read_def do_take_def do_say_def)
       (simp add: offer_def EVENT_CHAN_CAP_def)
  from interleaved_delivery [OF t] f have "filter is_spoken (sy_seen ?t @ sy_queue ?t)
      \<in> shuffles (map said_event (sy_said ?t)) (map peer_event (filter is_chat (map snd (sy_reads ?t))))"
    by auto
  with t f show ?thesis by (intro exI [of _ ?t]) simp
qed

theorem broadcast_delivery_witness:
  "\<exists>s waiting. sys_reach sample_crates ''h'' s \<and> sy_conns s 0 = Active demo_pid
    \<and> sent_to 0 s = [wire_chat ''h'' ''a'', wire_chat ''h'' ''b'']
    \<and> sent_to 0 s = received (sy_got s 0) @ waiting \<and> received (sy_got s 0) = [wire_chat ''h'' ''a'']"
proof -
  let ?t = "do_say ''h'' ''b'' (do_say ''h'' ''a'' demo_entered)"
  let ?s = "do_recv 0 ?t"
  have "sys_reach sample_crates ''h'' (do_say ''h'' ''a'' demo_entered)"
    by (rule sr_step [OF demo_entered_reach s_say]) (simp add: demo_entered_simps)
  then have "sys_reach sample_crates ''h'' ?t"
    by (rule sr_step [OF _ s_say]) (simp add: demo_entered_simps do_say_def)
  then have s: "sys_reach sample_crates ''h'' ?s"
    by (rule sr_step [OF _ s_recv]) (simp_all add: demo_entered_simps do_say_def)
  have f: "sy_conns ?s 0 = Active demo_pid" "received (sy_got ?s 0) = [wire_chat ''h'' ''a'']"
      "sent_to 0 ?s = [wire_chat ''h'' ''a'', wire_chat ''h'' ''b'']"
    by (simp_all add: demo_entered_simps do_say_def do_recv_def recv_from_def sent_to_def
      BROADCAST_CHAN_CAP_def)
  have "writes_succeed (mem_net [])" by simp
  from broadcast_delivery [OF s f(1) this] f(3) obtain waiting
    where "sent_to 0 ?s = received (sy_got ?s 0) @ waiting" by auto
  with s f show ?thesis by blast
qed

theorem missed_while_joining_witness:
  "\<exists>s s'. sys_reach sample_crates ''h'' s \<and> demo_pid \<in> joined (sy_events s)
    \<and> sys_steps sample_crates ''h'' (do_say ''h'' ''a'' s) s' \<and> sy_conns s' 0 = Active demo_pid
    \<and> (\<exists>k > 0. subseq (received (sy_got s' 0)) (drop k (sy_said s')))"
proof -
  let ?s = "admitted sample_crates 0 demo_nonce demo_disc ''al'' 1 sys_init"
  let ?t = "do_say ''h'' ''a'' ?s"
  note f = admitted_simps [OF demo_can_enter]
  have s: "sys_reach sample_crates ''h'' ?s" by (rule reach_admitted [OF sr_init demo_can_enter])
  have j: "sy_conns ?s 0 = Joining demo_pid \<or> sy_conns ?s 0 = Reading demo_pid" "\<not> sy_quit ?s"
      and said: "sy_said ?s = []"
    by (simp_all add: f)
  have "sys_step sample_crates ''h'' ?t (go 0 (Reading demo_pid) ?t)"
    by (rule s_spawn) (simp_all add: f do_say_def)
  moreover have "sys_step sample_crates ''h'' (go 0 (Reading demo_pid) ?t)
      (do_subscribe 0 demo_pid (go 0 (Reading demo_pid) ?t))"
    by (rule s_subscribe) (simp add: go_def)
  ultimately have steps: "sys_steps sample_crates ''h'' ?t (do_subscribe 0 demo_pid (go 0 (Reading demo_pid) ?t))"
    by (rule converse_rtranclp_into_rtranclp [OF _ r_into_rtranclp])
  have act: "sy_conns (do_subscribe 0 demo_pid (go 0 (Reading demo_pid) ?t)) 0 = Active demo_pid"
    by (simp add: do_subscribe_def go_def)
  from missed_while_joining [OF s j steps act] said s steps act show ?thesis by auto
qed

theorem host_pass_refines_witness:
  "\<exists>b h' s' k. host_step (mem_net []) ''h'' \<lparr>hp_texts = [''a''], hp_msgs = [], hp_shutdown = False,
        hp_senders_gone = False, hp_msgs_gone = False\<rparr> \<lparr>hs_texts = [], hs_msgs = [], hs_log = []\<rparr> = (b, h')
    \<and> sys_steps sample_crates ''h'' sys_init s' \<and> hs_log h' = k
    \<and> sy_events s' = events_of (offers k) \<and> sy_said s' = wires_of (offers k)"
proof -
  let ?p = "\<lparr>hp_texts = [''a''], hp_msgs = [], hp_shutdown = False, hp_senders_gone = False,
    hp_msgs_gone = False\<rparr>"
  let ?h = "\<lparr>hs_texts = [], hs_msgs = [], hs_log = []\<rparr>"
  obtain b h' where run: "host_step (mem_net []) ''h'' ?p ?h = (b, h')" by fastforce
  have "hs_msgs ?h @ hp_msgs ?p = sy_msgs sys_init" "\<not> sy_quit sys_init" "\<not> sy_ended sys_init" by simp_all
  from host_pass_refines [OF run this, of sample_crates] run show ?thesis by auto
qed

definition demo_closed :: room_sys where
  "demo_closed = do_close (demo_entered\<lparr>sy_quit := True\<rparr>)"

lemma demo_closed_reach: "sys_reach sample_crates ''h'' demo_closed"
  unfolding demo_closed_def
  by (rule sr_step [OF sr_step [OF demo_entered_reach s_quit] s_close])
     (simp_all add: demo_entered_simps)

lemma demo_closed_leaves:
  "sys_step sample_crates ''h'' demo_closed (do_leave 0 demo_pid demo_closed)"
  by (rule s_leave) (simp add: demo_closed_def demo_entered_simps do_close_def)

theorem quit_is_silent_witness:
  "\<exists>s'. sys_steps sample_crates ''h'' demo_closed s' \<and> s' \<noteq> demo_closed
    \<and> count_list (sy_events s') RoomClosed = count_list (sy_events demo_closed) RoomClosed"
proof -
  let ?s' = "do_leave 0 demo_pid demo_closed"
  have q: "sy_quit demo_closed" "sy_ended demo_closed"
    by (simp_all add: demo_closed_def do_close_def)
  have steps: "sys_steps sample_crates ''h'' demo_closed ?s'" using demo_closed_leaves by blast
  have "length (sy_events ?s') \<noteq> length (sy_events demo_closed)" by (simp add: do_leave_def go_def)
  then have "?s' \<noteq> demo_closed" by metis
  with quit_is_silent [OF demo_closed_reach q(1) steps] q(2) steps show ?thesis by blast
qed

text \<open>
  A room that is closed while the notice to a new peer has stalled: nothing can move any more, and the
  peer stays listed.
\<close>

definition demo_stalled :: room_sys where
  "demo_stalled = do_close ((admitted sample_crates 0 demo_nonce demo_disc ''al'' 1 sys_init)
     \<lparr>sy_stalled := {0}, sy_quit := True\<rparr>)"

lemma demo_stalled_reach: "sys_reach sample_crates ''h'' demo_stalled"
proof -
  let ?a = "admitted sample_crates 0 demo_nonce demo_disc ''al'' 1 sys_init"
  have "sys_reach sample_crates ''h'' (?a\<lparr>sy_stalled := insert 0 (sy_stalled ?a)\<rparr>)"
    by (rule sr_step [OF reach_admitted [OF sr_init demo_can_enter] s_stall])
       (simp_all add: admitted_simps [OF demo_can_enter])
  then have "sys_reach sample_crates ''h'' (?a\<lparr>sy_stalled := {0}\<rparr>)"
    by (simp add: admitted_simps [OF demo_can_enter])
  from sr_step [OF this s_quit] have "sys_reach sample_crates ''h'' (?a\<lparr>sy_stalled := {0}, sy_quit := True\<rparr>)"
    by (simp add: admitted_simps [OF demo_can_enter])
  from sr_step [OF this s_close] show ?thesis
    by (simp add: demo_stalled_def admitted_simps [OF demo_can_enter])
qed

lemma demo_stalled_simps:
  "sy_conns demo_stalled = (\<lambda>_. Idle)(0 := Joining demo_pid)" "sy_stalled demo_stalled = {0}"
  "sy_quit demo_stalled" "sy_ended demo_stalled" "sy_lock demo_stalled = None"
  "sy_peers demo_stalled = register_room_peer demo_pid ''al'' 1 []"
  by (simp_all add: demo_stalled_def do_close_def admitted_simps [OF demo_can_enter] fun_eq_iff)

lemma demo_stalled_still:
  "sys_step sample_crates ''h'' demo_stalled s'' \<Longrightarrow> sy_conns s'' = sy_conns demo_stalled"
  by (erule sys_stepE)
     (auto simp: demo_stalled_simps do_read_def do_recv_def do_see_def do_hang_up_def
        split: if_splits prod.splits)

theorem room_winds_down_witness:
  "(\<exists>s'. (sys_step sample_crates ''h'' ^^ 1) demo_closed s' \<and> 1 + load s' \<le> load demo_closed)
   \<and> dom (room_peer (sy_peers demo_stalled)) = {demo_pid}
   \<and> dom (room_peer (sy_peers demo_stalled))
       \<subseteq> {pid. \<exists>c \<in> sy_stalled demo_stalled. sy_conns demo_stalled c = Joining pid}"
proof -
  have "sy_ended demo_closed" by (simp add: demo_closed_def do_close_def)
  from room_winds_down [OF demo_closed_reach this, of 1] demo_closed_leaves
  have 1: "\<exists>s'. (sys_step sample_crates ''h'' ^^ 1) demo_closed s' \<and> 1 + load s' \<le> load demo_closed"
    by auto
  have "(sys_step sample_crates ''h'' ^^ 0) demo_stalled demo_stalled" by simp
  from room_winds_down [OF demo_stalled_reach demo_stalled_simps(4) this] demo_stalled_still
  have "dom (room_peer (sy_peers demo_stalled))
       \<subseteq> {pid. \<exists>c \<in> sy_stalled demo_stalled. sy_conns demo_stalled c = Joining pid}" by blast
  moreover have "dom (room_peer (sy_peers demo_stalled)) = {demo_pid}"
    by (auto simp: demo_stalled_simps register_room_peer_def room_peer_def split: if_splits)
  ultimately show ?thesis using 1 by blast
qed

text \<open>The stall lasts: the peer of a stalled notice is never through, whatever else happens.\<close>

theorem stalled_notice_stays:
  assumes "c \<in> sy_stalled s" and "sy_conns s c = Joining pid" and "sys_steps K name s s'"
  shows "c \<in> sy_stalled s' \<and> sy_conns s' c = Joining pid"
  using assms(3)
proof (induction rule: rtranclp_induct)
  case base
  show ?case using assms(1,2) by simp
next
  case (step s1 s2)
  from step.hyps(2) step.IH show ?case
    by cases (auto simp: do_defs split: if_splits prod.splits bool.splits)
qed

theorem peers_agree_witness:
  "\<exists>s. sys_reach sample_crates ''h'' s \<and> sy_conns s 0 = Active demo_pid
    \<and> sy_conns s 1 = Active (PeerId (to_base58 sample_crates demo_nonce)) \<and> sy_start s 1 = 1
    \<and> (prefix (drop 1 (received (sy_got s 0))) (received (sy_got s 1))
      \<or> prefix (received (sy_got s 1)) (drop 1 (received (sy_got s 0))))"
proof -
  let ?a = "do_say ''h'' ''a'' demo_entered"
  let ?s = "entered sample_crates (Suc 0) (replicate 16 9) demo_nonce ''bo'' 2 ?a"
  have fresh: "replicate 16 9 \<noteq> demo_nonce"
    by (simp add: demo_nonce_def replicate_eq_replicate)
  have e: "can_enter ?a (Suc 0) (replicate 16 9) demo_nonce"
    using fresh by (simp add: can_enter_def demo_entered_simps do_say_def)
  have "sys_reach sample_crates ''h'' ?a"
    by (rule sr_step [OF demo_entered_reach s_say]) (simp add: demo_entered_simps)
  from reach_entered [OF this e] have s: "sys_reach sample_crates ''h'' ?s" .
  have f: "sy_conns ?s 0 = Active demo_pid"
      "sy_conns ?s (Suc 0) = Active (PeerId (to_base58 sample_crates demo_nonce))"
      "sy_start ?s 0 \<le> sy_start ?s (Suc 0)" "skipped (sy_got ?s 0) = 0"
      "skipped (sy_got ?s (Suc 0)) = 0" and d: "sy_start ?s (Suc 0) = 1" "sy_start ?s 0 = 0"
    unfolding entered_simps [OF e] admitted_simps [OF e]
    by (simp_all add: demo_entered_simps do_say_def)
  show ?thesis
    by (rule exI [of _ ?s]) (use peers_agree [OF s f] s f d in simp)
qed

end
