(* ===== verification/Room_Join.thy ===== *)
theory Room_Join
  imports Joiner Room_Host
begin

text \<open>
  The joining side of \<open>crates/core/src/room.rs\<close>: \<open>joiner_task\<close>, which bootstraps, connects with
  the \<open>Joiner\<close> and runs it, and the variant for a mock stream, with its own reader and writer.
\<close>

section \<open>The task of a joined room\<close>

text \<open>A panic can only come from decoding the invite.\<close>

datatype task_end = Panicked | Running | Finished

text \<open>
  Arguments in the order of use: the bootstrap, whether a quit has emptied the client slot, the
  connector made from the client, the clock and the random discriminator, the environment \<open>N\<close> of
  the event channel, the polls of the joiner's loop. Returned with the outcome and the shared room
  state: the log of the task on the event channel before the run, the state of the run, and the log
  after it.
\<close>

record join_trace =
  jt_before :: log
  jt_run :: log
  jt_after :: log

definition finish_joiner :: "net \<Rightarrow> chat_error + unit \<Rightarrow> log" where
  "finish_joiner N result =
     (let h = (case result of Inl e \<Rightarrow> snd (try_send N (ToEvents (ErrorEvent e)) []) | Inr _ \<Rightarrow> [])
      in snd (try_send N (ToEvents RoomClosed) h))"

definition joiner_task :: "'c boot_env \<Rightarrow> progress_poll list \<Rightarrow> bool \<Rightarrow> crates \<Rightarrow> ('s \<Rightarrow> net)
    \<Rightarrow> ('c \<Rightarrow> string \<Rightarrow> u16 \<Rightarrow> string + 's) \<Rightarrow> bool \<Rightarrow> u64 \<Rightarrow> bytes \<Rightarrow> nat \<Rightarrow> net \<Rightarrow> poll list \<Rightarrow> nat
    \<Rightarrow> join_config \<Rightarrow> 'c room_inner \<Rightarrow> task_end \<times> 'c room_inner \<times> join_trace" where
  "joiner_task E progress taken K net_of tor checks now disc joined_at N polls fuel config r =
     (case bootstrap_with_shutdown E N progress [] of
        (None, h) \<Rightarrow> (Running, r, \<lparr>jt_before = h, jt_run = [], jt_after = []\<rparr>)
      | (Some None, h) \<Rightarrow> (Finished, r, \<lparr>jt_before = h, jt_run = [], jt_after = []\<rparr>)
      | (Some (Some b), h) \<Rightarrow>
          (let r1 = r\<lparr>ri_tor := Some b\<rparr> in
           case shared_client taken r1 of
             None \<Rightarrow>
               (case send_await N (ToEvents (ErrorEvent (Connection ''Tor client not available''))) h of
                  (x, h1) \<Rightarrow> (if x = Elapsed then Running else Finished, r1,
                              \<lparr>jt_before = h1, jt_run = [], jt_after = []\<rparr>))
           | Some c \<Rightarrow>
               (case joiner_connect K net_of (\<lambda>u a p. (arti_connect (tor c) a p, u)) checks now disc
                       () (jc_invite_code config) (jc_name config) of
                  None \<Rightarrow> (Panicked, r1, \<lparr>jt_before = h, jt_run = [], jt_after = []\<rparr>)
                | Some (Inl e, _, _) \<Rightarrow>
                    (case send_await N (ToEvents (ErrorEvent e)) h of
                       (x, h1) \<Rightarrow> (if x = Elapsed then Running else Finished, r1,
                                   \<lparr>jt_before = h1, jt_run = [], jt_after = []\<rparr>))
                | Some (Inr j, _, _) \<Rightarrow>
                    (let me = \<lparr>pi_id = j_peer_id j, pi_name = j_name j, pi_joined_at = joined_at\<rparr>;
                         h1 = snd (try_send N (ToEvents (PeerJoin me)) h)
                     in case joiner_run K net_of N polls fuel j of
                          (None, s, _, _) \<Rightarrow>
                            (Running, r1, \<lparr>jt_before = h1, jt_run = ls_log s, jt_after = []\<rparr>)
                        | (Some result, s, _, _) \<Rightarrow>
                            (Finished, r1\<lparr>ri_tor := None\<rparr>, \<lparr>jt_before = h1, jt_run = ls_log s,
                               jt_after = finish_joiner N result\<rparr>)))))"

section \<open>A joined room on a mock stream\<close>

definition mock_reader_frame :: "crates \<Rightarrow> net \<Rightarrow> bytes \<Rightarrow> log \<Rightarrow> loop_step \<times> log" where
  "mock_reader_frame K N frame h =
     (case decode_message K frame of
        Inl e \<Rightarrow> (Break, h)
      | Inr m \<Rightarrow>
          (case wm_kind m of
             Chat \<Rightarrow>
               (case send_await N (ToEvents (Message (PeerId ''[peer]'') (wm_name m) (wm_text m))) h of
                  (Elapsed, h1) \<Rightarrow> (Stuck, h1)
                | (Ready False, h1) \<Rightarrow> (Break, h1)
                | (Ready True, h1) \<Rightarrow> (Continue, h1))
           | Ping \<Rightarrow> (Continue, h)
           | Pong \<Rightarrow> (Continue, h)
           | System \<Rightarrow> (Continue, h)))"

text \<open>\<open>joiner_reader_loop\<close>: it has no read timeout.\<close>

definition mock_reader_loop :: "crates \<Rightarrow> net \<Rightarrow> nat \<Rightarrow> log \<Rightarrow> (loop_end \<times> log) option" where
  "mock_reader_loop K N fuel h = frame_loop Blocked (mock_reader_frame K N) N fuel h"

definition mock_reader_out :: "crates \<Rightarrow> wire_message \<Rightarrow> chan_msg list" where
  "mock_reader_out K m =
     (if wm_kind m = Chat then [ToEvents (Message (PeerId ''[peer]'') (wm_name m) (wm_text m))] else [])"

interpretation mock_reader: frame_consumer mock_reader_frame mock_reader_out
proof
  fix K N f h s h'
  assume "mock_reader_frame K N f h = (s, h')"
  then show "\<exists>k. h' = h @ k \<and> read_bytes k = [] \<and> read_sizes k = [] \<and> reads_ok k
      \<and> (s \<noteq> Stuck \<longrightarrow> \<not> list_ex is_untaken k)"
    by (auto simp: mock_reader_frame_def send_await_def Let_def
             split: sum.splits timed.splits message_type.splits bool.splits)
next
  fix K N f h h'
  assume "mock_reader_frame K N f h = (Stuck, h')"
  then show "\<exists>h0 x. h' = h0 @ [SendAwait x Elapsed]"
    by (auto simp: mock_reader_frame_def send_await_def Let_def
             split: sum.splits timed.splits message_type.splits bool.splits)
next
  fix K N f h m
  assume "sends_succeed N" and "decode_message K f = Inr m"
  then show "\<exists>k. mock_reader_frame K N f h = (Continue, h @ k)
      \<and> offers k = mock_reader_out K m \<and> accepted k = mock_reader_out K m"
    by (auto simp: mock_reader_frame_def mock_reader_out_def send_await_def sends_succeed_def Let_def
             split: message_type.split)
qed

text \<open>
  The writer task of \<open>joiner_task_mock\<close>: a text that does not encode is skipped, an error of the
  stream ends it, and there is no timeout. A pass is the texts that have come in, whether the
  senders are gone, and whether shutdown is signalled.
\<close>

fun mock_writer :: "crates \<Rightarrow> net \<Rightarrow> string \<Rightarrow> (string list \<times> bool \<times> bool) list \<Rightarrow> string list \<Rightarrow> log
    \<Rightarrow> task_end \<times> log" where
  "mock_writer K N name [] q h = (Running, h)"
| "mock_writer K N name ((arrivals, gone, stop) # ps) q h =
     (if stop then (Finished, h)
      else
        (case q @ arrivals of
           [] \<Rightarrow> if gone then (Finished, h) else mock_writer K N name ps [] h
         | t # ts \<Rightarrow>
             (case encode_message K (wire_chat name t) of
                Inl e \<Rightarrow> mock_writer K N name ps ts h
              | Inr frame \<Rightarrow>
                  (case write_all N frame h of
                     (Elapsed, h1) \<Rightarrow> (Running, h1)
                   | (Ready (Inl e), h1) \<Rightarrow> (Finished, h1)
                   | (Ready (Inr _), h1) \<Rightarrow>
                       (case flush N h1 of
                          (Elapsed, h2) \<Rightarrow> (Running, h2)
                        | (Ready (Inl e), h2) \<Rightarrow> (Finished, h2)
                        | (Ready (Inr _), h2) \<Rightarrow> mock_writer K N name ps ts h2)))))"

text \<open>
  \<open>joiner_task_mock\<close>: handshake, own entry in the peer map, the two tasks until the reader ends
  or shutdown is signalled (\<open>over\<close>), and the closing event.
\<close>

definition joiner_task_mock :: "crates \<Rightarrow> net \<Rightarrow> nonce \<Rightarrow> bytes \<Rightarrow> nat \<Rightarrow> bool \<Rightarrow> join_config
    \<Rightarrow> 'c room_inner \<Rightarrow> task_end \<times> 'c room_inner \<times> log" where
  "joiner_task_mock K N random_nonce disc joined_at over config r =
     (case mock_joiner_handshake K N (jc_name config) random_nonce disc [] of
        (Inl e, h) \<Rightarrow>
          (case send_await N (ToEvents (ErrorEvent e)) h of
             (x, h1) \<Rightarrow> (if x = Elapsed then Running else Finished, r, h1))
      | (Inr (pid, name), h) \<Rightarrow>
          (let r1 = r\<lparr>ri_peers := register_room_peer pid name joined_at (ri_peers r)\<rparr>;
               me = \<lparr>pi_id = pid, pi_name = name, pi_joined_at = joined_at\<rparr>;
               h1 = snd (try_send N (ToEvents (PeerJoin me)) h)
           in if over then
                (Finished, r1\<lparr>ri_peers := remove_room_peer pid (ri_peers r1)\<rparr>,
                 snd (try_send N (ToEvents RoomClosed) h1))
              else (Running, r1, h1)))"

section \<open>Lemmas\<close>

lemma shared_client_new: "is_bootstrapped b \<Longrightarrow> bootstrap_client b = Inr c \<Longrightarrow>
    shared_client False (r\<lparr>ri_tor := Some b\<rparr>) = Some c"
  by (simp add: shared_client_def)

text \<open>The events of the bootstrap come first, whatever follows.\<close>

lemma finish_joiner_offers:
  "offers (finish_joiner N result) =
     (case result of Inl e \<Rightarrow> [ToEvents (ErrorEvent e)] | Inr _ \<Rightarrow> []) @ [ToEvents RoomClosed]"
  by (simp add: finish_joiner_def try_send_snd Let_def split: sum.split)

text \<open>The task of a joined room is not given the peer map or the invite of the handle.\<close>

lemma joiner_task_handle:
  assumes "joiner_task E progress taken K net_of tor checks now disc t N polls fuel config r = (d, r', trace)"
  shows "ri_peers r' = ri_peers r \<and> ri_invite r' = ri_invite r"
  using assms
  by (auto simp: joiner_task_def Let_def split: option.splits sum.splits prod.splits)

text \<open>The identifier of a joiner is the discriminator it drew.\<close>

lemma joined_identity:
  assumes "joiner_connect K net_of connect checks now disc tor code name = Some (Inr j, tor', h)"
  shows "j_peer_id j = PeerId (to_base58 K disc)"
  using assms
proof (cases rule: joiner_connect_cases)
  case (connected p stream)
  let ?hs = "joiner_handshake K (net_of stream) (effective_name name p) (ip_nonce p) disc []"
  obtain pid where "fst ?hs = Inr pid" "j_peer_id j = pid"
    using connected(3) by (cases "fst ?hs") auto
  then show ?thesis
    using joiner_handshake_Inr [of K "net_of stream" _ _ disc pid "snd ?hs"]
    by (metis prod.collapse)
qed simp_all

section \<open>Properties\<close>

text \<open>
  C36. The events of a joined room: after the events of the bootstrap, a room that cannot connect
  is offered the one error that connecting gave, and neither a join nor a closing event; a room
  that connects is offered its own join, under the discriminator it drew, then what the run of the
  joiner offers, and when the run has returned its error, if it returned one, and then \<open>RoomClosed\<close>,
  and Tor is released. The handle of a joined room lists no peers, whatever happens in the room:
  nothing fills its peer map.
\<close>

theorem joiner_task_events:
  assumes boot: "bootstrap_with_shutdown E N progress [] = (Some (Some b), hb)"
    and client: "bootstrap_client b = Inr c"
    and conn: "joiner_connect K net_of (\<lambda>u a p. (arti_connect (tor c) a p, u)) checks now disc ()
      (jc_invite_code config) (jc_name config) = Some (res, u, hc)"
    and run: "joiner_task E progress False K net_of tor checks now disc t N polls fuel config r
      = (Finished, r', trace)"
    and handle: "r = fst (join config)"
  shows "(case res of
      Inl e \<Rightarrow> offers (jt_before trace) = offers hb @ [ToEvents (ErrorEvent e)]
        \<and> jt_run trace = [] \<and> jt_after trace = []
    | Inr j \<Rightarrow> offers (jt_before trace) = offers hb @ [ToEvents (PeerJoin
          \<lparr>pi_id = PeerId (to_base58 K disc), pi_name = j_name j, pi_joined_at = t\<rparr>)]
        \<and> (\<exists>result s reader j'. joiner_run K net_of N polls fuel j = (Some result, s, reader, j')
            \<and> jt_run trace = ls_log s
            \<and> offers (jt_after trace) =
                (case result of Inl e \<Rightarrow> [ToEvents (ErrorEvent e)] | Inr _ \<Rightarrow> []) @ [ToEvents RoomClosed])
        \<and> ri_tor r' = None) \<and> room_peers r' = []"
proof (rule conjI)
  show "room_peers r' = []"
    using joiner_task_handle [OF run] handle by (simp add: room_peers_def join_def room_inner_new_def)
next
  have sc: "shared_client False (r\<lparr>ri_tor := Some b\<rparr>) = Some c"
    using client by (simp add: shared_client_def)
  show "case res of
      Inl e \<Rightarrow> offers (jt_before trace) = offers hb @ [ToEvents (ErrorEvent e)]
        \<and> jt_run trace = [] \<and> jt_after trace = []
    | Inr j \<Rightarrow> offers (jt_before trace) = offers hb @ [ToEvents (PeerJoin
          \<lparr>pi_id = PeerId (to_base58 K disc), pi_name = j_name j, pi_joined_at = t\<rparr>)]
        \<and> (\<exists>result s reader j'. joiner_run K net_of N polls fuel j = (Some result, s, reader, j')
            \<and> jt_run trace = ls_log s
            \<and> offers (jt_after trace) =
                (case result of Inl e \<Rightarrow> [ToEvents (ErrorEvent e)] | Inr _ \<Rightarrow> []) @ [ToEvents RoomClosed])
        \<and> ri_tor r' = None"
  proof (cases res)
    case (Inl e)
    with run boot sc conn show ?thesis
      by (auto simp: joiner_task_def send_await_def Let_def)
  next
    case (Inr j)
    obtain x s y z where jr: "joiner_run K net_of N polls fuel j = (x, s, y, z)"
      by (cases "joiner_run K net_of N polls fuel j") auto
    note id = joined_identity [OF conn [unfolded Inr]]
    from run boot sc conn jr Inr obtain result where x: "x = Some result"
        "trace = \<lparr>jt_before = snd (try_send N (ToEvents (PeerJoin \<lparr>pi_id = j_peer_id j,
            pi_name = j_name j, pi_joined_at = t\<rparr>)) hb), jt_run = ls_log s,
          jt_after = finish_joiner N result\<rparr>" "ri_tor r' = None"
      by (cases x) (auto simp: joiner_task_def Let_def)
    have "offers (jt_before trace) = offers hb @ [ToEvents (PeerJoin
          \<lparr>pi_id = PeerId (to_base58 K disc), pi_name = j_name j, pi_joined_at = t\<rparr>)]"
      using x(2) id by (simp add: try_send_snd)
    moreover have "offers (jt_after trace) = (case result of Inl e \<Rightarrow> [ToEvents (ErrorEvent e)]
        | Inr _ \<Rightarrow> []) @ [ToEvents RoomClosed]" "jt_run trace = ls_log s"
      using x(2) by (simp_all add: finish_joiner_offers)
    ultimately show ?thesis unfolding Inr sum.case using x(3) jr [unfolded x(1)] by blast
  qed
qed

text \<open>A room that connects, and whose run ends with an error: the interface has gone away.\<close>

definition demo_gone :: "poll list" where
  "demo_gone = [\<lparr>p_arrivals = [], p_shutdown = False, p_reader_done = False, p_senders_gone = False,
     p_events_closed = True\<rparr>]"

theorem joiner_task_events_witness:
  "\<exists>code r' trace hb. joiner_task sample_boot (burst [BootstrapProgress 100]) False sample_crates
       (\<lambda>_. mem_net [0]) (\<lambda>_ a _. Inr a) True 1000 demo_disc 7 (mem_net []) demo_gone 1
       \<lparr>jc_name = ''al'', jc_invite_code = code\<rparr> (room_inner_new ''al'') = (Finished, r', trace)
    \<and> offers (jt_before trace) = hb @ [ToEvents (PeerJoin
        \<lparr>pi_id = PeerId (to_base58 sample_crates demo_disc), pi_name = ''al'', pi_joined_at = 7\<rparr>)]
    \<and> offers (jt_after trace) = [ToEvents (ErrorEvent (Connection ''event receiver dropped'')), ToEvents RoomClosed]
    \<and> ri_tor r' = None"
proof -
  let ?N = "mem_net []" and ?ps = "burst [BootstrapProgress 100]"
  let ?b = "\<lparr>tb_client = Some (), tb_bootstrapped = True, tb_temp_dir = None\<rparr> :: unit tor_bootstrap"
  let ?tor = "\<lambda>(_ :: unit) (a :: string) (_ :: u16). (Inr a :: string + string)"
  let ?net = "\<lambda>_ :: string. mem_net [0]"
  obtain code where code: "decode_invite sample_crates True 1000 code (Some 300)
      = Some (Inr (sample_invite 1000))" using sample_decodes .
  let ?config = "\<lparr>jc_name = ''al'', jc_invite_code = code\<rparr>"
  let ?j = "\<lparr>j_stream = Some sample_address, j_peer_id = PeerId (to_base58 sample_crates demo_disc),
    j_name = ''al''\<rparr>"
  have "bootstrap_start sample_boot bootstrap_new = (Inr (), ?b)"
    by (simp add: bootstrap_start_def bootstrap_new_def sample_boot_def build_config_def Let_def)
  then obtain hb where boot: "bootstrap_with_shutdown sample_boot ?N ?ps [] = (Some (Some ?b), hb)"
    using progress_loop_burst [of ?N ?b "[BootstrapProgress 100]" "[]"]
    by (auto simp: bootstrap_with_shutdown_def)
  have client: "bootstrap_client ?b = Inr ()" by (simp add: bootstrap_client_def)
  have "fst (joiner_handshake sample_crates (mem_net [0]) ''al'' (replicate 16 66) demo_disc [])
      = Inr (PeerId (to_base58 sample_crates demo_disc))"
    using joiner_handshake_answer [of "mem_net [0]" 0 sample_crates "''al''" "replicate 16 66" demo_disc]
    by (simp add: Let_def)
  then obtain hc where "joiner_handshake sample_crates (mem_net [0]) ''al'' (replicate 16 66) demo_disc []
      = (Inr (PeerId (to_base58 sample_crates demo_disc)), hc)" by (metis prod.collapse)
  then have conn: "joiner_connect sample_crates ?net (\<lambda>u a p. (arti_connect (?tor ()) a p, u))
      True 1000 demo_disc () (jc_invite_code ?config) (jc_name ?config) = Some (Inr ?j, (), hc)"
    by (simp add: joiner_connect_def effective_name_def code arti_connect_def)
  obtain s reader j' where jr: "joiner_run sample_crates ?net ?N demo_gone 1 ?j
      = (Some (Inl (Connection ''event receiver dropped'')), s, reader, j')"
    by (simp add: joiner_run_def demo_gone_def write_loop_step_def Let_def)
  have "shared_client False (room_inner_new ''al''\<lparr>ri_tor := Some ?b\<rparr>) = Some ()"
    by (simp add: shared_client_def client)
  then obtain r' trace where run: "joiner_task sample_boot ?ps False sample_crates ?net ?tor
      True 1000 demo_disc 7 ?N demo_gone 1 ?config (room_inner_new ''al'') = (Finished, r', trace)"
    using boot conn jr by (auto simp: joiner_task_def Let_def)
  have "room_inner_new ''al'' = fst (join ?config)" by (simp add: join_def)
  from joiner_task_events [OF boot client conn run this] jr run show ?thesis
    by (intro exI [of _ code] exI [of _ r'] exI [of _ trace] exI [of _ "offers hb"]) auto
qed

end
