(* ===== verification/Joiner_System.thy ===== *)
theory Joiner_System
  imports Room_Join
begin

text \<open>
  The tasks of a joined room running together: the reader and the write loop of \<open>joiner.rs\<close>, which
  share the event channel, the user, who types texts, and the interface, which takes the events. The
  event channel holds 256 events: the reader waits for a place in it, the write loop does not, and
  keeps what it cannot place until its end. A step is what one task does between two awaits, or one
  \<open>try_send\<close>; any interleaving is a run.
\<close>

section \<open>States and steps\<close>

definition SEND_CHAN_CAP :: nat where
  "SEND_CHAN_CAP = 64"

text \<open>
  The write loop is in its loop, takes the last texts out of the channel, offers the held back
  events, or has returned; then the reader is stopped.
\<close>

datatype run_phase = Looping | Draining | Flushing | Returned | Stopped

text \<open>
  \<open>js_queue\<close> is the channel of texts, \<open>js_chan\<close> the event channel, \<open>js_gone\<close> that its receiver is
  dropped. History: what the interface has taken, the texts written to the stream, those taken out
  of the channel without being written, the own events placed, and the messages that the reader
  has placed.
\<close>

record joiner_sys =
  js_phase :: run_phase
  js_queue :: "string list"
  js_pending :: "chat_event list"
  js_chan :: "chat_event list"
  js_gone :: bool
  js_shown :: "chat_event list"
  js_written :: "string list"
  js_unsent :: "string list"
  js_own :: "chat_event list"
  js_reads :: "wire_message list"

text \<open>The start of \<open>run\<close>, with what the room has already put on the event channel.\<close>

definition js_init :: "chat_event list \<Rightarrow> joiner_sys" where
  "js_init chan = \<lparr>js_phase = Looping, js_queue = [], js_pending = [], js_chan = chan, js_gone = False,
     js_shown = [], js_written = [], js_unsent = [], js_own = [], js_reads = []\<rparr>"

definition has_room :: "joiner_sys \<Rightarrow> bool" where
  "has_room s \<longleftrightarrow> \<not> js_gone s \<and> length (js_chan s) < EVENT_CHAN_CAP"

definition place_own :: "chat_event \<Rightarrow> joiner_sys \<Rightarrow> joiner_sys" where
  "place_own e s = s\<lparr>js_chan := js_chan s @ [e], js_own := js_own s @ [e]\<rparr>"

text \<open>\<open>try_emit\<close>.\<close>

definition emit_own :: "chat_event \<Rightarrow> joiner_sys \<Rightarrow> joiner_sys" where
  "emit_own e s = (if has_room s then place_own e s else s\<lparr>js_pending := js_pending s @ [e]\<rparr>)"

text \<open>\<open>process_outgoing_message\<close> when the stream takes the frame, and a text taken while draining.\<close>

definition do_write :: "peer_id \<Rightarrow> string \<Rightarrow> string \<Rightarrow> string list \<Rightarrow> joiner_sys \<Rightarrow> joiner_sys" where
  "do_write pid name t ts s =
     emit_own (make_event pid name t) (s\<lparr>js_queue := ts, js_written := js_written s @ [t]\<rparr>)"

definition do_drain :: "peer_id \<Rightarrow> string \<Rightarrow> string \<Rightarrow> string list \<Rightarrow> joiner_sys \<Rightarrow> joiner_sys" where
  "do_drain pid name t ts s =
     emit_own (make_event pid name t) (s\<lparr>js_queue := ts, js_unsent := js_unsent s @ [t]\<rparr>)"

definition do_frame :: "wire_message \<Rightarrow> joiner_sys \<Rightarrow> joiner_sys" where
  "do_frame m s = s\<lparr>js_chan := js_chan s @ [joiner_event m], js_reads := js_reads s @ [m]\<rparr>"

text \<open>A pass of \<open>flush_pending\<close>: the last held back event, and at the first refusal none.\<close>

definition do_flush :: "joiner_sys \<Rightarrow> joiner_sys" where
  "do_flush s =
     (if has_room s then (place_own (last (js_pending s)) s)\<lparr>js_pending := butlast (js_pending s)\<rparr>
      else s\<lparr>js_pending := [], js_phase := Returned\<rparr>)"

inductive joiner_step :: "peer_id \<Rightarrow> string \<Rightarrow> joiner_sys \<Rightarrow> joiner_sys \<Rightarrow> bool" for pid name where
  j_type: "js_phase s \<in> {Looping, Draining, Flushing} \<Longrightarrow> length (js_queue s) < SEND_CHAN_CAP \<Longrightarrow>
    joiner_step pid name s (s\<lparr>js_queue := js_queue s @ [t]\<rparr>)"
| j_frame: "js_phase s \<noteq> Stopped \<Longrightarrow> has_room s \<Longrightarrow> joiner_step pid name s (do_frame m s)"
| j_write: "js_phase s = Looping \<Longrightarrow> js_queue s = t # ts \<Longrightarrow> joiner_step pid name s (do_write pid name t ts s)"
| j_fail: "js_phase s = Looping \<Longrightarrow> js_queue s = t # ts \<Longrightarrow>
    joiner_step pid name s (s\<lparr>js_queue := ts, js_phase := Returned\<rparr>)"
| j_stop: "js_phase s = Looping \<Longrightarrow> joiner_step pid name s (s\<lparr>js_phase := Draining\<rparr>)"
| j_deaf: "js_phase s = Looping \<Longrightarrow> js_queue s = [] \<Longrightarrow> js_gone s \<Longrightarrow>
    joiner_step pid name s (s\<lparr>js_phase := Returned\<rparr>)"
| j_drain: "js_phase s = Draining \<Longrightarrow> js_queue s = t # ts \<Longrightarrow> joiner_step pid name s (do_drain pid name t ts s)"
| j_drained: "js_phase s = Draining \<Longrightarrow> js_queue s = [] \<Longrightarrow>
    joiner_step pid name s (s\<lparr>js_phase := Flushing\<rparr>)"
| j_flush: "js_phase s = Flushing \<Longrightarrow> js_pending s \<noteq> [] \<Longrightarrow> joiner_step pid name s (do_flush s)"
| j_flushed: "js_phase s = Flushing \<Longrightarrow> js_pending s = [] \<Longrightarrow>
    joiner_step pid name s (s\<lparr>js_phase := Returned\<rparr>)"
| j_halt: "js_phase s = Returned \<Longrightarrow> joiner_step pid name s (s\<lparr>js_phase := Stopped\<rparr>)"
| j_show: "js_chan s = e # es \<Longrightarrow> \<not> js_gone s \<Longrightarrow>
    joiner_step pid name s (s\<lparr>js_chan := es, js_shown := js_shown s @ [e]\<rparr>)"
| j_leave: "\<not> js_gone s \<Longrightarrow> joiner_step pid name s (s\<lparr>js_gone := True\<rparr>)"

abbreviation joiner_steps :: "peer_id \<Rightarrow> string \<Rightarrow> joiner_sys \<Rightarrow> joiner_sys \<Rightarrow> bool" where
  "joiner_steps pid name \<equiv> (joiner_step pid name)\<^sup>*\<^sup>*"

lemmas js_defs = do_write_def do_drain_def do_frame_def do_flush_def emit_own_def place_own_def

section \<open>What the user sees\<close>

text \<open>
  \<open>a\<close> are the own events placed at once, \<open>b\<close> those placed at the end, the last one first, and \<open>d\<close>
  those still held back or dropped.
\<close>

definition held_back :: "chat_event list \<Rightarrow> chat_event list \<Rightarrow> joiner_sys \<Rightarrow> bool" where
  "held_back all placed s \<longleftrightarrow> (\<exists>a b d. placed = a @ b \<and> all \<in> shuffles a (d @ rev b)
     \<and> (js_phase s \<in> {Looping, Draining, Flushing} \<longrightarrow> js_pending s = d)
     \<and> (js_phase s \<in> {Looping, Draining} \<longrightarrow> b = []))"

definition own_events :: "peer_id \<Rightarrow> string \<Rightarrow> joiner_sys \<Rightarrow> chat_event list" where
  "own_events pid name s = map (make_event pid name) (js_written s @ js_unsent s)"

definition merged :: "chat_event list \<Rightarrow> joiner_sys \<Rightarrow> bool" where
  "merged chan s \<longleftrightarrow>
     (\<exists>z \<in> shuffles (js_own s) (map joiner_event (js_reads s)). js_shown s @ js_chan s = chan @ z)"

definition joiner_ok :: "chat_event list \<Rightarrow> peer_id \<Rightarrow> string \<Rightarrow> joiner_sys \<Rightarrow> bool" where
  "joiner_ok chan pid name s \<longleftrightarrow> merged chan s \<and> held_back (own_events pid name s) (js_own s) s
     \<and> (js_phase s = Looping \<longrightarrow> js_unsent s = [])
     \<and> length (js_chan s) \<le> max EVENT_CHAN_CAP (length chan)"

lemma merged_same:
  "merged chan s \<Longrightarrow> js_own s' = js_own s \<Longrightarrow> js_reads s' = js_reads s
    \<Longrightarrow> js_shown s' @ js_chan s' = js_shown s @ js_chan s \<Longrightarrow> merged chan s'"
  by (simp add: merged_def)

lemma merged_own:
  assumes "merged chan s" and "js_own s' = js_own s @ [e]" and "js_reads s' = js_reads s"
    and "js_shown s' = js_shown s" and "js_chan s' = js_chan s @ [e]"
  shows "merged chan s'"
proof -
  obtain z where z: "z \<in> shuffles (js_own s) (map joiner_event (js_reads s))"
      "js_shown s @ js_chan s = chan @ z"
    using assms(1) unfolding merged_def by blast
  show ?thesis unfolding merged_def
    using shuffles_snoc_left [OF z(1), of e] z(2) assms(2-) by (metis append.assoc)
qed

lemma merged_frame:
  assumes "merged chan s"
  shows "merged chan (do_frame m s)"
proof -
  obtain z where z: "z \<in> shuffles (js_own s) (map joiner_event (js_reads s))"
      "js_shown s @ js_chan s = chan @ z"
    using assms(1) unfolding merged_def by blast
  have "z @ [joiner_event m] \<in> shuffles (js_own s) (map joiner_event (js_reads s @ [m]))"
    using shuffles_snoc_right [OF z(1), of "joiner_event m"] by simp
  moreover have "js_shown s @ js_chan s @ [joiner_event m] = chan @ z @ [joiner_event m]"
    using z(2) by (metis append.assoc)
  ultimately show ?thesis unfolding merged_def
    by (intro bexI [of _ "z @ [joiner_event m]"]) (simp_all add: do_frame_def)
qed

text \<open>Later phases only forget.\<close>

lemma held_back_later:
  assumes "held_back all placed s" and "js_pending s' = js_pending s"
    and "js_phase s' \<in> {Looping, Draining} \<Longrightarrow> js_phase s \<in> {Looping, Draining}"
    and "js_phase s' = Flushing \<Longrightarrow> js_phase s \<in> {Looping, Draining, Flushing}"
  shows "held_back all placed s'"
proof -
  obtain a b d where h: "placed = a @ b" "all \<in> shuffles a (d @ rev b)"
      "js_phase s \<in> {Looping, Draining, Flushing} \<longrightarrow> js_pending s = d"
      "js_phase s \<in> {Looping, Draining} \<longrightarrow> b = []"
    using assms(1) unfolding held_back_def by blast
  have "js_phase s' \<in> {Looping, Draining, Flushing} \<longrightarrow> js_pending s' = d"
    using h(3) assms(2-) by (cases "js_phase s'") auto
  moreover have "js_phase s' \<in> {Looping, Draining} \<longrightarrow> b = []"
    using h(4) assms(3) by blast
  ultimately show ?thesis using h(1,2) unfolding held_back_def by blast
qed

lemma joiner_ok_later:
  assumes "joiner_ok chan pid name s" and "js_own s' = js_own s" and "js_reads s' = js_reads s"
    and "js_shown s' @ js_chan s' = js_shown s @ js_chan s" and "length (js_chan s') \<le> length (js_chan s)"
    and "js_written s' = js_written s" and "js_unsent s' = js_unsent s" and "js_pending s' = js_pending s"
    and "js_phase s' = Looping \<Longrightarrow> js_phase s = Looping"
    and "js_phase s' = Draining \<Longrightarrow> js_phase s \<in> {Looping, Draining}"
    and "js_phase s' = Flushing \<Longrightarrow> js_phase s \<in> {Looping, Draining, Flushing}"
  shows "joiner_ok chan pid name s'"
proof -
  have "held_back (own_events pid name s) (js_own s) s'"
    by (rule held_back_later [of _ _ s]) (use assms in \<open>auto simp: joiner_ok_def\<close>)
  moreover have "merged chan s'" by (rule merged_same [of chan s]) (use assms in \<open>auto simp: joiner_ok_def\<close>)
  ultimately show ?thesis using assms by (auto simp: joiner_ok_def own_events_def)
qed

text \<open>A text becomes an own event.\<close>

lemma emit_ok:
  assumes ok: "joiner_ok chan pid name s" and "js_phase s \<in> {Looping, Draining}"
    and u: "u = s\<lparr>js_queue := q, js_written := w, js_unsent := n\<rparr>"
    and all: "w @ n = (js_written s @ js_unsent s) @ [t]"
    and "js_phase s = Looping \<longrightarrow> n = []"
  shows "joiner_ok chan pid name (emit_own (make_event pid name t) u)"
proof -
  let ?e = "make_event pid name t" and ?all = "own_events pid name s"
  have h: "?all \<in> shuffles (js_own s) (js_pending s)"
    using ok assms(2) unfolding joiner_ok_def held_back_def by auto
  have ev: "map (make_event pid name) w @ map (make_event pid name) n = ?all @ [?e]"
    using arg_cong [OF all, of "map (make_event pid name)"] by (simp add: own_events_def)
  have len: "length (js_chan s) \<le> max EVENT_CHAN_CAP (length chan)" and m: "merged chan s"
    using ok by (simp_all add: joiner_ok_def)
  show ?thesis
  proof (cases "has_room u")
    case True
    then have room: "length (js_chan s) < EVENT_CHAN_CAP" by (simp add: has_room_def u)
    have "merged chan (place_own ?e u)"
      by (rule merged_own [OF m, of _ ?e]) (simp_all add: u place_own_def)
    moreover have "held_back (own_events pid name (place_own ?e u)) (js_own (place_own ?e u)) (place_own ?e u)"
      unfolding held_back_def
      by (rule exI [of _ "js_own s @ [?e]"], rule exI [of _ "[]"], rule exI [of _ "js_pending s"])
         (use shuffles_snoc_left [OF h, of ?e] in \<open>simp add: u place_own_def own_events_def ev\<close>)
    ultimately show ?thesis
      using True room len assms(5) by (simp add: joiner_ok_def emit_own_def place_own_def u)
  next
    case False
    let ?v = "u\<lparr>js_pending := js_pending u @ [?e]\<rparr>"
    have "merged chan ?v" by (rule merged_same [OF m]) (simp_all add: u)
    moreover have "held_back (own_events pid name ?v) (js_own ?v) ?v"
      unfolding held_back_def
      by (rule exI [of _ "js_own s"], rule exI [of _ "[]"], rule exI [of _ "js_pending s @ [?e]"])
         (use shuffles_snoc_right [OF h, of ?e] in \<open>simp add: u own_events_def ev\<close>)
    ultimately show ?thesis
      using False len assms(5) by (simp add: joiner_ok_def emit_own_def u)
  qed
qed

lemma flush_ok:
  assumes ok: "joiner_ok chan pid name s" and ph: "js_phase s = Flushing" and p: "js_pending s \<noteq> []"
  shows "joiner_ok chan pid name (do_flush s)"
proof -
  obtain a b where h: "js_own s = a @ b" "own_events pid name s \<in> shuffles a (js_pending s @ rev b)"
    using ok ph unfolding joiner_ok_def held_back_def by auto
  have len: "length (js_chan s) \<le> max EVENT_CHAN_CAP (length chan)" and m: "merged chan s"
    using ok by (simp_all add: joiner_ok_def)
  show ?thesis
  proof (cases "has_room s")
    case True
    let ?e = "last (js_pending s)"
    let ?u = "(place_own ?e s)\<lparr>js_pending := butlast (js_pending s)\<rparr>"
    have "js_pending s @ rev b = butlast (js_pending s) @ rev (b @ [?e])" using p by simp
    with h have "held_back (own_events pid name ?u) (js_own ?u) ?u"
      unfolding held_back_def using ph
      by (intro exI [of _ a] exI [of _ "b @ [?e]"] exI [of _ "butlast (js_pending s)"])
         (simp add: place_own_def own_events_def)
    moreover have "merged chan ?u" by (rule merged_own [OF m, of _ ?e]) (simp_all add: place_own_def)
    moreover have "length (js_chan s) < EVENT_CHAN_CAP" using True by (simp add: has_room_def)
    ultimately show ?thesis using True ph by (simp add: joiner_ok_def do_flush_def place_own_def)
  next
    case False
    let ?u = "s\<lparr>js_pending := [], js_phase := Returned\<rparr>"
    have "held_back (own_events pid name ?u) (js_own ?u) ?u"
      unfolding held_back_def using h
      by (intro exI [of _ a] exI [of _ b] exI [of _ "js_pending s"]) (simp add: own_events_def)
    moreover have "merged chan ?u" by (rule merged_same [OF m]) simp_all
    ultimately show ?thesis using False len by (simp add: joiner_ok_def do_flush_def)
  qed
qed

lemma joiner_ok_step:
  assumes "joiner_step pid name s s'" and ok: "joiner_ok chan pid name s"
  shows "joiner_ok chan pid name s'"
  using assms(1)
proof cases
  case (j_frame m)
  then have "length (js_chan s) < EVENT_CHAN_CAP" by (simp add: has_room_def)
  with j_frame ok merged_frame [of chan s m] show ?thesis
    by (simp add: joiner_ok_def do_frame_def held_back_def own_events_def)
next
  case (j_write t ts)
  then show ?thesis unfolding j_write(1) do_write_def
    using ok by (intro emit_ok [OF ok, where q = ts and n = "js_unsent s" and w = "js_written s @ [t]"])
      (auto simp: joiner_ok_def)
next
  case (j_drain t ts)
  then show ?thesis unfolding j_drain(1) do_drain_def
    by (intro emit_ok [OF ok, where q = ts and n = "js_unsent s @ [t]" and w = "js_written s"]) auto
next
  case j_flush
  then show ?thesis using flush_ok [OF ok] by simp
qed (rule joiner_ok_later [OF ok]; simp; fail)+

lemma joiner_ok_init: "joiner_ok chan pid name (js_init chan)"
  by (simp add: joiner_ok_def js_init_def merged_def held_back_def own_events_def)

lemma joiner_ok_steps:
  "joiner_steps pid name (js_init chan) s \<Longrightarrow> joiner_ok chan pid name s"
  by (induction rule: rtranclp_induct) (auto intro: joiner_ok_init joiner_ok_step)

section \<open>The sequential write loop and the steps\<close>

text \<open>
  The \<open>try_send\<close> calls of an undisturbed task that starts with the log \<open>h\<close> are answered from the
  free places of the event channel.
\<close>

definition answers :: "net \<Rightarrow> joiner_sys \<Rightarrow> log \<Rightarrow> bool" where
  "answers N s h \<longleftrightarrow> (\<forall>k x. n_try_send N (h @ k) (ToEvents x) \<longleftrightarrow>
     \<not> js_gone s \<and> length (js_chan s) + length (accepted k) < EVENT_CHAN_CAP)"

lemma answers_now: "answers N s h \<Longrightarrow> n_try_send N h (ToEvents x) \<longleftrightarrow> has_room s"
  unfolding answers_def has_room_def by (metis accepted_def append_Nil2 concat.simps(1) list.map(1) list.size(3) add_0_right)

lemma answers_later:
  assumes "answers N s h" and "js_gone s' = js_gone s"
    and "length (js_chan s') = length (js_chan s) + length (accepted k)"
  shows "answers N s' (h @ k)"
  using assms by (simp add: answers_def add.assoc)

text \<open>What a stretch of the task leaves behind.\<close>

definition follows :: "peer_id \<Rightarrow> string \<Rightarrow> net \<Rightarrow> joiner_sys \<Rightarrow> log \<Rightarrow> joiner_sys \<Rightarrow> log \<Rightarrow> bool" where
  "follows pid name N s h s' h' \<longleftrightarrow> joiner_steps pid name s s' \<and> answers N s' h'
     \<and> (\<exists>k. h' = h @ k \<and> map ToEvents (js_own s') = map ToEvents (js_own s) @ accepted k)"

lemma follows_refl: "answers N s h \<Longrightarrow> follows pid name N s h s h"
  by (simp add: follows_def)

lemma follows_trans:
  assumes "follows pid name N s h s1 h1" and "follows pid name N s1 h1 s2 h2"
  shows "follows pid name N s h s2 h2"
proof -
  obtain k1 where 1: "h1 = h @ k1" "map ToEvents (js_own s1) = map ToEvents (js_own s) @ accepted k1"
    using assms(1) unfolding follows_def by blast
  obtain k2 where 2: "h2 = h1 @ k2" "map ToEvents (js_own s2) = map ToEvents (js_own s1) @ accepted k2"
    using assms(2) unfolding follows_def by blast
  have "h2 = h @ (k1 @ k2) \<and> map ToEvents (js_own s2) = map ToEvents (js_own s) @ accepted (k1 @ k2)"
    using 1 2 by simp
  with assms show ?thesis unfolding follows_def by (blast intro: rtranclp_trans)
qed

lemma follows_quiet:
  assumes "answers N s h" and "joiner_step pid name s s'" and "js_gone s' = js_gone s"
    and "js_chan s' = js_chan s" and "js_own s' = js_own s" and "accepted k = []"
  shows "follows pid name N s h s' (h @ k)"
  unfolding follows_def
proof (intro conjI exI [of _ k])
  show "answers N s' (h @ k)" by (rule answers_later [OF assms(1,3)]) (simp add: assms)
qed (use assms in auto)

lemma follows_emit:
  assumes ans: "answers N s h" and step: "joiner_step pid name s (emit_own e u)"
    and u: "js_gone u = js_gone s" "js_chan u = js_chan s" "js_own u = js_own s" "js_pending u = js_pending s"
    and emit: "try_emit N e (js_pending s) (h @ k0) = (p, h')" and quiet: "accepted k0 = []"
  shows "follows pid name N s h (emit_own e u) h' \<and> js_pending (emit_own e u) = p"
proof -
  have a: "answers N s (h @ k0)" by (rule answers_later [OF ans]) (simp_all add: quiet)
  have room: "has_room u \<longleftrightarrow> has_room s" by (simp add: has_room_def u)
  have h': "h' = h @ (k0 @ [TrySend (ToEvents e) (has_room s)])" "p = js_pending (emit_own e u)"
    using emit answers_now [OF a] room by (auto simp: try_emit_def try_send_def Let_def emit_own_def place_own_def u)
  have "answers N (emit_own e u) h'" unfolding h'(1)
    by (rule answers_later [OF ans]) (simp_all add: emit_own_def place_own_def u room quiet)
  moreover have "map ToEvents (js_own (emit_own e u))
      = map ToEvents (js_own s) @ accepted (k0 @ [TrySend (ToEvents e) (has_room s)])"
    by (simp add: emit_own_def place_own_def u room quiet)
  ultimately show ?thesis using step h' unfolding follows_def by blast
qed

lemma drain_follows:
  "js_phase s = Draining \<Longrightarrow> answers N s h \<Longrightarrow>
   drain_messages N pid name (js_queue s) (js_pending s) h = (p, h') \<Longrightarrow>
   \<exists>s'. follows pid name N s h s' h' \<and> js_phase s' = Draining \<and> js_queue s' = [] \<and> js_pending s' = p"
proof (induction "js_queue s" arbitrary: s h)
  case Nil
  then have "p = js_pending s" "h' = h" by simp_all
  with Nil follows_refl show ?case by fastforce
next
  case (Cons t ts)
  let ?e = "make_event pid name t" and ?u = "s\<lparr>js_queue := ts, js_unsent := js_unsent s @ [t]\<rparr>"
  obtain p1 h1 where e: "try_emit N ?e (js_pending s) h = (p1, h1)" by fastforce
  have "joiner_step pid name s (emit_own ?e ?u)"
    using j_drain [OF Cons.prems(1) Cons.hyps(2) [symmetric]] by (simp add: do_drain_def)
  from follows_emit [OF Cons.prems(2) this, of "[]"] e
  have f: "follows pid name N s h (emit_own ?e ?u) h1" "js_pending (emit_own ?e ?u) = p1" by simp_all
  have s1: "js_queue (emit_own ?e ?u) = ts" "js_phase (emit_own ?e ?u) = Draining"
    using Cons.prems(1) by (simp_all add: emit_own_def place_own_def)
  have "drain_messages N pid name (js_queue (emit_own ?e ?u)) (js_pending (emit_own ?e ?u)) h1 = (p, h')"
    using Cons.prems(3) Cons.hyps(2) [symmetric] e f(2) s1(1) by simp
  from Cons.hyps(1) [OF _ s1(2) _ this] s1(1) f(1) obtain s' where
    "follows pid name N (emit_own ?e ?u) h1 s' h'" "js_phase s' = Draining" "js_queue s' = []" "js_pending s' = p"
    unfolding follows_def by metis
  with follows_trans [OF f(1)] show ?case by blast
qed

lemma flush_follows:
  "js_phase s = Flushing \<Longrightarrow> answers N s h \<Longrightarrow> flush_pending N (js_pending s) h = (p, h') \<Longrightarrow>
   \<exists>s'. follows pid name N s h s' h' \<and> js_phase s' = Returned \<and> js_queue s' = js_queue s \<and> js_pending s' = p"
proof (induction "length (js_pending s)" arbitrary: s h)
  case 0
  then have p: "p = []" "h' = h" "js_pending s = []" by (simp_all add: flush_pending.simps)
  have "follows pid name N s h (s\<lparr>js_phase := Returned\<rparr>) (h @ [])"
    by (rule follows_quiet [OF 0(3) j_flushed]) (use 0 in simp_all)
  with p show ?case by (intro exI [of _ "s\<lparr>js_phase := Returned\<rparr>"]) simp
next
  case (Suc n)
  then have ne: "js_pending s \<noteq> []" by auto
  have step: "joiner_step pid name s (do_flush s)" by (rule j_flush [OF Suc(3) ne])
  let ?x = "ToEvents (last (js_pending s))"
  note now = answers_now [OF Suc(4), of "last (js_pending s)"]
  show ?case
  proof (cases "has_room s")
    case True
    let ?h1 = "h @ [TrySend ?x True]"
    have f: "follows pid name N s h (do_flush s) ?h1" unfolding follows_def
    proof (intro conjI exI [of _ "[TrySend ?x True]"])
      show "answers N (do_flush s) ?h1"
        by (rule answers_later [OF Suc(4)]) (simp_all add: do_flush_def place_own_def True)
    qed (use step True in \<open>auto simp: do_flush_def place_own_def\<close>)
    have "flush_pending N (js_pending (do_flush s)) ?h1 = (p, h')"
      using Suc(5) ne now True
      by (simp add: flush_pending.simps [of N "js_pending s"] try_send_def Let_def do_flush_def place_own_def)
    moreover have "js_phase (do_flush s) = Flushing" "n = length (js_pending (do_flush s))"
        "js_queue (do_flush s) = js_queue s"
      using Suc(2,3) True by (simp_all add: do_flush_def place_own_def)
    moreover have "answers N (do_flush s) ?h1" using f by (simp add: follows_def)
    ultimately obtain s' where "follows pid name N (do_flush s) ?h1 s' h'" "js_phase s' = Returned"
        "js_queue s' = js_queue s" "js_pending s' = p"
      using Suc(1) [of "do_flush s" ?h1] by metis
    with follows_trans [OF f] show ?thesis by blast
  next
    case False
    have "p = []" "h' = h @ [TrySend ?x False]"
      using Suc(5) ne now False by (simp_all add: flush_pending.simps [of N "js_pending s"] try_send_def Let_def)
    moreover have "follows pid name N s h (do_flush s) (h @ [TrySend ?x False])"
      by (rule follows_quiet [OF Suc(4) step]) (simp_all add: do_flush_def False)
    ultimately show ?thesis by (intro exI [of _ "do_flush s"]) (simp add: do_flush_def False)
  qed
qed

lemma drain_state_follows:
  assumes "js_phase s = Looping" and "answers N s (ls_log ls)"
    and "js_queue s = ls_queue ls" and "js_pending s = ls_pending ls"
  shows "\<exists>s'. follows pid name N s (ls_log ls) s' (ls_log (drain_state N pid name ls))
    \<and> js_phase s' = Returned \<and> js_queue s' = [] \<and> js_pending s' = ls_pending (drain_state N pid name ls)"
proof -
  obtain p1 h1 where d: "drain_messages N pid name (ls_queue ls) (ls_pending ls) (ls_log ls) = (p1, h1)"
    by fastforce
  obtain p2 h2 where f: "flush_pending N p1 h1 = (p2, h2)" by fastforce
  let ?s1 = "s\<lparr>js_phase := Draining\<rparr>"
  have 1: "follows pid name N s (ls_log ls) ?s1 (ls_log ls @ [])"
    by (rule follows_quiet [OF assms(2) j_stop [OF assms(1)]]) simp_all
  then have a1: "answers N ?s1 (ls_log ls)" by (simp add: follows_def)
  have "drain_messages N pid name (js_queue ?s1) (js_pending ?s1) (ls_log ls) = (p1, h1)"
    using d assms(3,4) by simp
  from drain_follows [OF _ a1 this] obtain s2 where 2: "follows pid name N ?s1 (ls_log ls) s2 h1"
      "js_phase s2 = Draining" "js_queue s2 = []" "js_pending s2 = p1" by auto
  let ?s3 = "s2\<lparr>js_phase := Flushing\<rparr>"
  have a2: "answers N s2 h1" using 2(1) by (simp add: follows_def)
  have 3: "follows pid name N s2 h1 ?s3 (h1 @ [])"
    by (rule follows_quiet [OF a2 j_drained [OF 2(2,3)]]) simp_all
  then have a3: "answers N ?s3 h1" by (simp add: follows_def)
  have ph: "js_phase ?s3 = Flushing" and q: "js_queue ?s3 = []"
      and f3: "flush_pending N (js_pending ?s3) h1 = (p2, h2)"
    using f 2(3,4) by simp_all
  from flush_follows [OF ph a3 f3, unfolded q] obtain s4 where 4: "follows pid name N ?s3 h1 s4 h2"
      "js_phase s4 = Returned" "js_queue s4 = []" "js_pending s4 = p2" by blast
  have "follows pid name N s (ls_log ls) s2 h1"
    by (rule follows_trans [OF _ 2(1)]) (use 1 in simp)
  moreover have "follows pid name N s2 h1 s4 h2"
    by (rule follows_trans [OF _ 4(1)]) (use 3 in simp)
  ultimately have "follows pid name N s (ls_log ls) s4 h2" by (rule follows_trans)
  moreover have "ls_log (drain_state N pid name ls) = h2" "ls_pending (drain_state N pid name ls) = p2"
    by (simp_all add: drain_state_def drain_and_flush_def d f)
  ultimately show ?thesis using 4(2-4) by (intro exI [of _ s4]) simp
qed

lemma process_follows:
  assumes "js_phase s = Looping" and "js_queue s = t # ts" and "answers N s h"
    and "process_outgoing_message K N t name pid (js_pending s) h = (r, h')"
  shows "\<exists>s'. follows pid name N s h s' h' \<and> js_queue s' = ts
    \<and> (case r of Inl e \<Rightarrow> js_phase s' = Returned \<and> js_pending s' = js_pending s
         | Inr p \<Rightarrow> js_phase s' = Looping \<and> js_pending s' = p)"
proof -
  have fail: "\<exists>s'. follows pid name N s h s' h' \<and> js_queue s' = ts
      \<and> js_phase s' = Returned \<and> js_pending s' = js_pending s"
    if "h' = h @ k" "accepted k = []" for k
  proof -
    have "follows pid name N s h (s\<lparr>js_queue := ts, js_phase := Returned\<rparr>) (h @ k)"
      by (rule follows_quiet [OF assms(3) j_fail [OF assms(1,2)]]) (simp_all add: that)
    with that show ?thesis by (intro exI [of _ "s\<lparr>js_queue := ts, js_phase := Returned\<rparr>"]) simp
  qed
  show ?thesis
  proof (cases "encode_message K (wire_chat name t)")
    case (Inl e)
    with assms(4) fail [of "[]"] show ?thesis by (auto simp: process_outgoing_message_def)
  next
    case (Inr f)
    obtain x h1 where w: "joiner_write_frame N f h = (x, h1)" by fastforce
    obtain k0 where k0: "h1 = h @ k0" "accepted k0 = []"
      using w unfolding joiner_write_frame_def by (cases rule: write_flush_cases) auto
    show ?thesis
    proof (cases x)
      case (Inl e)
      with assms(4) Inr w k0 fail [of k0] show ?thesis by (auto simp: process_outgoing_message_def)
    next
      case x: (Inr u)
      let ?e = "make_event pid name t"
      let ?u = "s\<lparr>js_queue := ts, js_written := js_written s @ [t]\<rparr>"
      obtain p where e: "try_emit N ?e (js_pending s) (h @ k0) = (p, h')" "r = Inr p"
        using assms(4) Inr w x k0(1) by (auto simp: process_outgoing_message_def Let_def split: prod.splits)
      have "joiner_step pid name s (emit_own ?e ?u)"
        using j_write [OF assms(1,2)] by (simp add: do_write_def)
      from follows_emit [OF assms(3) this _ _ _ _ e(1) k0(2)]
      have "follows pid name N s h (emit_own ?e ?u) h' \<and> js_pending (emit_own ?e ?u) = p" by simp
      moreover have "js_queue (emit_own ?e ?u) = ts" "js_phase (emit_own ?e ?u) = Looping"
        using assms(1) by (simp_all add: emit_own_def place_own_def)
      ultimately show ?thesis using e(2) by auto
    qed
  qed
qed

section \<open>Properties\<close>

text \<open>
  C20. What the user of a joined room sees, under any interleaving of reader, write loop, user and
  interface: what was on the channel before, then a merge of the messages of the hub, all of them
  and in order, and of the own texts. Own texts that found a place at once come in the order in
  which they were written (\<open>a\<close>), those held back come at the end in reverse (\<open>b\<close>), and the others
  are held back still, or dropped (\<open>d\<close>). No text is shown twice, none is shown before it has been
  written, but at the end those that were never written; the channel holds at most 256 events.
\<close>

theorem joined_user_sees:
  assumes "joiner_steps pid name (js_init chan) s" and "length chan \<le> 256"
  shows "length (js_chan s) \<le> 256 \<and> (\<exists>z a b d. js_shown s @ js_chan s = chan @ z
    \<and> z \<in> shuffles (a @ b) (map joiner_event (js_reads s))
    \<and> map (make_event pid name) (js_written s @ js_unsent s) \<in> shuffles a (d @ rev b)
    \<and> (js_phase s = Looping \<longrightarrow> js_unsent s = [] \<and> b = [] \<and> d = js_pending s))"
proof -
  have ok: "joiner_ok chan pid name s" by (rule joiner_ok_steps [OF assms(1)])
  obtain z where z: "z \<in> shuffles (js_own s) (map joiner_event (js_reads s))" "js_shown s @ js_chan s = chan @ z"
    using ok unfolding joiner_ok_def merged_def by blast
  obtain a b d where h: "js_own s = a @ b" "own_events pid name s \<in> shuffles a (d @ rev b)"
      "js_phase s \<in> {Looping, Draining, Flushing} \<longrightarrow> js_pending s = d"
      "js_phase s \<in> {Looping, Draining} \<longrightarrow> b = []"
    using ok unfolding joiner_ok_def held_back_def by blast
  have "js_phase s = Looping \<longrightarrow> js_unsent s = [] \<and> b = [] \<and> d = js_pending s"
    using ok h(3,4) by (auto simp: joiner_ok_def)
  moreover have "length (js_chan s) \<le> 256"
    using ok assms(2) by (simp add: joiner_ok_def EVENT_CHAN_CAP_def)
  ultimately show ?thesis using z h(1,2)
    by (intro conjI exI [of _ z] exI [of _ a] exI [of _ b] exI [of _ d]) (simp_all add: own_events_def)
qed

text \<open>
  C21. A pass of the write loop refines the steps of the joined room: it takes the same texts,
  holds back the same events, places those that its \<open>try_send\<close> calls get accepted, and goes on
  exactly when the steps leave the loop running.
\<close>

theorem write_pass_refines:
  assumes pass: "write_loop_step K N name pid p ls = (r, ls')" and loop: "js_phase s = Looping"
    and queue: "js_queue s = ls_queue ls @ p_arrivals p" and pending: "js_pending s = ls_pending ls"
    and ans: "answers N s (ls_log ls)" and closed: "p_events_closed p \<Longrightarrow> js_gone s"
  shows "\<exists>s' k. joiner_steps pid name s s' \<and> ls_log ls' = ls_log ls @ k
    \<and> map ToEvents (js_own s') = map ToEvents (js_own s) @ accepted k
    \<and> js_queue s' = ls_queue ls' \<and> js_pending s' = ls_pending ls' \<and> (r = None \<longleftrightarrow> js_phase s' = Looping)"
proof -
  let ?ls = "ls\<lparr>ls_queue := ls_queue ls @ p_arrivals p\<rparr>"
  have "\<exists>s'. follows pid name N s (ls_log ls) s' (ls_log ls')
      \<and> js_queue s' = ls_queue ls' \<and> js_pending s' = ls_pending ls' \<and> (r = None \<longleftrightarrow> js_phase s' = Looping)"
  proof (cases "p_shutdown p \<or> p_reader_done p \<or> ls_queue ?ls = [] \<and> p_senders_gone p")
    case True
    then have "r = Some (Inr ())" "ls' = drain_state N pid name ?ls"
      using pass by (auto simp: write_loop_step_def Let_def split: if_splits)
    with drain_state_follows [of s N ?ls pid name] loop ans queue pending show ?thesis
      by (auto simp: drain_state_def split: prod.splits)
  next
    case run: False
    show ?thesis
    proof (cases "ls_queue ?ls")
      case Nil
      show ?thesis
      proof (cases "p_events_closed p")
        case True
        have "follows pid name N s (ls_log ls) (s\<lparr>js_phase := Returned\<rparr>) (ls_log ls @ [])"
          by (rule follows_quiet [OF ans j_deaf]) (use loop queue Nil True closed in simp_all)
        moreover have "r \<noteq> None" "ls' = ?ls"
          using pass run Nil True by (auto simp: write_loop_step_def Let_def)
        ultimately show ?thesis using queue pending
          by (intro exI [of _ "s\<lparr>js_phase := Returned\<rparr>"]) simp
      next
        case False
        then have "r = None" "ls' = ?ls" using pass run Nil by (auto simp: write_loop_step_def Let_def)
        with follows_refl [OF ans] queue pending loop show ?thesis by (intro exI [of _ s]) simp
      qed
    next
      case (Cons t ts)
      obtain x h' where x: "process_outgoing_message K N t name pid (js_pending s) (ls_log ls) = (x, h')"
        by fastforce
      from process_follows [OF loop _ ans x, of ts] queue Cons obtain s' where
        s': "follows pid name N s (ls_log ls) s' h'" "js_queue s' = ts"
          "case x of Inl e \<Rightarrow> js_phase s' = Returned \<and> js_pending s' = js_pending s
             | Inr p \<Rightarrow> js_phase s' = Looping \<and> js_pending s' = p" by auto
      have "ls_queue ls' = ts" "ls_log ls' = h'"
          "case x of Inl e \<Rightarrow> r = Some (Inl e) \<and> ls_pending ls' = ls_pending ls
             | Inr p \<Rightarrow> r = None \<and> ls_pending ls' = p"
        using pass run Cons x pending by (auto simp: write_loop_step_def Let_def split: sum.splits)
      with s' pending show ?thesis by (intro exI [of _ s']) (auto split: sum.splits)
    qed
  qed
  then show ?thesis unfolding follows_def by blast
qed

text \<open>Filling the event channel with messages of the hub.\<close>

lemma fill_steps:
  "n \<le> EVENT_CHAN_CAP \<Longrightarrow> joiner_steps pid name (js_init [])
     ((js_init [])\<lparr>js_chan := replicate n (joiner_event m), js_reads := replicate n m\<rparr>)"
proof (induction n)
  case 0
  have "(js_init [])\<lparr>js_chan := [], js_reads := []\<rparr> = js_init []" by (simp add: js_init_def)
  then show ?case by simp
next
  case (Suc n)
  let ?s = "(js_init [])\<lparr>js_chan := replicate n (joiner_event m), js_reads := replicate n m\<rparr>"
  have "joiner_step pid name ?s (do_frame m ?s)"
    by (rule j_frame) (use Suc.prems in \<open>simp_all add: js_init_def has_room_def\<close>)
  moreover have "do_frame m ?s = (js_init [])\<lparr>js_chan := replicate (Suc n) (joiner_event m),
      js_reads := replicate (Suc n) m\<rparr>"
    by (simp add: do_frame_def replicate_append_same)
  ultimately show ?case using Suc by (metis Suc_leD rtranclp.rtrancl_into_rtrancl)
qed

lemma steps_snoc:
  "joiner_steps pid name s t \<Longrightarrow> joiner_step pid name t u \<Longrightarrow> joiner_steps pid name s u"
  by (rule rtranclp.rtrancl_into_rtrancl)

lemma reversed_run:
  "\<exists>s. joiner_steps pid name (js_init []) s \<and> js_written s = [t1, t2] \<and> js_unsent s = []
    \<and> js_own s = [make_event pid name t2, make_event pid name t1]"
proof -
  let ?m = "wire_chat ''h'' ''x''"
  let ?x = "joiner_event ?m"
  let ?e = "make_event pid name"
  let ?step = "joiner_step pid name"
  define F where "F = replicate 254 ?x"
  define R where "R = replicate 256 ?m"
  have F: "replicate 256 ?x = ?x # ?x # F" "length F = 254"
    unfolding F_def by (simp_all flip: replicate_Suc)
  define S where "S ph q p chan shown w own = \<lparr>js_phase = ph, js_queue = q, js_pending = p, js_chan = chan,
    js_gone = False, js_shown = shown, js_written = w, js_unsent = [], js_own = own, js_reads = R\<rparr>"
    for ph q p chan shown w own
  let ?C = "?x # ?x # F"
  have full: "joiner_steps pid name (js_init []) (S Looping [] [] ?C [] [] [])"
    using fill_steps [of 256 pid name ?m] F(1) by (simp add: EVENT_CHAN_CAP_def S_def R_def js_init_def)
  have no_room: "\<not> has_room (S ph q p ?C shown w own)" for ph q p shown w own
    by (simp add: S_def has_room_def F(2) EVENT_CHAN_CAP_def)
  have room: "has_room (S ph q p F shown w own)" "has_room (S ph q p (F @ [y]) shown w own)" for ph q p shown w own y
    by (simp_all add: S_def has_room_def F(2) EVENT_CHAN_CAP_def)
  have s1: "?step (S Looping [] [] ?C [] [] []) (S Looping [t1] [] ?C [] [] [])"
    using j_type [of "S Looping [] [] ?C [] [] []" pid name t1] by (simp add: S_def SEND_CHAN_CAP_def)
  have s2: "?step (S Looping [t1] [] ?C [] [] []) (S Looping [t1, t2] [] ?C [] [] [])"
    using j_type [of "S Looping [t1] [] ?C [] [] []" pid name t2] by (simp add: S_def SEND_CHAN_CAP_def)
  have s3: "?step (S Looping [t1, t2] [] ?C [] [] []) (S Looping [t2] [?e t1] ?C [] [t1] [])"
    using j_write [of "S Looping [t1, t2] [] ?C [] [] []" t1 "[t2]" pid name] no_room [of Looping "[t2]" "[]" "[]" "[t1]" "[]"]
    by (simp add: S_def do_write_def emit_own_def)
  have s4: "?step (S Looping [t2] [?e t1] ?C [] [t1] []) (S Looping [] [?e t1, ?e t2] ?C [] [t1, t2] [])"
    using j_write [of "S Looping [t2] [?e t1] ?C [] [t1] []" t2 "[]" pid name]
      no_room [of Looping "[]" "[?e t1]" "[]" "[t1, t2]" "[]"]
    by (simp add: S_def do_write_def emit_own_def)
  have s5: "?step (S Looping [] [?e t1, ?e t2] ?C [] [t1, t2] [])
      (S Looping [] [?e t1, ?e t2] (?x # F) [?x] [t1, t2] [])"
    using j_show [of "S Looping [] [?e t1, ?e t2] ?C [] [t1, t2] []" ?x "?x # F" pid name] by (simp add: S_def)
  have s6: "?step (S Looping [] [?e t1, ?e t2] (?x # F) [?x] [t1, t2] [])
      (S Looping [] [?e t1, ?e t2] F [?x, ?x] [t1, t2] [])"
    using j_show [of "S Looping [] [?e t1, ?e t2] (?x # F) [?x] [t1, t2] []" ?x F pid name] by (simp add: S_def)
  have s7: "?step (S Looping [] [?e t1, ?e t2] F [?x, ?x] [t1, t2] [])
      (S Draining [] [?e t1, ?e t2] F [?x, ?x] [t1, t2] [])"
    using j_stop [of "S Looping [] [?e t1, ?e t2] F [?x, ?x] [t1, t2] []" pid name] by (simp add: S_def)
  have s8: "?step (S Draining [] [?e t1, ?e t2] F [?x, ?x] [t1, t2] [])
      (S Flushing [] [?e t1, ?e t2] F [?x, ?x] [t1, t2] [])"
    using j_drained [of "S Draining [] [?e t1, ?e t2] F [?x, ?x] [t1, t2] []" pid name] by (simp add: S_def)
  have s9: "?step (S Flushing [] [?e t1, ?e t2] F [?x, ?x] [t1, t2] [])
      (S Flushing [] [?e t1] (F @ [?e t2]) [?x, ?x] [t1, t2] [?e t2])"
    using j_flush [of "S Flushing [] [?e t1, ?e t2] F [?x, ?x] [t1, t2] []" pid name]
      room(1) [of Flushing "[]" "[?e t1, ?e t2]" "[?x, ?x]" "[t1, t2]" "[]"]
    by (simp add: S_def do_flush_def place_own_def)
  have s10: "?step (S Flushing [] [?e t1] (F @ [?e t2]) [?x, ?x] [t1, t2] [?e t2])
      (S Flushing [] [] (F @ [?e t2, ?e t1]) [?x, ?x] [t1, t2] [?e t2, ?e t1])"
    using j_flush [of "S Flushing [] [?e t1] (F @ [?e t2]) [?x, ?x] [t1, t2] [?e t2]" pid name]
      room(2) [of Flushing "[]" "[?e t1]" "?e t2" "[?x, ?x]" "[t1, t2]" "[?e t2]"]
    by (simp add: S_def do_flush_def place_own_def)
  have "joiner_steps pid name (js_init []) (S Looping [t2] [?e t1] ?C [] [t1] [])"
    by (rule steps_snoc, rule steps_snoc, rule steps_snoc, rule full, rule s1, rule s2, rule s3)
  then have "joiner_steps pid name (js_init []) (S Looping [] [?e t1, ?e t2] F [?x, ?x] [t1, t2] [])"
    by (rule steps_snoc [OF steps_snoc [OF steps_snoc]]) (rule s4, rule s5, rule s6)
  then have "joiner_steps pid name (js_init []) (S Flushing [] [?e t1, ?e t2] F [?x, ?x] [t1, t2] [])"
    by (rule steps_snoc [OF steps_snoc]) (rule s7, rule s8)
  then have r10: "joiner_steps pid name (js_init []) (S Flushing [] [] (F @ [?e t2, ?e t1]) [?x, ?x] [t1, t2] [?e t2, ?e t1])"
    by (rule steps_snoc [OF steps_snoc]) (rule s9, rule s10)
  show ?thesis
  proof (rule exI, intro conjI)
    show "joiner_steps pid name (js_init []) (S Flushing [] [] (F @ [?e t2, ?e t1]) [?x, ?x] [t1, t2] [?e t2, ?e t1])"
      by (rule r10)
  qed (simp_all add: S_def)
qed

text \<open>
  Own texts can be shown in reverse: with the event channel full, two texts that were written
  one after the other are both held back, and a shutdown shows the second one first.
\<close>

theorem own_texts_reversed:
  "\<exists>s. joiner_steps pid name (js_init []) s \<and> js_written s = [t1, t2] \<and> js_unsent s = []
    \<and> js_own s = [make_event pid name t2, make_event pid name t1]"
  by (rule reversed_run)

theorem joined_user_sees_witness:
  "\<exists>s z a b d. joiner_steps (PeerId ''x'') ''al'' (js_init []) s \<and> js_written s = [''a'', ''b'']
    \<and> js_shown s @ js_chan s = z \<and> z \<in> shuffles (a @ b) (map joiner_event (js_reads s))
    \<and> map (make_event (PeerId ''x'') ''al'') (js_written s) \<in> shuffles a (d @ rev b)"
proof -
  obtain s where s: "joiner_steps (PeerId ''x'') ''al'' (js_init []) s" "js_written s = [''a'', ''b'']"
      "js_unsent s = []"
    using reversed_run [of "PeerId ''x''" "''al''" "''a''" "''b''"] by blast
  from joined_user_sees [OF s(1)] obtain z a b d where "js_shown s @ js_chan s = [] @ z"
      "z \<in> shuffles (a @ b) (map joiner_event (js_reads s))"
      "map (make_event (PeerId ''x'') ''al'') (js_written s @ js_unsent s) \<in> shuffles a (d @ rev b)" by auto
  with s show ?thesis
    by (intro exI [of _ s] exI [of _ z] exI [of _ a] exI [of _ b] exI [of _ d]) simp
qed

definition counting_net :: net where
  "counting_net = (mem_net [])\<lparr>n_try_send := (\<lambda>h x. length (accepted h) < EVENT_CHAN_CAP)\<rparr>"

theorem write_pass_refines_witness:
  "\<exists>r ls' s' k. write_loop_step sample_crates counting_net ''al'' (PeerId ''x'') \<lparr>p_arrivals = [''hi''],
        p_shutdown = False, p_reader_done = False, p_senders_gone = False, p_events_closed = False\<rparr>
        \<lparr>ls_queue = [], ls_pending = [], ls_log = []\<rparr> = (r, ls')
    \<and> joiner_steps (PeerId ''x'') ''al'' ((js_init [])\<lparr>js_queue := [''hi'']\<rparr>) s'
    \<and> ls_log ls' = k \<and> map ToEvents (js_own s') = accepted k"
proof -
  let ?p = "\<lparr>p_arrivals = [''hi''], p_shutdown = False, p_reader_done = False, p_senders_gone = False,
    p_events_closed = False\<rparr>"
  let ?ls = "\<lparr>ls_queue = [], ls_pending = [], ls_log = []\<rparr>"
  let ?s = "(js_init [])\<lparr>js_queue := [''hi'']\<rparr>"
  obtain r ls' where run: "write_loop_step sample_crates counting_net ''al'' (PeerId ''x'') ?p ?ls = (r, ls')"
    by fastforce
  have "js_phase ?s = Looping" "js_queue ?s = ls_queue ?ls @ p_arrivals ?p" "js_pending ?s = ls_pending ?ls"
      "answers counting_net ?s (ls_log ?ls)" "p_events_closed ?p \<Longrightarrow> js_gone ?s" "js_own ?s = []"
    by (simp_all add: js_init_def answers_def counting_net_def)
  from write_pass_refines [OF run this(1-5)] this(6) run show ?thesis by force
qed

end
