(* ===== verification/Rust_Text.thy ===== *)
theory Rust_Text
  imports Rust_Std
begin

text \<open>
  The string operations of the standard library that the command line program uses, on strings as
  lists of UTF-8 bytes: character boundaries, \<open>insert\<close>, \<open>remove\<close> and slicing (which panic off a
  boundary: \<open>None\<close>), \<open>trim\<close> and \<open>split_whitespace\<close> with the Unicode white space.

  A Rust \<open>char\<close> is the string of its encoding.
\<close>

section \<open>Boundaries\<close>

definition cont_byte :: "char \<Rightarrow> bool" where
  "cont_byte c \<longleftrightarrow> 128 \<le> (of_char c :: nat) \<and> (of_char c :: nat) < 192"

definition is_char_boundary :: "string \<Rightarrow> nat \<Rightarrow> bool" where
  "is_char_boundary s i \<longleftrightarrow> i = 0 \<or> i = length s \<or> (i < length s \<and> \<not> cont_byte (s ! i))"

text \<open>The length of a character from its first byte.\<close>

definition char_width :: "char \<Rightarrow> nat" where
  "char_width c = (let n = (of_char c :: nat) in
     if n < 128 then 1 else if n < 224 then 2 else if n < 240 then 3 else 4)"

text \<open>What the encoding of a character looks like: a first byte and continuation bytes.\<close>

definition rust_char :: "string \<Rightarrow> bool" where
  "rust_char c \<longleftrightarrow> (case c of [] \<Rightarrow> False | b # bs \<Rightarrow> \<not> cont_byte b \<and> list_all cont_byte bs
     \<and> length c = char_width b)"

definition str_insert :: "string \<Rightarrow> nat \<Rightarrow> string \<Rightarrow> string option" where
  "str_insert s i c = (if is_char_boundary s i then Some (take i s @ c @ drop i s) else None)"

definition str_remove :: "string \<Rightarrow> nat \<Rightarrow> string option" where
  "str_remove s i =
     (if is_char_boundary s i \<and> i < length s
      then Some (take i s @ drop (i + char_width (s ! i)) s) else None)"

definition str_slice_to :: "string \<Rightarrow> nat \<Rightarrow> string option" where
  "str_slice_to s i = (if is_char_boundary s i then Some (take i s) else None)"

section \<open>White space\<close>

text \<open>The encodings of the characters with the property \<open>White_Space\<close>.\<close>

definition white_chars :: "string list" where
  "white_chars = map (\<lambda>n. [char_of (n :: nat)]) [9, 10, 11, 12, 13, 32]
     @ map (map (\<lambda>n. char_of (n :: nat)))
         ([[194, 133], [194, 160], [225, 154, 128]]
          @ map (\<lambda>n. [226, 128, n]) [128, 129, 130, 131, 132, 133, 134, 135, 136, 137, 138, 168, 169, 175]
          @ [[226, 129, 159], [227, 128, 128]])"

definition white_prefix :: "string \<Rightarrow> string option" where
  "white_prefix s = find (\<lambda>w. take (length w) s = w) white_chars"

definition white_suffix :: "string \<Rightarrow> string option" where
  "white_suffix s = find (ends_with s) white_chars"

lemma white_nonempty: "w \<in> set white_chars \<Longrightarrow> 0 < length w"
  by (auto simp: white_chars_def)

lemma white_prefix_Some:
  assumes "white_prefix s = Some w"
  shows "0 < length w \<and> length w \<le> length s \<and> take (length w) s = w"
proof -
  have w: "w \<in> set white_chars" "take (length w) s = w"
    using assms by (auto simp: white_prefix_def find_Some_iff)
  then show ?thesis using white_nonempty by (metis length_take min.cobounded1)
qed

lemma white_suffix_Some:
  assumes "white_suffix s = Some w"
  shows "0 < length w \<and> length w \<le> length s"
  using assms white_nonempty by (auto simp: white_suffix_def find_Some_iff ends_with_def)

lemma white_shrinks:
  "white_prefix s = Some w \<Longrightarrow> length s - length w < length s"
  "white_suffix s = Some w \<Longrightarrow> length s - length w < length s"
  using white_prefix_Some [of s w] white_suffix_Some [of s w] by linarith+

function trim_start :: "string \<Rightarrow> string" where
  "trim_start s = (case white_prefix s of None \<Rightarrow> s | Some w \<Rightarrow> trim_start (drop (length w) s))"
  by pat_completeness auto
termination
  by (relation "measure length") (simp_all add: white_shrinks)

function trim_end :: "string \<Rightarrow> string" where
  "trim_end s = (case white_suffix s of
     None \<Rightarrow> s | Some w \<Rightarrow> trim_end (take (length s - length w) s))"
  by pat_completeness auto
termination
  by (relation "measure length") (simp_all add: white_shrinks)

declare trim_start.simps [simp del] trim_end.simps [simp del]

definition trim :: "string \<Rightarrow> string" where
  "trim s = trim_end (trim_start s)"

text \<open>The words between white space; \<open>cur\<close> is the word being read.\<close>

function words_from :: "string \<Rightarrow> string \<Rightarrow> string list" where
  "words_from cur s =
     (case s of
        [] \<Rightarrow> if cur = [] then [] else [cur]
      | c # cs \<Rightarrow>
          (case white_prefix s of
             None \<Rightarrow> words_from (cur @ [c]) cs
           | Some w \<Rightarrow> (if cur = [] then [] else [cur]) @ words_from [] (drop (length w) s)))"
  by pat_completeness auto
termination
  by (relation "measure (\<lambda>(cur, s). length s)") (auto dest: white_shrinks(1))

declare words_from.simps [simp del]

definition split_whitespace :: "string \<Rightarrow> string list" where
  "split_whitespace s = words_from [] s"

fun join_with :: "string \<Rightarrow> string list \<Rightarrow> string" where
  "join_with sep [] = []"
| "join_with sep [x] = x"
| "join_with sep (x # xs) = x @ sep @ join_with sep xs"

section \<open>Lemmas\<close>

lemma insert_at_end [simp]: "str_insert s (length s) c = Some (s @ c)"
  by (simp add: str_insert_def is_char_boundary_def)

lemma insert_inside_char:
  assumes "rust_char c" and "length c \<noteq> 1"
  shows "str_insert (s @ c) (length s + 1) d = None"
proof -
  obtain b e bs where "c = b # e # bs" "cont_byte e"
    using assms by (cases c; cases "tl c") (auto simp: rust_char_def)
  then show ?thesis by (simp add: str_insert_def is_char_boundary_def nth_append)
qed

lemma ascii_not_cont: "(of_char c :: nat) < 128 \<Longrightarrow> \<not> cont_byte c"
  by (simp add: cont_byte_def)

lemma ascii_boundary: "is_ascii s \<Longrightarrow> i \<le> length s \<Longrightarrow> is_char_boundary s i"
  using ascii_not_cont by (auto simp: is_char_boundary_def is_ascii_def)

lemma ascii_width: "(of_char c :: nat) < 128 \<Longrightarrow> char_width c = 1"
  by (simp add: char_width_def)

lemma ascii_insert: "is_ascii s \<Longrightarrow> i \<le> length s \<Longrightarrow> str_insert s i c = Some (take i s @ c @ drop i s)"
  by (simp add: str_insert_def ascii_boundary)

lemma ascii_remove:
  "is_ascii s \<Longrightarrow> i < length s \<Longrightarrow> str_remove s i = Some (take i s @ drop (Suc i) s)"
  by (simp add: str_remove_def ascii_boundary ascii_width is_ascii_def)

lemma ascii_slice: "is_ascii s \<Longrightarrow> i \<le> length s \<Longrightarrow> str_slice_to s i = Some (take i s)"
  by (simp add: str_slice_to_def ascii_boundary)

lemma is_ascii_take_drop: "is_ascii s \<Longrightarrow> is_ascii (take i s) \<and> is_ascii (drop i s)"
  by (metis append_take_drop_id is_ascii_simps(3))

text \<open>What \<open>trim\<close> leaves neither starts nor ends with white space.\<close>

lemma trim_start_white: "white_prefix (trim_start s) = None"
  by (induction s rule: trim_start.induct)
     (simp add: trim_start.simps split: option.split)

lemma trim_end_white: "white_suffix (trim_end s) = None"
  by (induction s rule: trim_end.induct)
     (simp add: trim_end.simps split: option.split)

lemma trim_end_prefix: "\<exists>t. s = trim_end s @ t"
proof (induction s rule: trim_end.induct)
  case (1 s)
  show ?case
  proof (cases "white_suffix s")
    case None
    then show ?thesis by (simp add: trim_end.simps)
  next
    case (Some w)
    obtain t where "take (length s - length w) s = trim_end (take (length s - length w) s) @ t"
      using 1 Some by blast
    then have "s = trim_end s @ t @ drop (length s - length w) s"
      using Some by (simp add: trim_end.simps [of s])
        (metis append.assoc append_take_drop_id)
    then show ?thesis by blast
  qed
qed

lemma white_prefix_shorter:
  assumes "white_prefix (s @ t) = None"
  shows "white_prefix s = None"
proof (rule ccontr)
  assume "white_prefix s \<noteq> None"
  then obtain w where w: "w \<in> set white_chars" "take (length w) s = w"
    unfolding white_prefix_def by (auto simp: find_None_iff)
  then have "length w \<le> length s" by (metis length_take min.cobounded1)
  with w have "take (length w) (s @ t) = w" by simp
  with w(1) assms show False by (auto simp: white_prefix_def find_None_iff)
qed

lemma trim_white: "white_prefix (trim s) = None \<and> white_suffix (trim s) = None"
proof -
  obtain t where "trim_start s = trim s @ t"
    using trim_end_prefix [of "trim_start s"] by (auto simp: trim_def)
  then have "white_prefix (trim s) = None"
    using trim_start_white [of s] white_prefix_shorter by metis
  then show ?thesis using trim_end_white by (simp add: trim_def)
qed

lemma trim_trim [simp]: "trim (trim s) = trim s"
  using trim_white [of s]
  by (simp add: trim_def trim_start.simps [of "trim_end (trim_start s)"]
    trim_end.simps [of "trim_end (trim_start s)"])

text \<open>ASCII text without white space: \<open>trim\<close> leaves it alone, and it is one word.\<close>

definition visible :: "char \<Rightarrow> bool" where
  "visible c \<longleftrightarrow> (of_char c :: nat) < 128 \<and> (of_char c :: nat) \<notin> {9, 10, 11, 12, 13, 32}"

lemma white_ends:
  "w \<in> set white_chars \<Longrightarrow> \<not> visible (hd w) \<and> \<not> visible (last w)"
  by (auto simp: white_chars_def visible_def)

lemma visible_prefix: "visible c \<Longrightarrow> white_prefix (c # cs) = None"
proof -
  have "take (length w) (c # cs) = w \<Longrightarrow> w \<in> set white_chars \<Longrightarrow> c = hd w" for w
    using white_nonempty [of w] by (cases w) auto
  then show "visible c \<Longrightarrow> ?thesis"
    using white_ends by (auto simp: white_prefix_def find_None_iff)
qed

lemma visible_suffix: "s \<noteq> [] \<Longrightarrow> visible (last s) \<Longrightarrow> white_suffix s = None"
proof -
  have "ends_with s w \<Longrightarrow> w \<in> set white_chars \<Longrightarrow> last s = last w" for w
    using white_nonempty [of w] by (metis append_take_drop_id ends_with_def last_appendR length_greater_0_conv)
  then show "s \<noteq> [] \<Longrightarrow> visible (last s) \<Longrightarrow> ?thesis"
    using white_ends by (fastforce simp: white_suffix_def find_None_iff)
qed

lemma trim_Nil [simp]: "trim [] = []"
proof -
  have "white_prefix [] = None" by (cases "white_prefix []") (auto dest: white_prefix_Some)
  moreover have "white_suffix [] = None" by (cases "white_suffix []") (auto dest: white_suffix_Some)
  ultimately show ?thesis by (simp add: trim_def trim_start.simps [of "[]"] trim_end.simps [of "[]"])
qed

lemma trim_visible: "s \<noteq> [] \<Longrightarrow> visible (hd s) \<Longrightarrow> visible (last s) \<Longrightarrow> trim s = s"
  using visible_prefix [of "hd s" "tl s"] visible_suffix [of s]
  by (simp add: trim_def trim_start.simps [of s] trim_end.simps [of s])

lemma words_visible:
  "list_all visible s \<Longrightarrow> words_from cur s = (if cur @ s = [] then [] else [cur @ s])"
  by (induction s arbitrary: cur) (simp_all add: words_from.simps visible_prefix)

end
