(* ===== verification/Cli_App.thy ===== *)
theory Cli_App
  imports Rust_Text Peer_Table
begin

text \<open>
  The terminal interface of \<open>crates/cli/src/main.rs\<close>: the state \<open>App\<close>, what room events, keys and
  command results do to it, and what is drawn. The terminal itself (crossterm, ratatui) is not
  modelled: a key is its code and modifiers, a drawn screen is its texts.

  The cursor is a byte index into the input, and inserting or removing off a character boundary
  panics, as slicing does: \<open>None\<close>. A spawned task is the value that says what it will do with the
  room's handle. Clock readings are arguments, in nanoseconds; the one argument \<open>now\<close> of an operation
  stands for each of the readings it makes.
\<close>

section \<open>State\<close>

datatype mode = ModeBootstrap u8 string | ModeRunning | ModeShuttingDown nat

record disp_msg =
  dm_ts :: "nat option"
  dm_name :: string
  dm_text :: string
  dm_system :: bool

text \<open>\<open>app_handle\<close> and \<open>app_cmd_tx\<close> say whether there is a handle and a sender.\<close>

record app =
  app_mode :: mode
  app_handle :: bool
  app_msgs :: "disp_msg list"
  app_input :: string
  app_cursor :: nat
  app_scroll :: nat
  app_onion :: "string option"
  app_peers :: "peer_info list"
  app_timestamps :: bool
  app_quit :: bool
  app_bootstrap_start :: nat
  app_input_focused :: bool
  app_cmd_tx :: bool

definition app_new :: "nat \<Rightarrow> bool \<Rightarrow> app" where
  "app_new now timestamps = \<lparr>app_mode = ModeBootstrap 0 ''starting tor...'', app_handle = False,
     app_msgs = [], app_input = [], app_cursor = 0, app_scroll = 0, app_onion = None,
     app_peers = [], app_timestamps = timestamps, app_quit = False, app_bootstrap_start = now,
     app_input_focused = True, app_cmd_tx = False\<rparr>"

definition app_push :: "nat \<Rightarrow> string \<Rightarrow> string \<Rightarrow> bool \<Rightarrow> app \<Rightarrow> app" where
  "app_push now name txt system a = a\<lparr>app_msgs := app_msgs a @
     [\<lparr>dm_ts = (if app_timestamps a then Some now else None), dm_name = name, dm_text = txt,
       dm_system = system\<rparr>]\<rparr>"

abbreviation push_system :: "nat \<Rightarrow> string \<Rightarrow> app \<Rightarrow> app" where
  "push_system now txt a \<equiv> app_push now ''system'' txt True a"

definition at_bottom :: "app \<Rightarrow> bool" where
  "at_bottom a \<longleftrightarrow> app_scroll a = 0"

definition ONION_DISPLAY_LEN :: nat where
  "ONION_DISPLAY_LEN = 12"

definition MAX_DISPLAY_NAME :: nat where
  "MAX_DISPLAY_NAME = 20"

definition truncate_onion :: "string \<Rightarrow> string option" where
  "truncate_onion addr =
     (if ONION_DISPLAY_LEN < length addr then str_slice_to addr ONION_DISPLAY_LEN else Some addr)"

section \<open>Events of the room\<close>

definition handle_event :: "nat \<Rightarrow> chat_event \<Rightarrow> app \<Rightarrow> app option" where
  "handle_event now ev a =
     (case ev of
        BootstrapProgress pct \<Rightarrow>
          (case app_mode a of
             ModeBootstrap progress msg \<Rightarrow>
               Some (a\<lparr>app_mode := ModeBootstrap pct (if pct < 100 then ''bootstrapping tor...'' else msg)\<rparr>)
           | _ \<Rightarrow> Some a)
      | RoomReady address port \<Rightarrow>
          map_option (\<lambda>short. push_system now (''room ready: '' @ short @ ''...'')
              (a\<lparr>app_onion := Some address, app_mode := ModeRunning\<rparr>)) (truncate_onion address)
      | PeerJoin info \<Rightarrow>
          (let a1 = (if list_ex (\<lambda>p. pi_id p = pi_id info) (app_peers a) then a
                     else a\<lparr>app_peers := app_peers a @ [info]\<rparr>);
               a2 = push_system now (pi_name info @ '' joined'') a1
           in Some (case app_mode a of ModeBootstrap _ _ \<Rightarrow> a2\<lparr>app_mode := ModeRunning\<rparr> | _ \<Rightarrow> a2))
      | PeerLeave pid \<Rightarrow>
          Some (push_system now (display_peer_id pid @ '' left'')
            (a\<lparr>app_peers := filter (\<lambda>p. pi_id p \<noteq> pid) (app_peers a)\<rparr>))
      | Message pid name txt \<Rightarrow> Some (app_push now name txt False a)
      | InviteCreated code \<Rightarrow> Some (push_system now (''new invite code: '' @ code) a)
      | RoomClosed \<Rightarrow> Some ((push_system now ''room closed'' a)\<lparr>app_mode := ModeShuttingDown now\<rparr>)
      | ErrorEvent e \<Rightarrow> Some (push_system now (''error: '' @ display_chat_error e) a))"

section \<open>Commands\<close>

datatype spawned =
    SpawnSend string            \<comment> \<open>\<open>h.send(&t)\<close>\<close>
  | SpawnInvite "string option" \<comment> \<open>\<open>h.invite(name_arg)\<close>\<close>
  | SpawnPeers                  \<comment> \<open>\<open>h.peers()\<close>\<close>
  | SpawnQuit                   \<comment> \<open>\<open>h.quit()\<close>\<close>

definition em_dash :: string where
  "em_dash = map (\<lambda>n. char_of (n :: nat)) [226, 128, 148]"

definition help_lines :: "string list" where
  "help_lines = [''available commands:'',
     ''  /invite [name]  '' @ em_dash @ '' generate an invite code'',
     ''  /peers         '' @ em_dash @ '' list connected peers'',
     ''  /help          '' @ em_dash @ '' show this help'',
     ''  /quit          '' @ em_dash @ '' leave the room'']"

definition command_name :: "string \<Rightarrow> string" where
  "command_name cmd = (case split_whitespace cmd of [] \<Rightarrow> [] | w # ws \<Rightarrow> w)"

definition invite_arg :: "string \<Rightarrow> string option" where
  "invite_arg cmd = (case split_whitespace cmd of w # v # ws \<Rightarrow> Some v | _ \<Rightarrow> None)"

definition dispatch_command :: "nat \<Rightarrow> string \<Rightarrow> app \<Rightarrow> app \<times> spawned list" where
  "dispatch_command now cmd a =
     (if \<not> app_handle a then (push_system now ''room not ready'' a, [])
      else if \<not> app_cmd_tx a then (push_system now ''command channel not ready'' a, [])
      else if command_name cmd = ''invite'' then (a, [SpawnInvite (invite_arg cmd)])
      else if command_name cmd = ''peers'' then (a, [SpawnPeers])
      else if command_name cmd = ''quit'' then (a, [SpawnQuit])
      else if command_name cmd = ''help'' then (fold (push_system now) help_lines a, [])
      else (push_system now (''unknown command: /'' @ cmd) a, []))"

definition app_send :: "nat \<Rightarrow> app \<Rightarrow> app \<times> spawned list" where
  "app_send now a0 =
     (let txt = app_input a0; a = a0\<lparr>app_input := [], app_cursor := 0, app_scroll := 0\<rparr> in
      case txt of
        [] \<Rightarrow> (a, [])
      | c # cs \<Rightarrow>
          if c = CHR ''/'' then dispatch_command now cs a
          else if app_handle a then (a, [SpawnSend txt])
          else (a, []))"

text \<open>What a command's task sends back, and what the interface does with it.\<close>

datatype cmd_result = CmdInvite "string + string" | CmdPeers "peer_info list" | CmdQuit

definition handle_cmd_result :: "nat \<Rightarrow> cmd_result \<Rightarrow> app \<Rightarrow> app" where
  "handle_cmd_result now r a =
     (case r of
        CmdInvite (Inr code) \<Rightarrow> push_system now (''invite code: '' @ code) a
      | CmdInvite (Inl e) \<Rightarrow> push_system now (''invite failed: '' @ e) a
      | CmdPeers peers \<Rightarrow>
          if peers = [] then push_system now ''no peers connected'' a
          else push_system now (''peers: '' @ join_with '', '' (map pi_name peers)) a
      | CmdQuit \<Rightarrow> a\<lparr>app_quit := True\<rparr>)"

section \<open>Keys\<close>

datatype key_code = KEnter | KChar string | KBackspace | KDelete | KLeft | KRight | KHome | KEnd
  | KUp | KDown | KPageUp | KPageDown | KOther

datatype modifier = Shift | Control | Alt | OtherModifier

record key_event =
  ke_code :: key_code
  ke_modifiers :: "modifier set"

definition handle_key :: "nat \<Rightarrow> key_event \<Rightarrow> app \<Rightarrow> (app \<times> spawned list) option" where
  "handle_key now key a =
     (if ke_code key = KChar ''c'' \<and> Control \<in> ke_modifiers key
      then Some (a\<lparr>app_quit := True\<rparr>, [])
      else
        (case app_mode a of
           ModeBootstrap _ _ \<Rightarrow> Some (a, [])
         | ModeShuttingDown _ \<Rightarrow> Some (a, [])
         | ModeRunning \<Rightarrow>
             (case ke_code key of
                KEnter \<Rightarrow> Some (app_send now a)
              | KChar c \<Rightarrow>
                  if ke_modifiers key = {} \<or> ke_modifiers key = {Shift}
                  then map_option (\<lambda>s. (a\<lparr>app_input := s, app_cursor := app_cursor a + 1\<rparr>, []))
                         (str_insert (app_input a) (app_cursor a) c)
                  else Some (a, [])
              | KBackspace \<Rightarrow>
                  if 0 < app_cursor a
                  then map_option (\<lambda>s. (a\<lparr>app_input := s, app_cursor := app_cursor a - 1\<rparr>, []))
                         (str_remove (app_input a) (app_cursor a - 1))
                  else Some (a, [])
              | KDelete \<Rightarrow>
                  if app_cursor a < length (app_input a)
                  then map_option (\<lambda>s. (a\<lparr>app_input := s\<rparr>, [])) (str_remove (app_input a) (app_cursor a))
                  else Some (a, [])
              | KLeft \<Rightarrow>
                  Some (if 0 < app_cursor a then a\<lparr>app_cursor := app_cursor a - 1\<rparr> else a, [])
              | KRight \<Rightarrow>
                  Some (if app_cursor a < length (app_input a)
                        then a\<lparr>app_cursor := app_cursor a + 1\<rparr> else a, [])
              | KHome \<Rightarrow> Some (a\<lparr>app_cursor := 0\<rparr>, [])
              | KEnd \<Rightarrow> Some (a\<lparr>app_cursor := length (app_input a)\<rparr>, [])
              | KUp \<Rightarrow> Some (a\<lparr>app_scroll := app_scroll a + 1\<rparr>, [])
              | KDown \<Rightarrow> Some (a\<lparr>app_scroll := app_scroll a - 1\<rparr>, [])
              | KPageUp \<Rightarrow> Some (a\<lparr>app_scroll := app_scroll a + 10\<rparr>, [])
              | KPageDown \<Rightarrow> Some (a\<lparr>app_scroll := app_scroll a - 10\<rparr>, [])
              | KOther \<Rightarrow> Some (a, []))))"

section \<open>Drawing\<close>

definition SPINNER :: "string list" where
  "SPINNER = map (\<lambda>n. map (\<lambda>m. char_of (m :: nat)) [226, 160, n])
     [139, 153, 185, 184, 188, 180, 166, 167, 135, 143]"

definition SEC :: nat where
  "SEC = 1000000000"

definition render_bootstrap :: "nat \<Rightarrow> app \<Rightarrow> u8 \<Rightarrow> string \<Rightarrow> string" where
  "render_bootstrap now a progress msg =
     (let elapsed = (now - app_bootstrap_start a) div SEC;
          spinner = SPINNER ! (elapsed mod length SPINNER) in
      if progress = 0 then ''  '' @ spinner @ ''  '' @ msg
      else if progress < 100 then ''  '' @ spinner @ ''  '' @ msg @ ''  '' @ show_nat (unat progress) @ ''%''
      else ''  '' @ spinner @ ''  connecting...'')"

definition display_name :: "string \<Rightarrow> string option" where
  "display_name name =
     (if MAX_DISPLAY_NAME < length name
      then map_option (\<lambda>s. s @ ''...'') (str_slice_to name (MAX_DISPLAY_NAME - 3))
      else Some name)"

text \<open>A line of the message area; \<open>hhmm\<close> formats a time of day.\<close>

definition render_line :: "(nat \<Rightarrow> string) \<Rightarrow> disp_msg \<Rightarrow> string option" where
  "render_line hhmm m =
     map_option (\<lambda>prefix. (case dm_ts m of None \<Rightarrow> [] | Some ts \<Rightarrow> hhmm ts @ '' '') @ prefix @ dm_text m)
       (if dm_system m then Some ''[system] ''
        else map_option (\<lambda>n. ''['' @ n @ ''] '') (display_name (dm_name m)))"

fun all_some :: "'a option list \<Rightarrow> 'a list option" where
  "all_some [] = Some []"
| "all_some (None # xs) = None"
| "all_some (Some x # xs) = map_option ((#) x) (all_some xs)"

definition visible_end :: "app \<Rightarrow> nat" where
  "visible_end a = length (app_msgs a) - app_scroll a"

definition visible_start :: "nat \<Rightarrow> app \<Rightarrow> nat" where
  "visible_start height a = visible_end a - height"

text \<open>The slice \<open>msgs[start..end]\<close> panics unless \<open>start <= end <= len\<close>.\<close>

definition slice :: "nat \<Rightarrow> nat \<Rightarrow> 'a list \<Rightarrow> 'a list option" where
  "slice i j xs = (if i \<le> j \<and> j \<le> length xs then Some (take (j - i) (drop i xs)) else None)"

definition render_messages :: "(nat \<Rightarrow> string) \<Rightarrow> nat \<Rightarrow> app \<Rightarrow> string list option" where
  "render_messages hhmm height a =
     Option.bind (slice (visible_start height a) (visible_end a) (app_msgs a))
       (\<lambda>ms. all_some (map (render_line hhmm) ms))"

definition render_status :: "app \<Rightarrow> string" where
  "render_status a =
     (if app_peers a = [] then ''no peers''
      else ''peers: '' @ join_with '', '' (map pi_name (app_peers a)))"

definition render_input :: "app \<Rightarrow> string" where
  "render_input a = ''> '' @ app_input a"

definition render_top :: "app \<Rightarrow> string option" where
  "render_top a = (case app_onion a of
     None \<Rightarrow> Some ''ephemeral-chat''
   | Some addr \<Rightarrow> map_option (\<lambda>s. ''ephemeral-chat ['' @ s @ ''...]'') (truncate_onion addr))"

datatype screen = TooSmall string | Screen string "string list" bool string string

text \<open>
  \<open>render\<close>: \<open>rows\<close> is the height that the layout gives the message area. The flag of a screen is the
  indicator that there is more below.
\<close>

definition render :: "(nat \<Rightarrow> string) \<Rightarrow> nat \<Rightarrow> nat \<Rightarrow> nat \<Rightarrow> nat \<Rightarrow> app \<Rightarrow> screen option" where
  "render hhmm now width height rows a =
     (if width < 10 \<or> height < 4
      then Some (TooSmall (''Terminal too small: '' @ show_nat width @ ''x'' @ show_nat height
                   @ '' (need at least 10x4)''))
      else
        Option.bind (render_top a) (\<lambda>top.
          case app_mode a of
            ModeBootstrap progress msg \<Rightarrow>
              Some (Screen top [render_bootstrap now a progress msg] False
                      (render_status a) (render_input a))
          | _ \<Rightarrow>
              map_option (\<lambda>body. Screen top body (\<not> at_bottom a) (render_status a) (render_input a))
                (render_messages hhmm rows a)))"

section \<open>Lemmas\<close>

lemma push_fields [simp]:
  "app_mode (app_push now n t s a) = app_mode a" "app_input (app_push now n t s a) = app_input a"
  "app_cursor (app_push now n t s a) = app_cursor a" "app_peers (app_push now n t s a) = app_peers a"
  "app_quit (app_push now n t s a) = app_quit a"
  by (simp_all add: app_push_def)

lemma push_all_fields [simp]:
  "app_mode (fold (push_system now) ls a) = app_mode a"
  "app_input (fold (push_system now) ls a) = app_input a"
  "app_cursor (fold (push_system now) ls a) = app_cursor a"
  by (induction ls arbitrary: a) simp_all

lemma dispatch_fields:
  "dispatch_command now cmd a = (a', sp) \<Longrightarrow>
   app_mode a' = app_mode a \<and> app_input a' = app_input a \<and> app_cursor a' = app_cursor a"
  by (auto simp: dispatch_command_def split: if_splits)

lemma send_fields:
  "app_send now a = (a', sp) \<Longrightarrow> app_mode a' = app_mode a \<and> app_input a' = [] \<and> app_cursor a' = 0"
  by (auto simp: app_send_def Let_def split: list.splits if_splits dest!: dispatch_fields)

text \<open>The input as a pair of texts around the cursor, and an editor on such pairs.\<close>

definition editor :: "app \<Rightarrow> string \<times> string" where
  "editor a = (take (app_cursor a) (app_input a), drop (app_cursor a) (app_input a))"

definition edit :: "key_event \<Rightarrow> string \<times> string \<Rightarrow> string \<times> string" where
  "edit key x = (case x of (l, r) \<Rightarrow> (case ke_code key of
     KEnter \<Rightarrow> ([], [])
   | KChar c \<Rightarrow> if ke_modifiers key = {} \<or> ke_modifiers key = {Shift} then (l @ c, r) else (l, r)
   | KBackspace \<Rightarrow> (butlast l, r)
   | KDelete \<Rightarrow> (l, tl r)
   | KLeft \<Rightarrow> (if l = [] then (l, r) else (butlast l, last l # r))
   | KRight \<Rightarrow> (if r = [] then (l, r) else (l @ [hd r], tl r))
   | KHome \<Rightarrow> ([], l @ r)
   | KEnd \<Rightarrow> (l @ r, [])
   | _ \<Rightarrow> (l, r)))"

definition ascii_key :: "key_event \<Rightarrow> bool" where
  "ascii_key key \<longleftrightarrow> (\<forall>c. ke_code key = KChar c \<longrightarrow> length c = 1 \<and> is_ascii c)"

definition editing :: "app \<Rightarrow> bool" where
  "editing a \<longleftrightarrow> app_mode a = ModeRunning \<and> is_ascii (app_input a) \<and> app_cursor a \<le> length (app_input a)"

lemma butlast_take: "n \<le> length xs \<Longrightarrow> butlast (take n xs) = take (n - 1) xs"
  by (cases n) (simp_all add: take_Suc_conv_app_nth Suc_le_eq)

text \<open>The lines of the message area.\<close>

lemma all_some_Some: "\<forall>x \<in> set xs. x \<noteq> None \<Longrightarrow> all_some xs = Some (map the xs)"
  by (induction xs rule: all_some.induct) auto

lemma tl_drop_Suc: "tl (drop n xs) = drop (Suc n) xs"
  by (simp add: drop_Suc tl_drop)

lemma map_Some_the: "\<forall>x \<in> set xs. x \<noteq> None \<Longrightarrow> map Some (map the xs) = xs"
  by (induction xs) auto

lemma render_line_some: "dm_system m \<or> is_ascii (dm_name m) \<Longrightarrow> render_line hhmm m \<noteq> None"
  by (auto simp: render_line_def display_name_def MAX_DISPLAY_NAME_def ascii_slice)

lemma slice_window: "slice (visible_start h a) (visible_end a) (app_msgs a)
    = Some (take (visible_end a - visible_start h a) (drop (visible_start h a) (app_msgs a)))"
  by (simp add: slice_def visible_start_def visible_end_def)

lemma render_ok:
  assumes "\<forall>m \<in> set (app_msgs a). dm_system m \<or> is_ascii (dm_name m)"
    and "\<forall>addr. app_onion a = Some addr \<longrightarrow> is_ascii addr"
  shows "render hhmm now width height rows a \<noteq> None"
proof -
  have "\<forall>x \<in> set (map (render_line hhmm) (take n (drop i (app_msgs a)))). x \<noteq> None" for n i
    using assms(1) render_line_some by (fastforce dest: in_set_takeD in_set_dropD)
  then have "render_messages hhmm rows a \<noteq> None"
    unfolding render_messages_def slice_window by (simp add: all_some_Some)
  moreover have "render_top a \<noteq> None"
    using assms(2)
    by (auto simp: render_top_def truncate_onion_def ascii_slice ONION_DISPLAY_LEN_def split: option.split)
  ultimately show ?thesis by (auto simp: render_def split: mode.split)
qed

lemma handle_key_running:
  assumes "editing a" and "ascii_key key" and "\<not> (ke_code key = KChar ''c'' \<and> Control \<in> ke_modifiers key)"
  shows "\<exists>a' sp. handle_key now key a = Some (a', sp) \<and> editing a' \<and> editor a' = edit key (editor a)"
proof -
  have mode: "app_mode a = ModeRunning" and asc: "is_ascii (app_input a)"
      and cur: "app_cursor a \<le> length (app_input a)"
    using assms(1) by (simp_all add: editing_def)
  note parts = is_ascii_take_drop [OF asc]
  note step = handle_key_def edit_def editor_def editing_def mode asc cur assms(3)
  show ?thesis
  proof (cases "ke_code key")
    case KEnter
    obtain a' sp where s: "app_send now a = (a', sp)" by fastforce
    with send_fields [OF s] show ?thesis by (simp add: step KEnter)
  next
    case (KChar c)
    with assms(2) have "length c = 1" "is_ascii c" by (simp_all add: ascii_key_def)
    then show ?thesis
      using KChar assms(3) parts cur
      by (auto simp: step ascii_insert [OF asc cur] min_absorb2)
  next
    case KBackspace
    show ?thesis
    proof (cases "app_cursor a")
      case 0
      then show ?thesis using KBackspace by (simp add: step)
    next
      case (Suc n)
      with cur have n: "n < length (app_input a)" by simp
      with KBackspace Suc show ?thesis
        using parts by (simp add: step ascii_remove [OF asc n] butlast_take min_absorb2)
    qed
  next
    case KDelete
    then show ?thesis
      using parts cur by (auto simp: step ascii_remove [OF asc] min_def tl_drop_Suc)
  next
    case KLeft
    then show ?thesis
      using cur
      by (cases "app_cursor a")
         (auto simp: step take_Suc_conv_app_nth Suc_le_eq Cons_nth_drop_Suc)
  next
    case KRight
    then show ?thesis
      using cur
      by (auto simp: step take_Suc_conv_app_nth hd_drop_conv_nth drop_Suc tl_drop)
  qed (use cur in \<open>auto simp: step\<close>)
qed

text \<open>What keeps the screen drawable and the input editable, in every mode.\<close>

definition msgs_ok :: "app \<Rightarrow> bool" where
  "msgs_ok a \<longleftrightarrow> (\<forall>m \<in> set (app_msgs a). dm_system m \<or> is_ascii (dm_name m))"

definition app_ok :: "app \<Rightarrow> bool" where
  "app_ok a \<longleftrightarrow> is_ascii (app_input a) \<and> app_cursor a \<le> length (app_input a) \<and> msgs_ok a
     \<and> (\<forall>addr. app_onion a = Some addr \<longrightarrow> is_ascii addr) \<and> distinct (map pi_id (app_peers a))"

lemma push_ok [simp]:
  "msgs_ok (app_push now n t s a) \<longleftrightarrow> msgs_ok a \<and> (s \<or> is_ascii n)"
  "app_onion (app_push now n t s a) = app_onion a"
  by (auto simp: app_push_def msgs_ok_def)

lemma push_all_ok [simp]:
  "msgs_ok (fold (push_system now) ls a) = msgs_ok a"
  "app_onion (fold (push_system now) ls a) = app_onion a"
  "app_peers (fold (push_system now) ls a) = app_peers a"
  by (induction ls arbitrary: a) simp_all

lemma msgs_ok_update [simp]:
  "msgs_ok (a\<lparr>app_input := s\<rparr>) = msgs_ok a" "msgs_ok (a\<lparr>app_cursor := n\<rparr>) = msgs_ok a"
  "msgs_ok (a\<lparr>app_scroll := n\<rparr>) = msgs_ok a" "msgs_ok (a\<lparr>app_quit := q\<rparr>) = msgs_ok a"
  "msgs_ok (a\<lparr>app_mode := m\<rparr>) = msgs_ok a" "msgs_ok (a\<lparr>app_onion := x\<rparr>) = msgs_ok a"
  "msgs_ok (a\<lparr>app_peers := ps\<rparr>) = msgs_ok a"
  by (simp_all add: msgs_ok_def)

lemma send_frame:
  "app_send now a = (a', sp) \<Longrightarrow>
   app_mode a' = app_mode a \<and> (msgs_ok a' \<longleftrightarrow> msgs_ok a) \<and> app_onion a' = app_onion a
   \<and> app_peers a' = app_peers a"
  by (auto simp: app_send_def dispatch_command_def Let_def split: list.splits if_splits)

lemma handle_key_frame:
  assumes "handle_key now key a = Some (a', sp)"
  shows "app_mode a' = app_mode a \<and> (msgs_ok a' \<longleftrightarrow> msgs_ok a) \<and> app_onion a' = app_onion a
   \<and> app_peers a' = app_peers a"
proof (cases "app_mode a = ModeRunning \<and> \<not> (ke_code key = KChar ''c'' \<and> Control \<in> ke_modifiers key)")
  case True
  note step = assms [unfolded handle_key_def if_not_P [OF conjunct2 [OF True]]]
  show ?thesis
  proof (cases "ke_code key")
    case KEnter
    with step True send_frame show ?thesis by simp
  next
    case (KChar c)
    show ?thesis
    proof (cases "ke_modifiers key = {} \<or> ke_modifiers key = {Shift}")
      case plain: True
      have "map_option (\<lambda>s. (a\<lparr>app_input := s, app_cursor := app_cursor a + 1\<rparr>, []))
          (str_insert (app_input a) (app_cursor a) c) = Some (a', sp)"
        using step conjunct1 [OF True] by (simp only: KChar plain mode.case key_code.case if_True)
      then show ?thesis by auto
    next
      case False
      have "Some (a, []) = Some (a', sp)"
        using step conjunct1 [OF True] by (simp only: KChar False mode.case key_code.case if_False)
      then show ?thesis by simp
    qed
  qed (use step True in \<open>auto split: if_splits\<close>)
next
  case False
  with assms show ?thesis by (auto simp: handle_key_def split: if_splits mode.splits)
qed

lemma handle_key_ok:
  assumes "app_ok a" and "ascii_key key"
  shows "\<exists>a' sp. handle_key now key a = Some (a', sp) \<and> app_ok a'"
proof (cases "app_mode a = ModeRunning \<and> \<not> (ke_code key = KChar ''c'' \<and> Control \<in> ke_modifiers key)")
  case True
  then have "editing a" using assms(1) by (simp add: editing_def app_ok_def)
  from handle_key_running [OF this assms(2), of now] True obtain a' sp
    where k: "handle_key now key a = Some (a', sp)" "editing a'" by blast
  with handle_key_frame [OF k(1)] assms(1) show ?thesis by (auto simp: app_ok_def editing_def)
next
  case False
  then show ?thesis using assms(1) by (auto simp: handle_key_def app_ok_def split: mode.split)
qed

text \<open>A row of keys, and the keys of the characters of a text, some typed with Shift.\<close>

fun run_keys :: "nat \<Rightarrow> key_event list \<Rightarrow> app \<Rightarrow> (app \<times> spawned list) option" where
  "run_keys now [] a = Some (a, [])"
| "run_keys now (k # ks) a =
     Option.bind (handle_key now k a)
       (\<lambda>(a1, sp1). map_option (\<lambda>(a2, sp2). (a2, sp1 @ sp2)) (run_keys now ks a1))"

definition char_key :: "string \<times> bool \<Rightarrow> key_event" where
  "char_key x = \<lparr>ke_code = KChar (fst x), ke_modifiers = (if snd x then {Shift} else {})\<rparr>"

lemma char_key_inserts:
  "app_mode a = ModeRunning \<Longrightarrow> handle_key now (char_key x) a =
     map_option (\<lambda>s. (a\<lparr>app_input := s, app_cursor := app_cursor a + 1\<rparr>, []))
       (str_insert (app_input a) (app_cursor a) (fst x))"
  by (simp add: handle_key_def char_key_def)

lemma run_keys_append:
  "run_keys now (ks @ ks2) a = Option.bind (run_keys now ks a)
     (\<lambda>(a1, sp1). map_option (\<lambda>(a2, sp2). (a2, sp1 @ sp2)) (run_keys now ks2 a1))"
proof (induction ks arbitrary: a)
  case Nil
  show ?case by (cases "run_keys now ks2 a") auto
next
  case (Cons k ks)
  then show ?case
    by (cases "handle_key now k a")
       (auto simp: option.map_comp comp_def split_def split: bind_splits)
qed

lemma run_char_keys:
  assumes "app_mode a = ModeRunning" and "app_cursor a = length (app_input a)"
    and "\<forall>x \<in> set xs. rust_char (fst x)"
  shows "run_keys now (map char_key xs) a =
    (if \<forall>x \<in> set (butlast xs). length (fst x) = 1
     then Some (a\<lparr>app_input := app_input a @ concat (map fst xs),
                 app_cursor := app_cursor a + length xs\<rparr>, [])
     else None)"
  using assms
proof (induction xs arbitrary: a)
  case (Cons x xs)
  let ?a = "a\<lparr>app_input := app_input a @ fst x, app_cursor := app_cursor a + 1\<rparr>"
  have x: "handle_key now (char_key x) a = Some (?a, [])"
    using Cons.prems by (simp add: char_key_inserts)
  show ?case
  proof (cases xs)
    case Nil
    then show ?thesis by (simp add: x)
  next
    case (Cons y ys)
    show ?thesis
    proof (cases "length (fst x) = 1")
      case True
      then show ?thesis
        using Cons.IH [of ?a] Cons.prems x Cons by auto
    next
      case False
      then have "handle_key now (char_key y) ?a = None"
        using insert_inside_char [of "fst x"] Cons.prems by (simp add: char_key_inserts)
      with False x Cons show ?thesis by auto
    qed
  qed
qed simp

lemma typed_head:
  assumes "\<forall>x \<in> set xs. rust_char (fst x)" and "xs \<noteq> []" and "fst (hd xs) \<noteq> ''/''"
  shows "\<exists>c cs. concat (map fst xs) = c # cs \<and> c \<noteq> CHR ''/''"
  using assms
  by (cases xs) (auto simp: rust_char_def cont_byte_def char_width_def split: list.splits)

section \<open>Properties\<close>

text \<open>
  C30. On ASCII text the input line is a correct editor: no key panics, the cursor stays inside
  the input, and each key does to the texts before and after the cursor what the editor does.
\<close>

theorem handle_key_edits:
  assumes "editing a" and "ascii_key key" and "\<not> (ke_code key = KChar ''c'' \<and> Control \<in> ke_modifiers key)"
  shows "\<exists>a' sp. handle_key now key a = Some (a', sp) \<and> editing a' \<and> editor a' = edit key (editor a)"
  using assms by (rule handle_key_running)

definition demo_app :: "string \<Rightarrow> nat \<Rightarrow> app" where
  "demo_app txt cur = (app_new 0 False)\<lparr>app_mode := ModeRunning, app_input := txt, app_cursor := cur\<rparr>"

definition plain_key :: "key_code \<Rightarrow> key_event" where
  "plain_key c = \<lparr>ke_code = c, ke_modifiers = {}\<rparr>"

theorem handle_key_edits_witness:
  "\<exists>a' sp. handle_key 0 (plain_key (KChar ''x'')) (demo_app ''ab'' 1) = Some (a', sp)
     \<and> editor a' = (''ax'', ''b'')"
proof -
  have e: "editing (demo_app ''ab'' 1)" by (simp add: editing_def demo_app_def)
  have k: "ascii_key (plain_key (KChar ''x''))" by (simp add: ascii_key_def plain_key_def)
  have c: "\<not> (ke_code (plain_key (KChar ''x'')) = KChar ''c''
      \<and> Control \<in> ke_modifiers (plain_key (KChar ''x'')))" by (simp add: plain_key_def)
  from handle_key_edits [OF e k c, of 0] show ?thesis
    by (auto simp: editor_def edit_def demo_app_def plain_key_def)
qed

text \<open>
  Typing panics after a character outside ASCII: the cursor moves on by one while the input
  grows by two bytes or more, so that the next character typed is inserted inside the first.
\<close>

theorem multibyte_then_key_panics:
  assumes "app_mode a = ModeRunning" and "is_char_boundary (app_input a) (app_cursor a)"
    and "c = b # d # bs" and "cont_byte d"
  shows "\<exists>a'. handle_key now (plain_key (KChar c)) a = Some (a', [])
    \<and> (\<forall>c2 now2. handle_key now2 (plain_key (KChar c2)) a' = None)"
proof -
  let ?l = "take (app_cursor a) (app_input a)" and ?r = "drop (app_cursor a) (app_input a)"
  let ?a = "a\<lparr>app_input := ?l @ c @ ?r, app_cursor := app_cursor a + 1\<rparr>"
  have "app_cursor a \<le> length (app_input a)"
    using assms(2) by (auto simp: is_char_boundary_def)
  then have len: "length ?l = app_cursor a" by simp
  have "(?l @ c @ ?r) ! Suc (app_cursor a) = d"
    using len assms(3) by (simp add: nth_append)
  then have "\<not> is_char_boundary (?l @ c @ ?r) (Suc (app_cursor a))"
    using len assms(3,4) by (auto simp: is_char_boundary_def)
  then have "handle_key now2 (plain_key (KChar c2)) ?a = None" for c2 now2
    using assms(1) by (simp add: handle_key_def plain_key_def str_insert_def)
  moreover have "handle_key now (plain_key (KChar c)) a = Some (?a, [])"
    using assms(1,2) by (simp add: handle_key_def plain_key_def str_insert_def)
  ultimately show ?thesis by blast
qed

text \<open>
  C29. Which typed lines are sent: on an empty input the characters of a text and Enter start one
  task that sends exactly this text, and leave an empty input, when every character but the last is
  a single byte (the text not being a command); on every other text the interface panics.
\<close>

theorem typed_line_sent:
  assumes "app_mode a = ModeRunning" and "app_input a = []" and "app_cursor a = 0" and "app_handle a"
    and "\<forall>x \<in> set xs. rust_char (fst x)" and "xs \<noteq> []" and "fst (hd xs) \<noteq> ''/''"
  shows "run_keys now (map char_key xs @ [plain_key KEnter]) a =
    (if \<forall>x \<in> set (butlast xs). length (fst x) = 1
     then Some (a\<lparr>app_scroll := 0\<rparr>, [SpawnSend (concat (map fst xs))]) else None)"
proof -
  obtain c cs where c: "concat (map fst xs) = c # cs" "c \<noteq> CHR ''/''"
    using typed_head [OF assms(5-7)] by blast
  let ?a = "a\<lparr>app_input := c # cs, app_cursor := length xs\<rparr>"
  have "handle_key now (plain_key KEnter) ?a = Some (a\<lparr>app_scroll := 0\<rparr>, [SpawnSend (c # cs)])"
    using assms(1-4) c(2) by (simp add: handle_key_def plain_key_def app_send_def)
  then show ?thesis
    using run_char_keys [of a xs now] assms(1-5) c by (simp add: run_keys_append)
qed

definition e_acute :: string where
  "e_acute = map (\<lambda>n. char_of (n :: nat)) [195, 169]"

theorem typed_line_sent_witness:
  "run_keys 0 (map char_key [(''O'', True), (e_acute, False)] @ [plain_key KEnter])
     ((demo_app [] 0)\<lparr>app_handle := True\<rparr>)
   = Some ((demo_app [] 0)\<lparr>app_handle := True\<rparr>, [SpawnSend (''O'' @ e_acute)])"
proof -
  let ?a = "(demo_app [] 0)\<lparr>app_handle := True\<rparr>"
  have a: "app_mode ?a = ModeRunning" "app_input ?a = []" "app_cursor ?a = 0" "app_handle ?a"
      "?a\<lparr>app_scroll := 0\<rparr> = ?a"
    by (simp_all add: demo_app_def app_new_def)
  have "\<forall>x \<in> set [(''O'', True), (e_acute, False)]. rust_char (fst x)"
    by (simp add: rust_char_def e_acute_def cont_byte_def char_width_def)
  from typed_line_sent [OF a(1-4) this, of 0] show ?thesis unfolding a(5) by simp
qed

theorem multibyte_then_key_panics_witness:
  "\<exists>a'. handle_key 0 (plain_key (KChar e_acute)) (demo_app [] 0) = Some (a', [])
    \<and> handle_key 0 (plain_key (KChar ''x'')) a' = None"
proof -
  have c: "e_acute = char_of (195 :: nat) # char_of (169 :: nat) # []" by (simp add: e_acute_def)
  have "app_mode (demo_app [] 0) = ModeRunning"
      "is_char_boundary (app_input (demo_app [] 0)) (app_cursor (demo_app [] 0))"
    by (simp_all add: demo_app_def is_char_boundary_def)
  moreover have "cont_byte (char_of (169 :: nat))" by (simp add: cont_byte_def)
  ultimately show ?thesis
    using multibyte_then_key_panics [OF _ _ c, of "demo_app [] 0" 0] by blast
qed

text \<open>
  The message area shows the right window: with ASCII names and addresses drawing never
  panics, however far the user has scrolled; at the bottom it shows the last messages that fit, in
  order, and scrolling by \<open>n\<close> hides the last \<open>n\<close>.
\<close>

theorem render_messages_window:
  assumes "\<forall>m \<in> set (app_msgs a). dm_system m \<or> is_ascii (dm_name m)"
  shows "\<exists>ls. render_messages hhmm height a = Some ls
    \<and> length ls = min height (length (app_msgs a) - app_scroll a)
    \<and> (\<exists>above below. app_msgs a = above @ take (length ls) (drop (length above) (app_msgs a)) @ below
         \<and> length below = min (app_scroll a) (length (app_msgs a))
         \<and> map Some ls = map (render_line hhmm) (take (length ls) (drop (length above) (app_msgs a))))"
proof -
  let ?ms = "app_msgs a" and ?i = "visible_start height a" and ?j = "visible_end a"
  let ?win = "take (?j - ?i) (drop ?i ?ms)"
  have le: "?i \<le> ?j" "?j \<le> length ?ms" by (simp_all add: visible_start_def visible_end_def)
  have "set ?win \<subseteq> set ?ms" by (blast dest: in_set_takeD in_set_dropD)
  then have some: "\<forall>x \<in> set (map (render_line hhmm) ?win). x \<noteq> None"
    using assms render_line_some by (auto simp del: set_take_subset set_drop_subset)
  let ?ls = "map the (map (render_line hhmm) ?win)"
  have r: "render_messages hhmm height a = Some ?ls"
    unfolding render_messages_def slice_window by (simp add: all_some_Some [OF some])
  have len: "length ?ls = ?j - ?i" using le by simp
  have "?ms = take ?i ?ms @ ?win @ drop ?j ?ms"
    by (metis append_take_drop_id drop_drop le(1) le_add_diff_inverse2)
  moreover have "map Some ?ls = map (render_line hhmm) ?win"
    by (rule map_Some_the [OF some])
  moreover have "length (drop ?j ?ms) = min (app_scroll a) (length ?ms)"
    by (simp add: visible_end_def min_def)
  moreover have "length (take ?i ?ms) = ?i" using le by simp
  ultimately have "\<exists>above below. ?ms = above @ take (length ?ls) (drop (length above) ?ms) @ below
       \<and> length below = min (app_scroll a) (length ?ms)
       \<and> map Some ?ls = map (render_line hhmm) (take (length ?ls) (drop (length above) ?ms))"
    unfolding len by (intro exI [of _ "take ?i ?ms"] exI [of _ "drop ?j ?ms"]) simp
  moreover have "length ?ls = min height (length ?ms - app_scroll a)"
    unfolding len by (auto simp: visible_start_def visible_end_def min_def)
  ultimately show ?thesis using r by blast
qed

theorem render_messages_window_witness:
  "\<exists>ls. render_messages (\<lambda>_. []) 1 ((app_push 0 ''bob'' ''hi'' False (app_new 0 False))\<lparr>app_scroll := 7\<rparr>)
      = Some ls \<and> length ls = 0"
  using render_messages_window [of "(app_push 0 ''bob'' ''hi'' False (app_new 0 False))\<lparr>app_scroll := 7\<rparr>"
      "\<lambda>_. []" 1]
  by (auto simp: app_push_def app_new_def)


text \<open>The joins and leaves among the events.\<close>

fun roster_ops :: "chat_event list \<Rightarrow> peer_info table_op list" where
  "roster_ops [] = []"
| "roster_ops (PeerJoin info # evs) = Put (pi_id info) info # roster_ops evs"
| "roster_ops (PeerLeave pid # evs) = Del pid # roster_ops evs"
| "roster_ops (ev # evs) = roster_ops evs"

fun handle_events :: "nat \<Rightarrow> chat_event list \<Rightarrow> app \<Rightarrow> app option" where
  "handle_events now [] a = Some a"
| "handle_events now (ev # evs) a = Option.bind (handle_event now ev a) (handle_events now evs)"

text \<open>Chat messages are shown as they come, after what is already there.\<close>

definition shown_line :: "disp_msg \<Rightarrow> string \<times> string \<times> bool" where
  "shown_line m = (dm_name m, dm_text m, dm_system m)"

fun event_line :: "chat_event \<Rightarrow> string \<times> string \<times> bool" where
  "event_line (Message pid name txt) = (name, txt, False)"
| "event_line ev = ([], [], True)"

fun is_message :: "chat_event \<Rightarrow> bool" where
  "is_message (Message pid name txt) \<longleftrightarrow> True"
| "is_message ev \<longleftrightarrow> False"

lemma handle_messages:
  "\<forall>ev \<in> set evs. is_message ev \<Longrightarrow> \<exists>a'. handle_events now evs a = Some a'
     \<and> map shown_line (app_msgs a') = map shown_line (app_msgs a) @ map event_line evs"
proof (induction evs arbitrary: a)
  case (Cons ev evs)
  then obtain pid name txt' where ev: "ev = Message pid name txt'" by (cases ev) auto
  from Cons.IH [of "app_push now name txt' False a"] Cons.prems ev show ?case
    by (simp add: handle_event_def app_push_def shown_line_def)
qed simp

lemma list_ex_id: "list_ex (\<lambda>p. pi_id p = i) ps \<longleftrightarrow> i \<in> set (map pi_id ps)"
  by (induction ps) auto

lemma handle_event_peers:
  "handle_event now ev a = Some a' \<Longrightarrow> app_peers a' =
     (case ev of
        PeerJoin info \<Rightarrow> if pi_id info \<in> set (map pi_id (app_peers a)) then app_peers a
                         else app_peers a @ [info]
      | PeerLeave pid \<Rightarrow> filter (\<lambda>p. pi_id p \<noteq> pid) (app_peers a)
      | _ \<Rightarrow> app_peers a)"
  by (auto simp: handle_event_def Let_def list_ex_id simp del: set_map split: chat_event.splits mode.splits)

lemma handle_event_joined:
  "handle_event now (PeerJoin info) a = Some a' \<Longrightarrow>
     set (map pi_id (app_peers a')) = insert (pi_id info) (set (map pi_id (app_peers a)))
     \<and> (distinct (map pi_id (app_peers a)) \<longrightarrow> distinct (map pi_id (app_peers a')))"
  by (auto simp: handle_event_peers)

lemma handle_event_left:
  "handle_event now (PeerLeave pid) a = Some a' \<Longrightarrow>
     set (map pi_id (app_peers a')) = set (map pi_id (app_peers a)) - {pid}
     \<and> (distinct (map pi_id (app_peers a)) \<longrightarrow> distinct (map pi_id (app_peers a')))"
  by (auto simp: handle_event_peers distinct_map inj_on_def)

text \<open>
  C31. The peer list on the screen follows the room's events: whatever the events, each identifier
  is listed at most once, and exactly the peers are listed whose last event was a join (or that were
  listed before and had no event).
\<close>

theorem shown_roster:
  assumes "handle_events now evs a = Some a'" and "distinct (map pi_id (app_peers a))"
  shows "distinct (map pi_id (app_peers a'))
    \<and> set (map pi_id (app_peers a')) = {i. case last_op i (roster_ops evs) of
        None \<Rightarrow> i \<in> set (map pi_id (app_peers a)) | Some r \<Rightarrow> r \<noteq> None}"
  using assms
proof (induction now evs a rule: handle_events.induct)
  case (2 now ev evs a)
  then obtain b where b: "handle_event now ev a = Some b" "handle_events now evs b = Some a'"
    by (auto simp: bind_eq_Some_conv)
  show ?case
  proof (cases ev)
    case (PeerJoin info)
    note j = handle_event_joined [OF b(1) [unfolded PeerJoin]]
    with 2 b have "distinct (map pi_id (app_peers b))" by simp
    from 2(1) [OF b(1,2) this] show ?thesis
      by (simp only: j PeerJoin roster_ops.simps last_op.simps) (auto split: option.splits)
  next
    case (PeerLeave pid)
    note l = handle_event_left [OF b(1) [unfolded PeerLeave]]
    with 2 b have "distinct (map pi_id (app_peers b))" by simp
    from 2(1) [OF b(1,2) this] show ?thesis
      by (simp only: l PeerLeave roster_ops.simps last_op.simps) (auto split: option.splits)
  qed (use 2(1) [OF b(1,2)] 2(3) handle_event_peers [OF b(1)] in
      \<open>simp_all cong: option.case_cong\<close>)
qed simp

definition demo_peer :: peer_info where
  "demo_peer = \<lparr>pi_id = PeerId ''b'', pi_name = ''bob'', pi_joined_at = 0\<rparr>"

theorem shown_roster_witness:
  "\<exists>a'. handle_events 0 [PeerJoin demo_peer, PeerJoin demo_peer, PeerLeave (PeerId ''x'')] (app_new 0 False)
      = Some a' \<and> set (map pi_id (app_peers a')) = {PeerId ''b''}"
proof -
  obtain a' where a: "handle_events 0 [PeerJoin demo_peer, PeerJoin demo_peer, PeerLeave (PeerId ''x'')]
      (app_new 0 False) = Some a'"
    by (simp add: handle_event_def Let_def app_new_def)
  have "distinct (map pi_id (app_peers (app_new 0 False)))" by (simp add: app_new_def)
  from shown_roster [OF a this] a show ?thesis
    by (auto simp: demo_peer_def app_new_def split: if_splits)
qed

end
