(* ===== verification/Cli_Main.thy ===== *)
theory Cli_Main
  imports Cli_App Room_Handle
begin

text \<open>
  The command line of \<open>crates/cli/src/main.rs\<close>: the subcommands, the display name, and the two
  front ends, \<open>run_tui\<close> and \<open>run_headless\<close>, as loops over what their \<open>select!\<close> receives.

  Parsing of the arguments (clap), the terminal and the threads that read keys and lines are not
  modelled: their results are the inputs of the loops.
\<close>

section \<open>Subcommands and names\<close>

datatype commands =
    HostCommand u64 "string option" bool bool
  | JoinCommand string "string option" bool bool

definition create_room :: "string \<Rightarrow> commands \<Rightarrow> 'c room_inner \<times> room_task" where
  "create_room name command = factory_create (case command of
     HostCommand invite_ttl _ _ _ \<Rightarrow> HostRoom name invite_ttl
   | JoinCommand invite_code _ _ _ \<Rightarrow> JoinRoom name invite_code)"

text \<open>
  What the terminal and the file system answer: the saved name if it can be read, and the results
  of flushing the prompt, reading a line, making the directory and writing the file.
\<close>

record name_env =
  ne_saved :: "string option"
  ne_flush :: "io_error + unit"
  ne_line :: "io_error + string"
  ne_mkdir :: "io_error + unit"
  ne_write :: "io_error + unit"

datatype name_effect = Prompt | WarnDir io_error | SaveName string | WarnSave io_error

definition empty_name_error :: io_error where
  "empty_name_error = \<lparr>io_kind = InvalidInput, io_msg = ''Display name cannot be empty'', io_os_code = None\<rparr>"

definition config_dir :: "string list option \<Rightarrow> string list" where
  "config_dir home = (case home of Some d \<Rightarrow> d | None \<Rightarrow> [''.'']) @ [''.config'', ''ephemeral-chat'']"

definition ask_name :: "name_env \<Rightarrow> (io_error + string) \<times> name_effect list" where
  "ask_name E =
     (case ne_flush E of
        Inl e \<Rightarrow> (Inl e, [Prompt])
      | Inr _ \<Rightarrow>
        (case ne_line E of
           Inl e \<Rightarrow> (Inl e, [Prompt])
         | Inr input \<Rightarrow>
             let name = trim input in
             if name = [] then (Inl empty_name_error, [Prompt])
             else (case ne_mkdir E of
                Inl e \<Rightarrow> (Inr name, [Prompt, WarnDir e])
              | Inr _ \<Rightarrow>
                 (case ne_write E of
                    Inl e \<Rightarrow> (Inr name, [Prompt, SaveName name, WarnSave e])
                  | Inr _ \<Rightarrow> (Inr name, [Prompt, SaveName name])))))"

definition resolve_name :: "name_env \<Rightarrow> string option \<Rightarrow> (io_error + string) \<times> name_effect list" where
  "resolve_name E override_name =
     (let from_file =
        (case ne_saved E of
           Some contents \<Rightarrow> if trim contents \<noteq> [] then (Inr (trim contents), []) else ask_name E
         | None \<Rightarrow> ask_name E)
      in case override_name of
           Some name \<Rightarrow> if trim name \<noteq> [] then (Inr (trim name), []) else from_file
         | None \<Rightarrow> from_file)"

datatype run_mode = ExitUsage | FailName string | RunTui string bool commands | RunHeadless string bool commands

definition main_run :: "name_env \<Rightarrow> commands option \<Rightarrow> run_mode \<times> name_effect list" where
  "main_run E cli =
     (case cli of
        None \<Rightarrow> (ExitUsage, [])
      | Some command \<Rightarrow>
          let name_override = (case command of HostCommand _ n _ _ \<Rightarrow> n | JoinCommand _ n _ _ \<Rightarrow> n);
              timestamps = (case command of HostCommand _ _ t _ \<Rightarrow> t | JoinCommand _ _ t _ \<Rightarrow> t);
              headless = (case command of HostCommand _ _ _ h \<Rightarrow> h | JoinCommand _ _ _ h \<Rightarrow> h);
              chosen = (case command of
                  JoinCommand _ _ _ _ \<Rightarrow>
                    (Inr (case name_override of Some n \<Rightarrow> trim n | None \<Rightarrow> []), [])
                | HostCommand _ _ _ _ \<Rightarrow> resolve_name E name_override)
          in case chosen of
               (Inl e, eff) \<Rightarrow> (FailName (''Failed to resolve display name: '' @ io_msg e), eff)
             | (Inr name, eff) \<Rightarrow>
                 (if headless then RunHeadless name timestamps command else RunTui name timestamps command,
                  eff))"

section \<open>Tasks of commands\<close>

text \<open>What the task that a command spawns does with the room, and what it sends back.\<close>

definition run_spawned ::
  "crates \<Rightarrow> net \<Rightarrow> nonce \<Rightarrow> u64 \<Rightarrow> spawned \<Rightarrow> 'c room_inner \<Rightarrow> log \<Rightarrow>
     cmd_result option timed \<times> 'c room_inner \<times> log"
where
  "run_spawned K N random_nonce now task r h =
     (case task of
        SpawnSend txt \<Rightarrow>
          (case room_send N txt r h of
             (Elapsed, h1) \<Rightarrow> (Elapsed, r, h1)
           | (Ready _, h1) \<Rightarrow> (Ready None, r, h1))
      | SpawnInvite name \<Rightarrow>
          (Ready (Some (CmdInvite (map_err display_chat_error (room_invite K random_nonce now name r)))), r, h)
      | SpawnPeers \<Rightarrow> (Ready (Some (CmdPeers (room_peers r))), r, h)
      | SpawnQuit \<Rightarrow> (Ready (Some CmdQuit), room_quit r, h))"

section \<open>The terminal interface\<close>

datatype tui_input = TuiKey key_event | TuiEvent "chat_event option" | TuiResult cmd_result | TuiTick

definition tui_select :: "nat \<Rightarrow> tui_input \<Rightarrow> app \<Rightarrow> (app \<times> spawned list) option" where
  "tui_select now i a =
     (case i of
        TuiKey key \<Rightarrow> handle_key now key a
      | TuiEvent (Some ev) \<Rightarrow> map_option (\<lambda>b. (b, [])) (handle_event now ev a)
      | TuiEvent None \<Rightarrow>
          Some (case app_mode a of
                  ModeShuttingDown _ \<Rightarrow> a
                | _ \<Rightarrow> (push_system now ''connection lost'' a)\<lparr>app_mode := ModeShuttingDown now\<rparr>, [])
      | TuiResult r \<Rightarrow> Some (handle_cmd_result now r a, [])
      | TuiTick \<Rightarrow> Some (a, []))"

text \<open>
  One pass of the loop: the time of the \<open>select!\<close> and of the rest of the pass, what was received,
  the size of the terminal with the rows of the message area, and whether drawing succeeded.
\<close>

record pass =
  ps_now :: nat
  ps_input :: tui_input
  ps_end :: nat
  ps_width :: nat
  ps_height :: nat
  ps_rows :: nat
  ps_drawn :: bool

definition tui_expire :: "nat \<Rightarrow> app \<Rightarrow> app" where
  "tui_expire now a = (case app_mode a of
     ModeShuttingDown since \<Rightarrow> if 5 * SEC < now - since then a\<lparr>app_quit := True\<rparr> else a
   | _ \<Rightarrow> a)"

definition tui_pass :: "(nat \<Rightarrow> string) \<Rightarrow> pass \<Rightarrow> app \<Rightarrow> (app \<times> spawned list \<times> screen) option" where
  "tui_pass hhmm p a =
     Option.bind (tui_select (ps_now p) (ps_input p) a) (\<lambda>(a1, sp).
       let a2 = tui_expire (ps_end p) a1 in
       map_option (\<lambda>scr. (if ps_drawn p then a2 else a2\<lparr>app_quit := True\<rparr>, sp, scr))
         (render hhmm (ps_end p) (ps_width p) (ps_height p) (ps_rows p) a2))"

datatype tui_end = TuiPanic | TuiQuit app "spawned list" | TuiWaiting app "spawned list"

fun tui_loop :: "(nat \<Rightarrow> string) \<Rightarrow> pass list \<Rightarrow> app \<Rightarrow> spawned list \<Rightarrow> tui_end" where
  "tui_loop hhmm [] a sp = TuiWaiting a sp"
| "tui_loop hhmm (p # ps) a sp =
     (case tui_pass hhmm p a of
        None \<Rightarrow> TuiPanic
      | Some (a1, sp1, scr) \<Rightarrow>
          if app_quit a1 then TuiQuit a1 (sp @ sp1) else tui_loop hhmm ps a1 (sp @ sp1))"

definition tui_app :: "nat \<Rightarrow> bool \<Rightarrow> app" where
  "tui_app now timestamps = (app_new now timestamps)\<lparr>app_handle := True, app_cmd_tx := True\<rparr>"

text \<open>After the loop the handle is taken and the room quits.\<close>

definition tui_finish :: "app \<Rightarrow> 'c room_inner \<Rightarrow> app \<times> 'c room_inner" where
  "tui_finish a r = (if app_handle a then (a\<lparr>app_handle := False\<rparr>, room_quit r) else (a, r))"

section \<open>The headless interface\<close>

datatype out_line = Println string | Eprintln string | Eprint string

datatype hl_input = HlLine string | HlEvent "chat_event option"

text \<open>The loop goes on with the flag \<open>room_ready\<close>, or breaks.\<close>

datatype hl_next = HlGo bool | HlBreak

definition newline :: string where
  "newline = [char_of (10 :: nat)]"

definition hl_command :: "string \<Rightarrow> out_line list \<times> spawned list" where
  "hl_command cmd =
     (if command_name cmd = ''invite'' then ([], [SpawnInvite (invite_arg cmd)])
      else if command_name cmd = ''peers'' then ([], [SpawnPeers])
      else ([Println (''[system] unknown command: /'' @ cmd)], []))"

definition hl_line :: "bool \<Rightarrow> string \<Rightarrow> hl_next \<times> out_line list \<times> spawned list" where
  "hl_line ready l =
     (case trim l of
        [] \<Rightarrow> (HlGo ready, [], [])
      | c # cmd \<Rightarrow>
          if c # cmd = ''/quit'' then (HlBreak, [], [])
          else if c = CHR ''/'' then (HlGo ready, hl_command cmd)
          else (HlGo ready, [], if ready then [SpawnSend (c # cmd)] else []))"

text \<open>\<open>None\<close> is a panic.\<close>

definition hl_event :: "bool \<Rightarrow> chat_event option \<Rightarrow> (hl_next \<times> out_line list) option" where
  "hl_event ready maybe_ev =
     (case maybe_ev of
        None \<Rightarrow> Some (HlBreak, [Eprintln (newline @ ''[system] connection lost'')])
      | Some ev \<Rightarrow>
        (case ev of
           BootstrapProgress pct \<Rightarrow>
             Some (HlGo ready, if 0 < pct \<and> pct < 100
               then [Eprint ([char_of (13 :: nat)] @ ''Bootstrapping: '' @ show_nat (unat pct) @ ''%  '')] else [])
         | RoomReady address port \<Rightarrow>
             map_option (\<lambda>short. (HlGo True, [Println (newline @ ''[system] room ready: '' @ short @ ''...'')]))
               (truncate_onion address)
         | PeerJoin info \<Rightarrow> Some (HlGo True, [Println (''[system] '' @ pi_name info @ '' joined'')])
         | PeerLeave pid \<Rightarrow> Some (HlGo ready, [Println (''[system] '' @ display_peer_id pid @ '' left'')])
         | Message pid name txt \<Rightarrow> Some (HlGo ready, [Println (''['' @ name @ ''] '' @ txt)])
         | InviteCreated code \<Rightarrow> Some (HlGo ready, [Println (''[system] new invite code: '' @ code)])
         | RoomClosed \<Rightarrow> Some (HlBreak, [Println ''[system] room closed''])
         | ErrorEvent e \<Rightarrow> Some (HlGo ready, [Eprintln (newline @ ''[error] '' @ display_chat_error e)])))"

definition hl_select :: "bool \<Rightarrow> hl_input \<Rightarrow> (hl_next \<times> out_line list \<times> spawned list) option" where
  "hl_select ready i =
     (case i of
        HlLine l \<Rightarrow> Some (hl_line ready l)
      | HlEvent ev \<Rightarrow> map_option (\<lambda>(n, out). (n, out, [])) (hl_event ready ev))"

fun hl_loop :: "bool \<Rightarrow> hl_input list \<Rightarrow> (hl_next \<times> out_line list \<times> spawned list) option" where
  "hl_loop ready [] = Some (HlGo ready, [], [])"
| "hl_loop ready (i # inps) =
     (case hl_select ready i of
        None \<Rightarrow> None
      | Some (HlBreak, out, sp) \<Rightarrow> Some (HlBreak, out, sp)
      | Some (HlGo ready1, out, sp) \<Rightarrow>
          map_option (\<lambda>(n, out2, sp2). (n, out @ out2, sp @ sp2)) (hl_loop ready1 inps))"

text \<open>What the tasks of headless commands print.\<close>

definition hl_result :: "cmd_result \<Rightarrow> out_line list" where
  "hl_result r =
     (case r of
        CmdInvite (Inr c) \<Rightarrow> [Println (''[system] invite code: '' @ c)]
      | CmdInvite (Inl e) \<Rightarrow> [Eprintln (''[error] invite failed: '' @ e)]
      | CmdPeers peers \<Rightarrow>
          if peers = [] then [Println ''[system] no peers'']
          else [Println (''[system] peers: '' @ join_with '', '' (map pi_name peers))]
      | CmdQuit \<Rightarrow> [])"

definition hl_finish :: "'c room_inner \<Rightarrow> 'c room_inner" where
  "hl_finish r = room_quit r"

section \<open>Lemmas\<close>

subsection \<open>Names\<close>

definition blank :: "string option \<Rightarrow> bool" where
  "blank s \<longleftrightarrow> (case s of None \<Rightarrow> True | Some t \<Rightarrow> trim t = [])"

lemma ask_name_Inr:
  "ask_name E = (Inr name, eff) \<Longrightarrow>
   trim name = name \<and> name \<noteq> [] \<and> (\<forall>n. SaveName n \<in> set eff \<longrightarrow> n = name)"
  by (auto simp: ask_name_def Let_def split: sum.splits if_splits)

lemma resolve_name_Inr:
  "resolve_name E ov = (Inr name, eff) \<Longrightarrow>
   trim name = name \<and> name \<noteq> []
   \<and> (\<forall>n. SaveName n \<in> set eff \<longrightarrow> n = name \<and> blank ov \<and> blank (ne_saved E))"
  by (auto simp: resolve_name_def blank_def Let_def dest: ask_name_Inr split: option.splits if_splits)

subsection \<open>The terminal interface\<close>

text \<open>Inputs in ASCII where the interface counts or cuts bytes.\<close>

fun ascii_input :: "tui_input \<Rightarrow> bool" where
  "ascii_input (TuiKey key) \<longleftrightarrow> ascii_key key"
| "ascii_input (TuiEvent (Some (RoomReady address port))) \<longleftrightarrow> is_ascii address"
| "ascii_input (TuiEvent (Some (Message pid name txt))) \<longleftrightarrow> is_ascii name"
| "ascii_input i \<longleftrightarrow> True"

lemma handle_event_ok:
  assumes "app_ok a" and "ascii_input (TuiEvent (Some ev))"
  shows "\<exists>a'. handle_event now ev a = Some a' \<and> app_ok a'"
proof -
  have "\<exists>a'. handle_event now ev a = Some a' \<and> msgs_ok a' \<and> app_input a' = app_input a
      \<and> app_cursor a' = app_cursor a \<and> (\<forall>addr. app_onion a' = Some addr \<longrightarrow> is_ascii addr)"
    using assms
    by (cases ev) (auto simp: handle_event_def app_ok_def truncate_onion_def ascii_slice
      ONION_DISPLAY_LEN_def Let_def split: mode.split)
  then obtain a' where a': "handle_event now ev a = Some a'" "msgs_ok a'" "app_input a' = app_input a"
      "app_cursor a' = app_cursor a" "\<forall>addr. app_onion a' = Some addr \<longrightarrow> is_ascii addr" by blast
  moreover have "distinct (map pi_id (app_peers a'))"
    using handle_event_peers [OF a'(1)] assms(1)
    by (cases ev) (simp_all add: app_ok_def distinct_map_filter)
  ultimately show ?thesis using assms(1) by (auto simp: app_ok_def)
qed

lemma handle_result_ok: "app_ok a \<Longrightarrow> app_ok (handle_cmd_result now r a)"
  by (auto simp: handle_cmd_result_def app_ok_def split: cmd_result.split sum.split)

lemma tui_select_ok:
  assumes "app_ok a" and "ascii_input i"
  shows "\<exists>a' sp. tui_select now i a = Some (a', sp) \<and> app_ok a'"
proof (cases i)
  case (TuiKey key)
  then show ?thesis using handle_key_ok [OF assms(1)] assms(2) by (simp add: tui_select_def)
next
  case (TuiEvent e)
  show ?thesis
  proof (cases e)
    case None
    then show ?thesis
      using TuiEvent assms(1) by (auto simp: tui_select_def app_ok_def split: mode.split)
  next
    case (Some ev)
    with handle_event_ok [OF assms(1), of ev now] assms(2) TuiEvent
    show ?thesis by (auto simp: tui_select_def)
  qed
qed (use assms handle_result_ok in \<open>auto simp: tui_select_def\<close>)

lemma app_ok_quit [simp]: "app_ok (a\<lparr>app_quit := q\<rparr>) = app_ok a"
  by (simp add: app_ok_def)

lemma tui_expire_ok [simp]: "app_ok (tui_expire now a) = app_ok a"
  by (simp add: tui_expire_def split: mode.split)

lemma app_ok_render: "app_ok a \<Longrightarrow> render hhmm now w h rows a \<noteq> None"
  by (rule render_ok) (auto simp: app_ok_def msgs_ok_def)

lemma tui_pass_ok:
  assumes "app_ok a" and "ascii_input (ps_input p)"
  shows "\<exists>a' sp scr. tui_pass hhmm p a = Some (a', sp, scr) \<and> app_ok a'"
proof -
  obtain a1 sp where s: "tui_select (ps_now p) (ps_input p) a = Some (a1, sp)" "app_ok a1"
    using tui_select_ok [OF assms] by blast
  then have "app_ok (tui_expire (ps_end p) a1)" by simp
  from app_ok_render [OF this] s show ?thesis by (fastforce simp: tui_pass_def Let_def)
qed

text \<open>How a pass of the loop can end it, and what it can send.\<close>

lemma render_irrelevant: "tui_pass hhmm p a = Some (a', sp, scr) \<Longrightarrow>
    \<exists>a1. tui_select (ps_now p) (ps_input p) a = Some (a1, sp) \<and>
      a' = (if ps_drawn p then tui_expire (ps_end p) a1 else (tui_expire (ps_end p) a1)\<lparr>app_quit := True\<rparr>)"
  by (auto simp: tui_pass_def Let_def bind_eq_Some_conv)

text \<open>Inputs that do not reopen or re-close a room that is shutting down.\<close>

fun keeps_closing :: "tui_input \<Rightarrow> bool" where
  "keeps_closing (TuiEvent (Some (RoomReady address port))) \<longleftrightarrow> False"
| "keeps_closing (TuiEvent (Some RoomClosed)) \<longleftrightarrow> False"
| "keeps_closing i \<longleftrightarrow> True"

text \<open>Inputs with which the user, or a quit of the room, ends the interface at once.\<close>

fun leaves :: "tui_input \<Rightarrow> bool" where
  "leaves (TuiKey key) \<longleftrightarrow> ke_code key = KChar ''c'' \<and> Control \<in> ke_modifiers key"
| "leaves (TuiResult r) \<longleftrightarrow> r = CmdQuit"
| "leaves i \<longleftrightarrow> False"

lemma handle_result_mode: "app_mode (handle_cmd_result now r a) = app_mode a"
  by (simp add: handle_cmd_result_def split: cmd_result.split sum.split)

lemma closing_select:
  assumes "tui_select now i a = Some (a', sp)" and "app_mode a = ModeShuttingDown since"
    and "keeps_closing i"
  shows "app_mode a' = ModeShuttingDown since \<and> sp = []"
proof (cases i)
  case (TuiKey key)
  then show ?thesis
    using assms(1,2) by (auto simp: tui_select_def handle_key_def split: if_splits)
next
  case (TuiEvent e)
  show ?thesis
  proof (cases e)
    case None
    then show ?thesis using TuiEvent assms by (auto simp: tui_select_def)
  next
    case (Some ev)
    then show ?thesis
      using TuiEvent assms by (cases ev) (auto simp: tui_select_def handle_event_def Let_def)
  qed
qed (use assms in \<open>auto simp: tui_select_def handle_result_mode\<close>)

lemma closing_pass:
  assumes "tui_pass hhmm p a = Some (a', sp, scr)" and "app_mode a = ModeShuttingDown since"
    and "keeps_closing (ps_input p)"
  shows "app_mode a' = ModeShuttingDown since \<and> sp = []
    \<and> (since + 5 * SEC < ps_end p \<longrightarrow> app_quit a')"
  using render_irrelevant [OF assms(1)] closing_select [OF _ assms(2,3)]
  by (auto simp: tui_expire_def)

lemma handle_event_quit: "handle_event now ev a = Some a' \<Longrightarrow> app_quit a' = app_quit a"
  by (cases ev) (auto simp: handle_event_def Let_def app_push_def split: mode.splits if_splits)

lemma closing_stays:
  assumes "tui_pass hhmm p a = Some (a', sp, scr)" and "app_mode a = ModeShuttingDown since"
    and "keeps_closing (ps_input p)" and "\<not> leaves (ps_input p)" and "ps_drawn p"
    and "ps_end p \<le> since + 5 * SEC"
  shows "app_quit a' = app_quit a"
proof -
  obtain a1 where a1: "tui_select (ps_now p) (ps_input p) a = Some (a1, sp)" "a' = tui_expire (ps_end p) a1"
    using render_irrelevant [OF assms(1)] assms(5) by auto
  have "app_mode a1 = ModeShuttingDown since"
    using closing_select [OF a1(1) assms(2,3)] by simp
  with a1(2) assms(6) have "a' = a1" by (auto simp: tui_expire_def)
  moreover have "app_quit a1 = app_quit a"
    using a1(1) assms(2,4)
    by (cases "ps_input p")
       (auto simp: tui_select_def handle_key_def handle_cmd_result_def app_push_def
          handle_event_quit split: option.splits if_splits cmd_result.splits sum.splits)
  ultimately show ?thesis by simp
qed

lemma closing_loop:
  assumes "app_ok a" and "app_mode a = ModeShuttingDown since"
    and "\<forall>p \<in> set ps. ascii_input (ps_input p) \<and> keeps_closing (ps_input p)"
  shows "((\<exists>p \<in> set ps. since + 5 * SEC < ps_end p) \<longrightarrow> (\<exists>a'. tui_loop hhmm ps a sp = TuiQuit a' sp))
    \<and> (\<not> app_quit a \<and> (\<forall>p \<in> set ps. ps_end p \<le> since + 5 * SEC \<and> ps_drawn p \<and> \<not> leaves (ps_input p))
       \<longrightarrow> (\<exists>a'. tui_loop hhmm ps a sp = TuiWaiting a' sp \<and> app_mode a' = ModeShuttingDown since))"
  using assms
proof (induction ps arbitrary: a)
  case (Cons p ps)
  then obtain a1 sp1 scr where p: "tui_pass hhmm p a = Some (a1, sp1, scr)" "app_ok a1"
    using tui_pass_ok [of a p hhmm] by auto
  have c: "app_mode a1 = ModeShuttingDown since" "sp1 = []" "since + 5 * SEC < ps_end p \<longrightarrow> app_quit a1"
    using closing_pass [OF p(1) Cons.prems(2)] Cons.prems(3) by simp_all
  have stays: "app_quit a1 = app_quit a"
    if "ps_end p \<le> since + 5 * SEC" "ps_drawn p" "\<not> leaves (ps_input p)"
    using closing_stays [OF p(1) Cons.prems(2)] Cons.prems(3) that by simp
  have rest: "\<forall>p \<in> set ps. ascii_input (ps_input p) \<and> keeps_closing (ps_input p)"
    using Cons.prems(3) by simp
  show ?case
    using p(1) c stays Cons.IH [OF p(2) c(1) rest] by (cases "app_quit a1") auto
qed simp

subsection \<open>The headless interface\<close>

fun ends :: "hl_input \<Rightarrow> bool" where
  "ends (HlLine l) \<longleftrightarrow> trim l = ''/quit''"
| "ends (HlEvent None) \<longleftrightarrow> True"
| "ends (HlEvent (Some ev)) \<longleftrightarrow> ev = RoomClosed"

fun opens :: "hl_input \<Rightarrow> bool" where
  "opens (HlEvent (Some (RoomReady address port))) \<longleftrightarrow> True"
| "opens (HlEvent (Some (PeerJoin info))) \<longleftrightarrow> True"
| "opens i \<longleftrightarrow> False"

fun ascii_hl :: "hl_input \<Rightarrow> bool" where
  "ascii_hl (HlEvent (Some (RoomReady address port))) \<longleftrightarrow> is_ascii address"
| "ascii_hl i \<longleftrightarrow> True"

fun lines_of :: "hl_input list \<Rightarrow> string list" where
  "lines_of [] = []"
| "lines_of (HlLine l # inps) = l # lines_of inps"
| "lines_of (HlEvent e # inps) = lines_of inps"

definition is_text :: "string \<Rightarrow> bool" where
  "is_text l \<longleftrightarrow> trim l \<noteq> [] \<and> hd (trim l) \<noteq> CHR ''/''"

fun sends :: "spawned list \<Rightarrow> string list" where
  "sends [] = []"
| "sends (SpawnSend t # sp) = t # sends sp"
| "sends (s # sp) = sends sp"

lemma sends_append [simp]: "sends (xs @ ys) = sends xs @ sends ys"
  by (induction xs rule: sends.induct) simp_all

lemma hl_command_sends [simp]: "hl_command cmd = (out, sp) \<Longrightarrow> sends sp = []"
  by (auto simp: hl_command_def split: if_splits)

text \<open>One pass: whether it ends the loop, whether the room is ready after it, what it sends.\<close>

lemma hl_select_spec:
  assumes "ascii_hl i"
  shows "\<exists>n out sp. hl_select ready i = Some (n, out, sp)
    \<and> n = (if ends i then HlBreak else HlGo (ready \<or> opens i))
    \<and> sends sp = (if ready then map trim (filter is_text (lines_of [i])) else [])
    \<and> (ends i \<longrightarrow> sp = [])"
proof (cases i)
  case (HlLine l)
  show ?thesis
  proof (cases "trim l")
    case Nil
    then show ?thesis using HlLine by (auto simp: hl_select_def hl_line_def is_text_def)
  next
    case (Cons c cmd)
    obtain out sp where cmd: "hl_command cmd = (out, sp)" by fastforce
    then show ?thesis using HlLine Cons by (auto simp: hl_select_def hl_line_def is_text_def)
  qed
next
  case (HlEvent e)
  show ?thesis
  proof (cases e)
    case (Some ev)
    then show ?thesis
      using assms HlEvent
      by (cases ev) (simp_all add: hl_select_def hl_event_def truncate_onion_def ascii_slice
        ONION_DISPLAY_LEN_def)
  qed (use HlEvent in \<open>simp add: hl_select_def hl_event_def\<close>)
qed

lemma hl_loop_spec:
  assumes "\<forall>i \<in> set inps. ascii_hl i"
  shows "\<exists>n out sp. hl_loop ready inps = Some (n, out, sp)
    \<and> (n = HlBreak \<longleftrightarrow> (\<exists>i \<in> set inps. ends i))
    \<and> sends sp = map trim (filter is_text (lines_of
        (let live = takeWhile (\<lambda>i. \<not> ends i) inps in
         if ready then live else dropWhile (\<lambda>i. \<not> opens i) live)))"
  using assms
proof (induction inps arbitrary: ready)
  case (Cons i inps)
  then have rest: "\<forall>i \<in> set inps. ascii_hl i" by simp
  obtain n out sp where i: "hl_select ready i = Some (n, out, sp)"
      "n = (if ends i then HlBreak else HlGo (ready \<or> opens i))"
      "sends sp = (if ready then map trim (filter is_text (lines_of [i])) else [])"
      "ends i \<longrightarrow> sp = []"
    using hl_select_spec [of i ready] Cons.prems by auto
  show ?case
  proof (cases "ends i")
    case True
    with i show ?thesis by simp
  next
    case False
    obtain n2 out2 sp2 where l: "hl_loop (ready \<or> opens i) inps = Some (n2, out2, sp2)"
        "n2 = HlBreak \<longleftrightarrow> (\<exists>i \<in> set inps. ends i)"
        "sends sp2 = map trim (filter is_text (lines_of
          (let live = takeWhile (\<lambda>i. \<not> ends i) inps in
           if ready \<or> opens i then live else dropWhile (\<lambda>i. \<not> opens i) live)))"
      using Cons.IH [OF rest, of "ready \<or> opens i"] by blast
    let ?live = "takeWhile (\<lambda>i. \<not> ends i) inps"
    have op: "opens i \<Longrightarrow> lines_of (i # ?live) = lines_of ?live"
      by (cases i rule: opens.cases) simp_all
    have li: "lines_of (i # ?live) = lines_of [i] @ lines_of ?live"
      by (cases i) simp_all
    have "hl_loop ready (i # inps) = Some (n2, out @ out2, sp @ sp2)"
      using i l(1) False by simp
    moreover have "sends (sp @ sp2) = map trim (filter is_text (lines_of
        (if ready then i # ?live else dropWhile (\<lambda>i. \<not> opens i) (i # ?live))))"
    proof (cases ready)
      case True
      then show ?thesis using i(3) l(3) by (simp add: li)
    next
      case False
      then show ?thesis using i(3) l(3) by (cases "opens i") (simp_all add: op)
    qed
    ultimately show ?thesis using False l(2) by simp
  qed
qed simp

section \<open>Properties\<close>

text \<open>
  The name a room is made with has no white space around it, and a host's is never empty; the
  name is saved only when neither \<open>--name\<close> nor the saved file gave one, and then it is the one the
  user typed. The room is the one the subcommand asks for, under that name; a joiner's empty name
  lets the invite choose.
\<close>

theorem main_name_resolved:
  assumes "main_run E (Some command) = (mode, eff)"
    and "mode = RunTui name ts command' \<or> mode = RunHeadless name ts command'"
  shows "command' = command \<and> trim name = name
    \<and> (\<forall>n. SaveName n \<in> set eff \<longrightarrow> n = name \<and> blank (ne_saved E))
    \<and> (case command of
         HostCommand ttl _ _ _ \<Rightarrow> name \<noteq> []
           \<and> create_room name command = (room_inner_new name, HostTask \<lparr>hc_name = name, hc_invite_ttl_secs = ttl\<rparr>)
       | JoinCommand code ov _ _ \<Rightarrow> (name = [] \<longleftrightarrow> blank ov) \<and> eff = []
           \<and> create_room name command = (room_inner_new name, JoinTask \<lparr>jc_name = name, jc_invite_code = code\<rparr>))"
proof (cases command)
  case (HostCommand ttl ov ts0 hl)
  then obtain e where r: "resolve_name E ov = (Inr name, eff)" "command' = command"
    using assms by (auto simp: main_run_def split: prod.splits sum.splits if_splits)
  with resolve_name_Inr [OF r(1)] HostCommand show ?thesis
    by (simp add: create_room_def factory_create_def host_def)
next
  case (JoinCommand code ov ts0 hl)
  with assms show ?thesis
    by (auto simp: main_run_def create_room_def factory_create_def join_def blank_def
      split: option.splits if_splits)
qed

text \<open>
  C18. The terminal interface never panics and keeps its state sound, whatever is typed and
  received and however the terminal is resized, as long as typed characters, peers' names and the
  room's address are ASCII: the cursor stays inside the input and no peer is listed twice.
\<close>

theorem tui_never_panics:
  assumes "\<forall>p \<in> set ps. ascii_input (ps_input p)"
  shows "\<exists>a sp. (tui_loop hhmm ps (tui_app now timestamps) [] = TuiQuit a sp
      \<or> tui_loop hhmm ps (tui_app now timestamps) [] = TuiWaiting a sp)
    \<and> app_cursor a \<le> length (app_input a) \<and> distinct (map pi_id (app_peers a))"
proof -
  have "app_ok a \<Longrightarrow> \<exists>b sp'. (tui_loop hhmm ps a sp = TuiQuit b sp' \<or> tui_loop hhmm ps a sp = TuiWaiting b sp')
      \<and> app_ok b" for a sp
    using assms
  proof (induction ps arbitrary: a sp)
    case (Cons p ps)
    then obtain a1 sp1 scr where p: "tui_pass hhmm p a = Some (a1, sp1, scr)" "app_ok a1"
      using tui_pass_ok [of a p hhmm] by auto
    with Cons.IH [OF p(2), of "sp @ sp1"] Cons.prems show ?case by auto
  qed simp
  moreover have "app_ok (tui_app now timestamps)"
    by (simp add: tui_app_def app_new_def app_ok_def msgs_ok_def)
  ultimately show ?thesis unfolding app_ok_def by blast
qed

text \<open>
  C27. A closed room closes the interface. On ASCII inputs, and unless the room is reported ready or
  closed again, nothing more is sent once it is shutting down, whatever is typed; the loop ends at
  the latest with the first pass that finishes more than five seconds after the closing, and as long
  as no pass does it goes on, unless the user presses Ctrl-C, a quit is answered or drawing fails.
\<close>

theorem closing_ends:
  assumes "app_ok a" and "app_mode a = ModeShuttingDown since"
    and "\<forall>p \<in> set ps. ascii_input (ps_input p) \<and> keeps_closing (ps_input p)"
  shows "((\<exists>p \<in> set ps. since + 5 * SEC < ps_end p) \<longrightarrow> (\<exists>a'. tui_loop hhmm ps a sp = TuiQuit a' sp))
    \<and> (\<not> app_quit a \<and> (\<forall>p \<in> set ps. ps_end p \<le> since + 5 * SEC \<and> ps_drawn p \<and> \<not> leaves (ps_input p))
       \<longrightarrow> (\<exists>a'. tui_loop hhmm ps a sp = TuiWaiting a' sp \<and> app_mode a' = ModeShuttingDown since))"
  by (rule closing_loop [OF assms])

text \<open>
  C26. The headless interface sends exactly the lines typed while the room is ready: those that
  come after the first address or peer and before the end, trimmed, in order, without the empty ones
  and the commands; it ends exactly at \<open>/quit\<close>, a closed room or a lost connection, and does not
  panic on an ASCII address.
\<close>

theorem headless_sends:
  assumes "\<forall>i \<in> set inps. ascii_hl i"
  shows "\<exists>n out sp. hl_loop False inps = Some (n, out, sp)
    \<and> (n = HlBreak \<longleftrightarrow> (\<exists>i \<in> set inps. ends i))
    \<and> sends sp = map trim (filter is_text (lines_of
        (dropWhile (\<lambda>i. \<not> opens i) (takeWhile (\<lambda>i. \<not> ends i) inps))))"
  using hl_loop_spec [OF assms, of False] by (simp add: Let_def)

lemma command_name_quit: "command_name ''quit'' = ''quit''"
  by (simp add: command_name_def split_whitespace_def words_visible visible_def)

text \<open>
  C39. The two interfaces read a typed line the same way, if there is no white space around it and
  the room is ready: it starts the same task in both, except that \<open>/help\<close> and \<open>/quit\<close> with an argument
  are unknown to the headless one, and that its \<open>/quit\<close> ends the loop at once instead of through a
  task. With white space around it they differ: the headless one reads the line without it, the
  terminal one as it is, so that a command behind a blank is sent to the room as a text.
\<close>

theorem interfaces_agree:
  assumes "app_handle a" and "app_cmd_tx a" and "app_input a = l"
  shows "(trim l = l \<longrightarrow> (if l \<noteq> [] \<and> hd l = CHR ''/'' \<and> command_name (tl l) = ''quit''
      then snd (app_send now a) = [SpawnQuit] \<and> snd (snd (hl_line True l)) = []
        \<and> (fst (hl_line True l) = HlBreak \<longleftrightarrow> l = ''/quit'')
      else snd (app_send now a) = snd (snd (hl_line True l))
        \<and> (fst (hl_line True l) = HlGo True \<or> l = ''/quit'')))
    \<and> hl_line True l = hl_line True (trim l)
    \<and> (l \<noteq> [] \<and> hd l \<noteq> CHR ''/'' \<longrightarrow> snd (app_send now a) = [SpawnSend l])"
proof (intro conjI impI)
  assume t: "trim l = l"
  show "if l \<noteq> [] \<and> hd l = CHR ''/'' \<and> command_name (tl l) = ''quit''
      then snd (app_send now a) = [SpawnQuit] \<and> snd (snd (hl_line True l)) = []
        \<and> (fst (hl_line True l) = HlBreak \<longleftrightarrow> l = ''/quit'')
      else snd (app_send now a) = snd (snd (hl_line True l))
        \<and> (fst (hl_line True l) = HlGo True \<or> l = ''/quit'')"
  proof (cases l)
    case Nil
    then show ?thesis using assms t by (simp add: hl_line_def app_send_def)
  next
    case (Cons c cs)
    then show ?thesis
      using assms t by (auto simp: hl_line_def app_send_def dispatch_command_def hl_command_def Let_def
        command_name_quit)
  qed
next
  show "hl_line True l = hl_line True (trim l)" by (simp add: hl_line_def)
next
  assume "l \<noteq> [] \<and> hd l \<noteq> CHR ''/''"
  then show "snd (app_send now a) = [SpawnSend l]"
    using assms by (cases l) (auto simp: app_send_def Let_def)
qed

section \<open>Witnesses\<close>

definition demo_pass :: "nat \<Rightarrow> tui_input \<Rightarrow> pass" where
  "demo_pass now i = \<lparr>ps_now = now, ps_input = i, ps_end = now, ps_width = 80, ps_height = 24,
     ps_rows = 20, ps_drawn = True\<rparr>"

lemma trim_hi: "trim ''hi'' = ''hi''" "trim ''/quit'' = ''/quit''"
  by (simp_all add: trim_visible visible_def)

theorem main_name_resolved_witness:
  "\<exists>mode eff. main_run \<lparr>ne_saved = None, ne_flush = Inr (), ne_line = Inr ''hi'', ne_mkdir = Inr (),
      ne_write = Inr ()\<rparr> (Some (HostCommand 300 None False True)) = (mode, eff)
    \<and> SaveName ''hi'' \<in> set eff
    \<and> fst (create_room ''hi'' (HostCommand 300 None False True)) = (room_inner_new ''hi'' :: unit room_inner)"
proof -
  let ?E = "\<lparr>ne_saved = None, ne_flush = Inr (), ne_line = Inr ''hi'', ne_mkdir = Inr (), ne_write = Inr ()\<rparr>"
  let ?c = "HostCommand 300 None False True"
  have m: "main_run ?E (Some ?c) = (RunHeadless ''hi'' False ?c, [Prompt, SaveName ''hi''])"
    by (simp add: main_run_def resolve_name_def ask_name_def trim_hi Let_def)
  from main_name_resolved [OF m, of "''hi''" False ?c, where 'a = unit] m show ?thesis by auto
qed

theorem tui_never_panics_witness:
  "\<exists>a sp. (tui_loop (\<lambda>_. []) [demo_pass 5 (TuiEvent (Some RoomClosed)), demo_pass 7 TuiTick] (tui_app 0 False) []
      = TuiQuit a sp
    \<or> tui_loop (\<lambda>_. []) [demo_pass 5 (TuiEvent (Some RoomClosed)), demo_pass 7 TuiTick] (tui_app 0 False) []
      = TuiWaiting a sp) \<and> app_cursor a \<le> length (app_input a)"
  using tui_never_panics [of "[demo_pass 5 (TuiEvent (Some RoomClosed)), demo_pass 7 TuiTick]" "\<lambda>_. []" 0 False]
  by (auto simp: demo_pass_def)

theorem closing_ends_witness:
  "(\<exists>a'. tui_loop (\<lambda>_. []) [demo_pass 5 TuiTick, demo_pass (6 * SEC) (TuiKey (plain_key KEnter))]
      ((tui_app 0 False)\<lparr>app_mode := ModeShuttingDown 1\<rparr>) [] = TuiQuit a' [])
   \<and> (\<exists>a'. tui_loop (\<lambda>_. []) [demo_pass 5 TuiTick, demo_pass (5 * SEC) (TuiKey (plain_key KEnter))]
      ((tui_app 0 False)\<lparr>app_mode := ModeShuttingDown 1\<rparr>) [] = TuiWaiting a' [])"
proof -
  have ok: "app_ok ((tui_app 0 False)\<lparr>app_mode := ModeShuttingDown 1\<rparr>)"
    by (simp add: tui_app_def app_new_def app_ok_def msgs_ok_def)
  have quit: "\<not> app_quit (tui_app 0 False)" by (simp add: tui_app_def app_new_def)
  note d = demo_pass_def plain_key_def ascii_key_def SEC_def
  show ?thesis
  proof (rule conjI)
    show "\<exists>a'. tui_loop (\<lambda>_. []) [demo_pass 5 TuiTick, demo_pass (6 * SEC) (TuiKey (plain_key KEnter))]
      ((tui_app 0 False)\<lparr>app_mode := ModeShuttingDown 1\<rparr>) [] = TuiQuit a' []"
      by (rule closing_ends [OF ok, of 1, THEN conjunct1, THEN mp]) (simp_all add: d)
    have "\<exists>a'. tui_loop (\<lambda>_. []) [demo_pass 5 TuiTick, demo_pass (5 * SEC) (TuiKey (plain_key KEnter))]
        ((tui_app 0 False)\<lparr>app_mode := ModeShuttingDown 1\<rparr>) [] = TuiWaiting a' []
      \<and> app_mode a' = ModeShuttingDown 1"
      by (rule closing_ends [OF ok, of 1, THEN conjunct2, THEN mp]) (use quit in \<open>simp_all add: d\<close>)
    then show "\<exists>a'. tui_loop (\<lambda>_. []) [demo_pass 5 TuiTick, demo_pass (5 * SEC) (TuiKey (plain_key KEnter))]
        ((tui_app 0 False)\<lparr>app_mode := ModeShuttingDown 1\<rparr>) [] = TuiWaiting a' []" by blast
  qed
qed

theorem headless_sends_witness:
  "\<exists>n out sp. hl_loop False [HlLine ''hi'', HlEvent (Some (PeerJoin demo_peer)), HlLine ''hi'',
      HlLine ''/quit'', HlLine ''hi''] = Some (n, out, sp) \<and> n = HlBreak \<and> sends sp = [''hi'']"
  using headless_sends [of "[HlLine ''hi'', HlEvent (Some (PeerJoin demo_peer)), HlLine ''hi'',
      HlLine ''/quit'', HlLine ''hi'']"]
  by (auto simp: trim_hi is_text_def)

theorem interfaces_agree_witness:
  "snd (app_send 0 ((tui_app 0 False)\<lparr>app_input := ''hi''\<rparr>)) = snd (snd (hl_line True ''hi''))
   \<and> snd (app_send 0 ((tui_app 0 False)\<lparr>app_input := '' /quit''\<rparr>)) = [SpawnSend '' /quit'']
   \<and> fst (hl_line True '' /quit'') = HlBreak"
proof -
  have t: "trim '' /quit'' = ''/quit''" by code_simp
  have "fst (hl_line True '' /quit'') = HlBreak" by (simp add: hl_line_def t)
  with interfaces_agree [of "(tui_app 0 False)\<lparr>app_input := ''hi''\<rparr>" "''hi''" 0]
    interfaces_agree [of "(tui_app 0 False)\<lparr>app_input := '' /quit''\<rparr>" "'' /quit''" 0]
  show ?thesis by (simp add: trim_hi tui_app_def)
qed

end
