(* ===== verification/Cli_Room.thy ===== *)
theory Cli_Room
  imports Cli_Main "HOL-Library.Multiset"
begin

text \<open>
  The tasks that the interfaces of \<open>crates/cli/src/main.rs\<close> spawn, beside the room. Each command and
  each text is a \<open>tokio\<close> task of its own on a runtime with several workers, so that the spawned
  tasks run in any order, and the room may be quit by others in between.
\<close>

section \<open>Tasks and the room\<close>

text \<open>
  The tasks that have not run, the shared room, the calls made on its channel \<open>send_tx\<close>, and the
  results sent back on \<open>cmd_tx\<close>.
\<close>

record 'c front =
  fr_tasks :: "spawned list"
  fr_room :: "'c room_inner"
  fr_log :: log
  fr_results :: "cmd_result list"

text \<open>
  A task runs when the scheduler picks it, from wherever it stands among the spawned ones. One that
  cannot complete (the channel is full) stays. \<open>front_other\<close> is what the other tasks of the room do
  to the shared state: they may quit the room, and never undo that.
\<close>

inductive front_step :: "crates \<Rightarrow> net \<Rightarrow> 'c front \<Rightarrow> 'c front \<Rightarrow> bool" for K N where
  front_task: "fr_tasks f = xs @ t # ys \<Longrightarrow>
     run_spawned K N random_nonce now t (fr_room f) (fr_log f) = (Ready res, r', h') \<Longrightarrow>
     front_step K N f \<lparr>fr_tasks = xs @ ys, fr_room = r', fr_log = h',
       fr_results = fr_results f @ (case res of None \<Rightarrow> [] | Some c \<Rightarrow> [c])\<rparr>"
| front_other: "(ri_quit_flag (fr_room f) \<longrightarrow> ri_quit_flag r') \<Longrightarrow>
     front_step K N f (f\<lparr>fr_room := r'\<rparr>)"

text \<open>The states that are reachable after the interface has spawned \<open>typed\<close>.\<close>

inductive front_reach :: "crates \<Rightarrow> net \<Rightarrow> 'c room_inner \<Rightarrow> spawned list \<Rightarrow> 'c front \<Rightarrow> bool"
  for K N r where
  fr_init: "front_reach K N r [] \<lparr>fr_tasks = [], fr_room = r, fr_log = [], fr_results = []\<rparr>"
| fr_spawn: "front_reach K N r typed f \<Longrightarrow>
     front_reach K N r (typed @ sp) (f\<lparr>fr_tasks := fr_tasks f @ sp\<rparr>)"
| fr_step: "front_reach K N r typed f \<Longrightarrow> front_step K N f f' \<Longrightarrow> front_reach K N r typed f'"

inductive_cases front_stepE: "front_step K N f f'"

text \<open>The texts among what a channel was handed.\<close>

fun texts_of :: "chan_msg list \<Rightarrow> string list" where
  "texts_of [] = []"
| "texts_of (ToSend t # xs) = t # texts_of xs"
| "texts_of (_ # xs) = texts_of xs"

section \<open>Lemmas\<close>

lemma texts_of_append [simp]: "texts_of (xs @ ys) = texts_of xs @ texts_of ys"
  by (induction xs rule: texts_of.induct) simp_all

lemma sends_Cons: "sends (x # sp) = sends [x] @ sends sp"
  by (cases x) simp_all

lemma sends_map [simp]: "sends (map SpawnSend ts) = ts"
  by (induction ts) simp_all

text \<open>What one task does: a text is taken by the channel or refused.\<close>

lemma run_spawned_texts:
  assumes "run_spawned K N n now t r h = (Ready res, r', h')"
  shows "\<exists>refused. mset (sends [t]) + mset (texts_of (accepted h))
      = mset (texts_of (accepted h')) + mset refused
    \<and> (refused \<noteq> [] \<longrightarrow> ri_quit_flag r \<or> \<not> sends_succeed N)
    \<and> (ri_quit_flag r \<longrightarrow> ri_quit_flag r')"
proof (cases t)
  case (SpawnSend x)
  show ?thesis
  proof (cases "ri_quit_flag r \<or> n_send N h (ToSend x) \<noteq> Ready True")
    case True
    then have "h' = h \<or> h' = h @ [SendAwait (ToSend x) (Ready False)]" "r' = r"
      using assms SpawnSend
      by (auto simp: run_spawned_def room_send_def send_await_def Let_def
        split: if_splits timed.splits bool.splits prod.splits)
    moreover have "ri_quit_flag r \<or> \<not> sends_succeed N" using True by (auto simp: sends_succeed_def)
    ultimately show ?thesis using SpawnSend by (intro exI [of _ "[x]"]) auto
  next
    case False
    then have "h' = h @ [SendAwait (ToSend x) (Ready True)]" "r' = r"
      using assms SpawnSend by (auto simp: run_spawned_def room_send_def send_await_def Let_def)
    with SpawnSend show ?thesis by (intro exI [of _ "[]"]) simp
  qed
next
  case SpawnQuit
  with assms show ?thesis
    by (intro exI [of _ "[]"]) (auto simp: run_spawned_def room_quit_def)
qed (use assms in \<open>auto simp: run_spawned_def\<close>)

lemma front_reach_texts:
  "front_reach K N r typed f \<Longrightarrow> \<exists>refused.
     mset (sends typed) = mset (texts_of (accepted (fr_log f))) + mset refused + mset (sends (fr_tasks f))
   \<and> (refused \<noteq> [] \<longrightarrow> ri_quit_flag (fr_room f) \<or> \<not> sends_succeed N)"
proof (induction rule: front_reach.induct)
  case (fr_spawn typed f sp)
  then show ?case by auto
next
  case (fr_step typed f f')
  then obtain refused where IH: "mset (sends typed) = mset (texts_of (accepted (fr_log f)))
        + mset refused + mset (sends (fr_tasks f))"
      "refused \<noteq> [] \<longrightarrow> ri_quit_flag (fr_room f) \<or> \<not> sends_succeed N" by blast
  from fr_step.hyps(2) show ?case
  proof (cases rule: front_step.cases)
    case (front_task xs t ys n now res r' h')
    obtain ref where ref: "mset (sends [t]) + mset (texts_of (accepted (fr_log f)))
          = mset (texts_of (accepted h')) + mset ref"
        "ref \<noteq> [] \<longrightarrow> ri_quit_flag (fr_room f) \<or> \<not> sends_succeed N"
        "ri_quit_flag (fr_room f) \<longrightarrow> ri_quit_flag r'"
      using run_spawned_texts [OF front_task(3)] by blast
    have "mset (sends (fr_tasks f)) = mset (sends [t]) + mset (sends (xs @ ys))"
      unfolding front_task(2) sends_append sends_Cons [of t ys] by simp
    with IH ref front_task(1) show ?thesis
      by (intro exI [of _ "ref @ refused"]) (auto simp: ac_simps)
  next
    case (front_other r')
    with IH show ?thesis by auto
  qed
qed simp

text \<open>In an open room the scheduler can run the tasks of some texts in any order.\<close>

lemma front_runs_any:
  assumes "sends_succeed N"
  shows "front_reach K N r typed f \<Longrightarrow> fr_tasks f = map SpawnSend ts \<Longrightarrow> \<not> ri_quit_flag (fr_room f) \<Longrightarrow>
    mset us = mset ts \<Longrightarrow> \<exists>f'. front_reach K N r typed f' \<and> fr_tasks f' = [] \<and> fr_room f' = fr_room f
      \<and> texts_of (accepted (fr_log f')) = texts_of (accepted (fr_log f)) @ us"
proof (induction us arbitrary: f ts)
  case Nil
  then show ?case by auto
next
  case (Cons u us)
  then have "u \<in> set ts" by (metis list.set_intros(1) set_mset_mset)
  then obtain xs ys where ts: "ts = xs @ u # ys" by (meson split_list)
  let ?h = "fr_log f @ [SendAwait (ToSend u) (Ready True)]"
  let ?f = "\<lparr>fr_tasks = map SpawnSend xs @ map SpawnSend ys, fr_room = fr_room f, fr_log = ?h,
      fr_results = fr_results f\<rparr>"
  have "run_spawned K N n now (SpawnSend u) (fr_room f) (fr_log f) = (Ready None, fr_room f, ?h)" for n now
    using Cons.prems(3) assms by (simp add: run_spawned_def room_send_def send_await_def sends_succeed_def Let_def)
  from front_task [OF _ this, of "map SpawnSend xs" "map SpawnSend ys"] Cons.prems(2) ts
  have "front_step K N f ?f" by simp
  from fr_step [OF Cons.prems(1) this] have f: "front_reach K N r typed ?f" .
  have "mset us = mset (xs @ ys)" using Cons.prems(4) ts by simp
  from Cons.IH [OF f _ _ this] Cons.prems(3) show ?case by auto
qed

lemma front_any_order:
  assumes "sends_succeed N" and "\<not> ri_quit_flag r" and "mset us = mset ts"
  shows "\<exists>f. front_reach K N r (map SpawnSend ts) f \<and> fr_tasks f = [] \<and> fr_room f = r
    \<and> texts_of (accepted (fr_log f)) = us"
proof -
  let ?f = "\<lparr>fr_tasks = map SpawnSend ts, fr_room = r, fr_log = [], fr_results = []\<rparr>"
  have "front_reach K N r (map SpawnSend ts) ?f"
    using fr_spawn [OF fr_init, of K N r "map SpawnSend ts"] by simp
  from front_runs_any [OF assms(1) this, of ts us] assms(2,3) show ?thesis by auto
qed

section \<open>Properties\<close>

text \<open>
  C28. Nothing that is typed is lost, doubled or altered on the way into the room, but its order is
  not kept: at any time each typed text has been taken by the room's channel, or its task is
  waiting, or it was refused, which only happens once the room has quit (or its task is gone); and in
  an open room texts that are typed one after the other can enter the channel in every order.
\<close>

theorem typed_texts_sent:
  shows "(\<forall>f. front_reach K N r typed f \<longrightarrow> (\<exists>refused.
       mset (sends typed) = mset (texts_of (accepted (fr_log f))) + mset refused + mset (sends (fr_tasks f))
     \<and> (refused \<noteq> [] \<longrightarrow> ri_quit_flag (fr_room f) \<or> \<not> sends_succeed N)))
   \<and> (sends_succeed N \<and> \<not> ri_quit_flag r \<longrightarrow>
      (\<exists>f. front_reach K N r (map SpawnSend ts) f \<and> fr_tasks f = [] \<and> \<not> ri_quit_flag (fr_room f)
         \<and> texts_of (accepted (fr_log f)) = us) \<longleftrightarrow> mset us = mset ts)"
proof (intro conjI impI allI)
  show "front_reach K N r typed f \<Longrightarrow> \<exists>refused.
       mset (sends typed) = mset (texts_of (accepted (fr_log f))) + mset refused + mset (sends (fr_tasks f))
     \<and> (refused \<noteq> [] \<longrightarrow> ri_quit_flag (fr_room f) \<or> \<not> sends_succeed N)" for f
    by (rule front_reach_texts)
next
  assume open_room: "sends_succeed N \<and> \<not> ri_quit_flag r"
  let ?reached = "\<lambda>f. front_reach K N r (map SpawnSend ts) f \<and> fr_tasks f = [] \<and> \<not> ri_quit_flag (fr_room f)
      \<and> texts_of (accepted (fr_log f)) = us"
  have "mset us = mset ts \<Longrightarrow> \<exists>f. ?reached f"
    using front_any_order [of N r us ts K] open_room by metis
  moreover have "?reached f \<Longrightarrow> mset us = mset ts" for f
    using front_reach_texts [of K N r "map SpawnSend ts" f] open_room by auto
  ultimately show "(\<exists>f. ?reached f) \<longleftrightarrow> mset us = mset ts" by blast
qed

theorem typed_texts_sent_witness:
  "\<exists>f. front_reach sample_crates (mem_net []) (room_inner_new ''h'' :: unit room_inner)
       [SpawnSend ''a'', SpawnSend ''b''] f \<and> texts_of (accepted (fr_log f)) = [''b'', ''a'']"
  using typed_texts_sent [of sample_crates "mem_net []" "room_inner_new ''h'' :: unit room_inner" "[]"
      "[''a'', ''b'']" "[''b'', ''a'']"]
  by (auto simp: room_inner_new_def add_mset_commute)

end
