(* ===== verification/Wire_Tests.thy ===== *)
theory Wire_Tests
  imports Wire
begin

text \<open>
  The unit tests of \<open>crates/core/src/wire.rs\<close>, and what all theories of tests share. A test is the
  boolean value of its assertions over the model's definitions: \<open>unwrap r k\<close> is an \<open>unwrap()\<close>
  followed by the rest of the test, and a panic fails it. A test takes the third-party codecs as an
  argument, so that it is proved for every codec that does what is documented, and for every clock
  where it reads one. Strings outside ASCII are written as their bytes.
\<close>

section \<open>Assertions\<close>

definition unwrap :: "'e + 'a \<Rightarrow> ('a \<Rightarrow> bool) \<Rightarrow> bool" where
  "unwrap r k \<longleftrightarrow> (case r of Inl e \<Rightarrow> False | Inr x \<Rightarrow> k x)"

definition unwrap_err :: "'e + 'a \<Rightarrow> ('e \<Rightarrow> bool) \<Rightarrow> bool" where
  "unwrap_err r k \<longleftrightarrow> (case r of Inl e \<Rightarrow> k e | Inr x \<Rightarrow> False)"

definition is_ok :: "'e + 'a \<Rightarrow> bool" where
  "is_ok r \<longleftrightarrow> unwrap r (\<lambda>x. True)"

definition is_err :: "'e + 'a \<Rightarrow> bool" where
  "is_err r \<longleftrightarrow> unwrap_err r (\<lambda>e. True)"

lemma unwrap_simps [simp]:
  "unwrap (Inr x) k = k x" "unwrap (Inl e) k' = False"
  "unwrap_err (Inl e) f = f e" "unwrap_err (Inr x) f' = False"
  "is_ok (Inr x)" "\<not> is_ok (Inl e)" "is_err (Inl e)" "\<not> is_err (Inr x)"
  by (simp_all add: unwrap_def unwrap_err_def is_ok_def is_err_def)

definition utf8_string :: "nat list \<Rightarrow> string" where
  "utf8_string ns = map char_of ns"

text \<open>
  The size of a JSON message: its keys and punctuation take some but at most 64 bytes, and a byte of
  a string is printed in one to six.
\<close>

definition json_sized :: "crates \<Rightarrow> bool" where
  "json_sized K \<longleftrightarrow> (\<forall>m v. json_to_vec K m = Inr v \<longrightarrow> length (wm_text m) + 2 \<le> length v
     \<and> length v \<le> 64 + 6 * (length (wm_name m) + length (wm_text m)))"

lemma sample_hex_length: "length (sample_hex bs) = 2 * length bs"
  by (induction bs) (simp_all add: sample_hex_def hex_byte_def)

lemma sample_crates_sized [simp]: "json_sized sample_crates"
  by (auto simp: json_sized_def sample_crates_def sample_json_def sample_hex_length)

text \<open>A message of modest size encodes, and the frame decodes.\<close>

lemma small_encodes:
  assumes "json_ok K" and "json_sized K" and "wf_wire m"
    and "length (wm_name m) + length (wm_text m) \<le> 2700"
  obtains v where "encode_message K m = Inr (frame_of v)" "json_to_vec K m = Inr v" "v \<noteq> []"
    "utf8_valid v" "length v \<le> MAX_PAYLOAD_BYTES" "decode_message K (frame_of v) = Inr m"
proof -
  obtain v where v: "json_to_vec K m = Inr v" "v \<noteq> []" "utf8_valid v" "json_from_slice K v = Inr m"
    using json_roundtrip [OF assms(1,3)] .
  then have "length v \<le> 64 + 6 * (length (wm_name m) + length (wm_text m))"
    using assms(2) by (auto simp: json_sized_def)
  then have "length v \<le> MAX_PAYLOAD_BYTES" using assms(4) by (simp add: MAX_PAYLOAD_BYTES_def)
  moreover have "encode_message K m = Inr (frame_of v)"
    using v(1) calculation unfolding encode_message_eq by blast
  moreover have "decode_message K (frame_of v) = Inr m"
    using v calculation(1) by (simp add: decode_frame)
  ultimately show ?thesis using v by (intro that [of v])
qed

section \<open>The tests\<close>

subsection \<open>Round trips\<close>

definition roundtrip_chat :: "crates \<Rightarrow> bool" where
  "roundtrip_chat K \<longleftrightarrow> unwrap (encode_message K (wire_chat ''alice'' ''hello world'')) (\<lambda>encoded.
     unwrap (decode_message K encoded) (\<lambda>decoded.
       wm_kind decoded = Chat \<and> wm_name decoded = ''alice'' \<and> wm_text decoded = ''hello world''))"

definition roundtrip_system :: "crates \<Rightarrow> bool" where
  "roundtrip_system K \<longleftrightarrow> unwrap (encode_message K (wire_system ''peer joined'')) (\<lambda>encoded.
     unwrap (decode_message K encoded) (\<lambda>decoded.
       wm_kind decoded = System \<and> wm_text decoded = ''peer joined''))"

definition roundtrip_ping_pong :: "crates \<Rightarrow> bool" where
  "roundtrip_ping_pong K \<longleftrightarrow>
     unwrap (encode_message K wire_ping) (\<lambda>f. unwrap (decode_message K f) (\<lambda>m. wm_kind m = Ping))
   \<and> unwrap (encode_message K wire_pong) (\<lambda>f. unwrap (decode_message K f) (\<lambda>m. wm_kind m = Pong))"

definition earth :: string where
  "earth = utf8_string [240, 159, 140, 141]"

definition hello_world_zh :: string where
  "hello_world_zh = utf8_string [228, 189, 160, 229, 165, 189, 228, 184, 150, 231, 149, 140, 32,
     240, 159, 142, 137]"

definition roundtrip_unicode :: "crates \<Rightarrow> bool" where
  "roundtrip_unicode K \<longleftrightarrow> unwrap (encode_message K (wire_chat earth hello_world_zh)) (\<lambda>encoded.
     unwrap (decode_message K encoded) (\<lambda>decoded.
       wm_name decoded = earth \<and> wm_text decoded = hello_world_zh))"

definition header_is_big_endian :: "crates \<Rightarrow> bool" where
  "header_is_big_endian K \<longleftrightarrow> unwrap (encode_message K (wire_chat ''a'' ''x'')) (\<lambda>encoded.
     unwrap (json_to_vec K (wire_chat ''a'' ''x'')) (\<lambda>payload.
       take 4 encoded = to_be_bytes (word_of_nat (length payload))))"

subsection \<open>Errors\<close>

fun is_oversized :: "chat_error \<Rightarrow> bool" where
  "is_oversized (OversizedMessage n limit) \<longleftrightarrow> True"
| "is_oversized e \<longleftrightarrow> False"

fun is_wire_error :: "chat_error \<Rightarrow> bool" where
  "is_wire_error (WireError msg) \<longleftrightarrow> True"
| "is_wire_error e \<longleftrightarrow> False"

definition oversized_encode_rejected :: "crates \<Rightarrow> bool" where
  "oversized_encode_rejected K \<longleftrightarrow>
     unwrap_err (encode_message K (wire_chat ''a'' (replicate (MAX_PAYLOAD_BYTES + 1) (CHR ''x''))))
       is_oversized"

definition oversized_decode_rejected :: "crates \<Rightarrow> bool" where
  "oversized_decode_rejected K \<longleftrightarrow>
     unwrap_err (decode_message K (to_be_bytes (word_of_nat MAX_PAYLOAD_BYTES + 1))) is_oversized"

definition short_data_rejected :: "crates \<Rightarrow> bool" where
  "short_data_rejected K \<longleftrightarrow> unwrap_err (decode_message K [1, 2]) is_wire_error"

definition malformed_json_rejected :: "crates \<Rightarrow> bool" where
  "malformed_json_rejected K \<longleftrightarrow>
     (let payload = as_bytes ''not json''; len = to_be_bytes (word_of_nat (length payload)) in
      unwrap_err (decode_message K (len @ payload)) is_wire_error)"

text \<open>\<open>&payload[..5]\<close> panics on a shorter payload.\<close>

definition truncated_payload_rejected :: "crates \<Rightarrow> bool" where
  "truncated_payload_rejected K \<longleftrightarrow>
     unwrap (json_to_vec K (wire_chat ''a'' ''hello'')) (\<lambda>payload.
       5 \<le> length payload
     \<and> unwrap_err (decode_message K (to_be_bytes (word_of_nat (length payload)) @ take 5 payload))
         is_wire_error)"

definition zero_length_rejected :: "crates \<Rightarrow> bool" where
  "zero_length_rejected K \<longleftrightarrow> unwrap_err (decode_message K (to_be_bytes 0)) is_wire_error"

subsection \<open>Frames on a stream\<close>

fun ready_then :: "(chat_error + 'a) timed \<Rightarrow> ('a \<Rightarrow> bool) \<Rightarrow> bool" where
  "ready_then Elapsed k \<longleftrightarrow> False"
| "ready_then (Ready r) k \<longleftrightarrow> unwrap r k"

definition read_frame_complete :: "crates \<Rightarrow> bool" where
  "read_frame_complete K \<longleftrightarrow> unwrap (encode_message K (wire_chat ''bob'' ''async test'')) (\<lambda>encoded.
     ready_then (fst (read_frame (mem_net encoded) [])) (\<lambda>frame.
       unwrap (decode_message K frame) (\<lambda>decoded.
         wm_name decoded = ''bob'' \<and> wm_text decoded = ''async test'')))"

text \<open>The reader's end of the \<open>duplex\<close> yields what the writer's end was given.\<close>

definition write_frame_roundtrip :: "crates \<Rightarrow> bool" where
  "write_frame_roundtrip K \<longleftrightarrow> unwrap (encode_message K (wire_chat ''alice'' ''hello'')) (\<lambda>encoded.
     case write_frame (mem_net []) encoded [] of (w, log) \<Rightarrow>
       is_ok w \<and> ready_then (fst (read_frame (mem_net (written log)) [])) (\<lambda>frame.
         unwrap (decode_message K frame) (\<lambda>decoded.
           wm_name decoded = ''alice'' \<and> wm_text decoded = ''hello'')))"

section \<open>They pass\<close>

lemma mem_read_frame:
  assumes "v \<noteq> []" and "utf8_valid v" and "length v \<le> MAX_PAYLOAD_BYTES"
  shows "fst (read_frame (mem_net (frame_of v)) []) = Ready (Inr (frame_of v))"
  using read_frame_feeds [of "mem_net (frame_of v)" "[]" v "[]" "[]"] assms by simp

lemma unicode_strings: "is_utf8 earth" "is_utf8 hello_world_zh"
  by (simp_all add: earth_def hello_world_zh_def utf8_string_def is_utf8_def) (code_simp, code_simp)

lemma roundtrips_pass:
  assumes "json_ok K" and "json_sized K"
  shows "roundtrip_chat K" "roundtrip_system K" "roundtrip_ping_pong K" "roundtrip_unicode K"
    "header_is_big_endian K"
proof -
  note enc = small_encodes [OF assms]
  have "is_utf8 ''alice''" "is_utf8 ''hello world''" "is_utf8 ''peer joined''" "is_utf8 ''a''" "is_utf8 ''x''"
    by (simp_all add: ascii_is_utf8)
  note wf = this unicode_strings
  show "roundtrip_chat K"
    using enc [of "wire_chat ''alice'' ''hello world''"] wf by (fastforce simp: roundtrip_chat_def)
  show "roundtrip_system K"
    using enc [of "wire_system ''peer joined''"] wf by (fastforce simp: roundtrip_system_def)
  have "length (wm_name wire_ping) + length (wm_text wire_ping) \<le> 2700"
    "length (wm_name wire_pong) + length (wm_text wire_pong) \<le> 2700"
    by (simp_all add: wire_ping_def wire_pong_def)
  then show "roundtrip_ping_pong K"
    using enc [of wire_ping] enc [of wire_pong] by (fastforce simp: roundtrip_ping_pong_def)
  have "length earth + length hello_world_zh \<le> 2700"
    by (simp add: earth_def hello_world_zh_def utf8_string_def)
  then show "roundtrip_unicode K"
    using enc [of "wire_chat earth hello_world_zh"] wf by (fastforce simp: roundtrip_unicode_def)
  show "header_is_big_endian K"
    using enc [of "wire_chat ''a'' ''x''"] wf by (fastforce simp: header_is_big_endian_def frame_of_def)
qed

lemma errors_pass:
  assumes "json_ok K" and "json_sized K" and "\<exists>e. json_from_slice K (as_bytes ''not json'') = Inl e"
  shows "oversized_encode_rejected K" "oversized_decode_rejected K" "short_data_rejected K"
    "malformed_json_rejected K" "truncated_payload_rejected K" "zero_length_rejected K"
proof -
  let ?big = "wire_chat ''a'' (replicate (MAX_PAYLOAD_BYTES + 1) (CHR ''x''))"
  have "is_ascii (replicate n (CHR ''x''))" for n by (induction n) simp_all
  then have "wf_wire ?big" by (simp add: ascii_is_utf8)
  then obtain v where v: "json_to_vec K ?big = Inr v" using json_roundtrip [OF assms(1)] by metis
  then have "MAX_PAYLOAD_BYTES < length v" using assms(2) by (fastforce simp: json_sized_def)
  with v show "oversized_encode_rejected K"
    by (simp add: oversized_encode_rejected_def encode_message_def)
  show "oversized_decode_rejected K"
    by (simp add: oversized_decode_rejected_def decode_message_def MAX_PAYLOAD_BYTES_def Let_def)
  show "short_data_rejected K" by (simp add: short_data_rejected_def decode_message_def)
  show "malformed_json_rejected K"
    using assms(3) decode_frame [of "as_bytes ''not json''" K]
    by (auto simp: malformed_json_rejected_def frame_of_def MAX_PAYLOAD_BYTES_def Let_def)
  have "wf_wire (wire_chat ''a'' ''hello'')" by (simp add: ascii_is_utf8)
  then obtain u where u: "json_to_vec K (wire_chat ''a'' ''hello'') = Inr u"
    using json_roundtrip [OF assms(1)] by metis
  with assms(2) have len: "5 < length u" "length u \<le> MAX_PAYLOAD_BYTES"
    by (fastforce simp: json_sized_def MAX_PAYLOAD_BYTES_def)+
  then have "unat (word_of_nat (length u) :: u32) = length u" by (simp add: unat_frame_length)
  with u len show "truncated_payload_rejected K"
    by (simp add: truncated_payload_rejected_def decode_message_def Let_def)
  show "zero_length_rejected K" by (simp add: zero_length_rejected_def decode_message_def)
qed

lemma streams_pass:
  assumes "json_ok K" and "json_sized K"
  shows "read_frame_complete K" "write_frame_roundtrip K"
proof -
  note enc = small_encodes [OF assms]
  have wf: "wf_wire (wire_chat ''bob'' ''async test'')" "wf_wire (wire_chat ''alice'' ''hello'')"
    by (simp_all add: ascii_is_utf8)
  show "read_frame_complete K"
    using enc [OF wf(1)] mem_read_frame by (fastforce simp: read_frame_complete_def)
  show "write_frame_roundtrip K"
    using enc [OF wf(2)] mem_read_frame write_frame_succeeds [of "mem_net []"]
    by (fastforce simp: write_frame_roundtrip_def)
qed

end
