(* ===== verification/Invite_Tests.thy ===== *)
theory Invite_Tests
  imports Invite Wire_Tests
begin

text \<open>
  The unit tests of \<open>crates/core/src/invite.rs\<close>. A test reads the clock when it makes a payload
  (\<open>now\<close>) and \<open>decode\<close> reads it again (\<open>now'\<close>); \<open>checks\<close> says whether additions are checked.
\<close>

section \<open>Base58\<close>

text \<open>
  What the tests use of base58 beside its round trip: the alphabet, which has no \<open>0\<close>, \<open>O\<close>, \<open>I\<close>
  and \<open>l\<close>, and that decoding never yields more bytes than there are characters.
\<close>

definition base58_alphabet :: string where
  "base58_alphabet = ''123456789ABCDEFGHJKLMNPQRSTUVWXYZabcdefghijkmnopqrstuvwxyz''"

definition base58_strict :: "crates \<Rightarrow> bool" where
  "base58_strict K \<longleftrightarrow> (\<forall>bs. set (to_base58 K bs) \<subseteq> set base58_alphabet)
     \<and> (\<forall>s bs. from_base58 K s = Inr bs \<longrightarrow> set s \<subseteq> set base58_alphabet \<and> length bs \<le> length s)"

text \<open>A codec with these laws: hexadecimal with \<open>z\<close> for \<open>0\<close>.\<close>

definition swap_zero :: "string \<Rightarrow> string" where
  "swap_zero s = map (\<lambda>c. if c = CHR ''0'' then CHR ''z'' else if c = CHR ''z'' then CHR ''0'' else c) s"

definition strict_crates :: crates where
  "strict_crates = sample_crates\<lparr>to_base58 := (\<lambda>bs. swap_zero (sample_hex bs)),
     from_base58 := (\<lambda>s. case sample_unhex (swap_zero s) of None \<Rightarrow> Inl ''InvalidBase58Character''
                                                          | Some bs \<Rightarrow> Inr bs)\<rparr>"

lemma swap_zero_swap [simp]: "swap_zero (swap_zero s) = s"
  by (induction s) (simp_all add: swap_zero_def)

lemma nibble_val_digit:
  assumes "nibble_val c = Some n"
  shows "c \<in> set hex_digits"
proof -
  have "\<forall>k \<in> set ([48..<58] @ [97..<103]). (char_of (k :: nat)) \<in> set hex_digits" by code_simp
  moreover have "of_char c \<in> set ([48..<58] @ [97..<103])"
    using assms unfolding set_append set_upt Un_iff atLeastLessThan_iff
    by (auto simp: nibble_val_def Let_def split: if_splits)
  ultimately have "char_of (of_char c :: nat) \<in> set hex_digits" by blast
  then show ?thesis by simp
qed

lemma sample_unhex_digits:
  "sample_unhex s = Some bs \<Longrightarrow> set s \<subseteq> set hex_digits \<and> length bs \<le> length s"
  by (induction s arbitrary: bs rule: sample_unhex.induct)
     (auto simp: nibble_val_digit split: option.splits)

lemma swapped_alphabet:
  assumes "set s \<subseteq> set hex_digits"
  shows "set (swap_zero s) \<subseteq> set base58_alphabet"
proof -
  have "\<forall>c \<in> set hex_digits. (if c = CHR ''0'' then CHR ''z'' else if c = CHR ''z'' then CHR ''0'' else c)
      \<in> set base58_alphabet" by code_simp
  then show ?thesis using assms unfolding swap_zero_def by fastforce
qed

lemma strict_crates_ok [simp]: "base58_strict strict_crates" "base58_ok strict_crates" "hex_ok strict_crates"
proof -
  have "set s \<subseteq> set base58_alphabet" if "set (swap_zero s) \<subseteq> set hex_digits" for s
    using swapped_alphabet [OF that] by simp
  moreover have "length bs \<le> length s" if "sample_unhex (swap_zero s) = Some bs" for s bs
    using sample_unhex_digits [OF that] by (simp add: swap_zero_def)
  ultimately show "base58_strict strict_crates"
    using sample_unhex_digits swapped_alphabet [OF sample_hex_digits]
    by (auto simp: base58_strict_def strict_crates_def split: option.splits)
  show "base58_ok strict_crates"
    by (simp add: base58_ok_def strict_crates_def sample_unhex_hex swap_zero_def [of "[]"])
  show "hex_ok strict_crates"
    using sample_crates_ok(2) by (simp add: hex_ok_def strict_crates_def)
qed

section \<open>The tests\<close>

definition make_payload :: "string \<Rightarrow> u64 \<Rightarrow> invite_payload" where
  "make_payload addr ts = \<lparr>ip_onion_address = addr, ip_nonce = replicate 16 66, ip_timestamp = ts,
     ip_suggested_name = None\<rparr>"

definition ONION :: string where
  "ONION = ''vww6ybal6bd7szmgncyruucpgfkqahzddi37ktceo3ah7ngmcopnpyyd.onion''"

text \<open>A call that may panic, and the rest of the test.\<close>

definition returns :: "'a option \<Rightarrow> ('a \<Rightarrow> bool) \<Rightarrow> bool" where
  "returns r k \<longleftrightarrow> (case r of None \<Rightarrow> False | Some x \<Rightarrow> k x)"

fun is_invalid :: "chat_error \<Rightarrow> bool" where
  "is_invalid (InvalidInvite msg) \<longleftrightarrow> True"
| "is_invalid e \<longleftrightarrow> False"

fun is_expired :: "chat_error \<Rightarrow> bool" where
  "is_expired (InviteExpired ts) \<longleftrightarrow> True"
| "is_expired e \<longleftrightarrow> False"

definition encoded_then :: "crates \<Rightarrow> bool \<Rightarrow> u64 \<Rightarrow> invite_payload \<Rightarrow> u64 option
    \<Rightarrow> (chat_error + invite_payload \<Rightarrow> bool) \<Rightarrow> bool" where
  "encoded_then K checks now' payload ttl k \<longleftrightarrow> unwrap (encode_invite K payload) (\<lambda>token.
     returns (decode_invite K checks now' token ttl) k)"

subsection \<open>Round trips\<close>

definition roundtrip_basic :: "crates \<Rightarrow> bool \<Rightarrow> u64 \<Rightarrow> u64 \<Rightarrow> bool" where
  "roundtrip_basic K checks now now' \<longleftrightarrow>
     (let payload = make_payload ONION now in
      encoded_then K checks now' payload None (\<lambda>r. unwrap r (\<lambda>decoded.
        ip_onion_address decoded = ip_onion_address payload
      \<and> ip_nonce decoded = ip_nonce payload \<and> ip_timestamp decoded = ip_timestamp payload)))"

definition roundtrip_zero_nonce :: "crates \<Rightarrow> bool \<Rightarrow> u64 \<Rightarrow> u64 \<Rightarrow> bool" where
  "roundtrip_zero_nonce K checks now now' \<longleftrightarrow>
     encoded_then K checks now' ((make_payload ONION now)\<lparr>ip_nonce := replicate 16 0\<rparr>) None
       (\<lambda>r. unwrap r (\<lambda>decoded. ip_nonce decoded = replicate 16 0))"

definition roundtrip_ff_nonce :: "crates \<Rightarrow> bool \<Rightarrow> u64 \<Rightarrow> u64 \<Rightarrow> bool" where
  "roundtrip_ff_nonce K checks now now' \<longleftrightarrow>
     encoded_then K checks now' ((make_payload ONION now)\<lparr>ip_nonce := replicate 16 255\<rparr>) None
       (\<lambda>r. unwrap r (\<lambda>decoded. ip_nonce decoded = replicate 16 255))"

definition roundtrip_past_timestamp :: "crates \<Rightarrow> bool \<Rightarrow> u64 \<Rightarrow> bool" where
  "roundtrip_past_timestamp K checks now' \<longleftrightarrow>
     encoded_then K checks now' (make_payload ONION 1700000000) None
       (\<lambda>r. unwrap r (\<lambda>decoded. ip_timestamp decoded = 1700000000))"

subsection \<open>Properties of tokens\<close>

definition token_is_contiguous_no_whitespace :: "crates \<Rightarrow> u64 \<Rightarrow> bool" where
  "token_is_contiguous_no_whitespace K now \<longleftrightarrow> unwrap (encode_invite K (make_payload ONION now)) (\<lambda>token.
     CHR '' '' \<notin> set token \<and> CHR ''.'' \<notin> set token \<and> char_of (10 :: nat) \<notin> set token)"

definition token_is_deterministic :: "crates \<Rightarrow> bool" where
  "token_is_deterministic K \<longleftrightarrow>
     unwrap (encode_invite K (make_payload ONION 12345)) (\<lambda>t1.
     unwrap (encode_invite K (make_payload ONION 12345)) (\<lambda>t2. t1 = t2))"

definition different_nonce_different_token :: "crates \<Rightarrow> u64 \<Rightarrow> bool" where
  "different_nonce_different_token K ts \<longleftrightarrow>
     (let p1 = make_payload ONION ts; p2 = p1\<lparr>ip_nonce := (ip_nonce p1)[0 := 255]\<rparr> in
      unwrap (encode_invite K p1) (\<lambda>t1. unwrap (encode_invite K p2) (\<lambda>t2. t1 \<noteq> t2)))"

subsection \<open>Errors\<close>

definition decode_empty_string :: "crates \<Rightarrow> bool \<Rightarrow> u64 \<Rightarrow> bool" where
  "decode_empty_string K checks now' \<longleftrightarrow>
     returns (decode_invite K checks now' '''' None) (\<lambda>r. unwrap_err r is_invalid)"

definition decode_invalid_base58 :: "crates \<Rightarrow> bool \<Rightarrow> u64 \<Rightarrow> bool" where
  "decode_invalid_base58 K checks now' \<longleftrightarrow>
     returns (decode_invite K checks now' ''0OIl'' None) (\<lambda>r. unwrap_err r is_invalid)"

definition decode_garbage_too_short :: "crates \<Rightarrow> bool \<Rightarrow> u64 \<Rightarrow> bool" where
  "decode_garbage_too_short K checks now' \<longleftrightarrow> unwrap (encode_invite K (make_payload ONION 1)) (\<lambda>tiny.
     2 \<le> length tiny
   \<and> returns (decode_invite K checks now' (take 2 tiny) None) (\<lambda>r. unwrap_err r is_invalid))"

definition decode_non_onion_address :: "crates \<Rightarrow> u64 \<Rightarrow> bool" where
  "decode_non_onion_address K now \<longleftrightarrow> unwrap_err (encode_invite K
     ((make_payload ''example.com'' now)\<lparr>ip_nonce := replicate 16 0\<rparr>)) is_invalid"

definition decode_short_address :: "crates \<Rightarrow> u64 \<Rightarrow> bool" where
  "decode_short_address K now \<longleftrightarrow> unwrap_err (encode_invite K
     ((make_payload ''x.onion'' now)\<lparr>ip_nonce := replicate 16 0\<rparr>)) is_invalid"

subsection \<open>Expiry and clock skew\<close>

definition expired_invite :: "crates \<Rightarrow> bool \<Rightarrow> u64 \<Rightarrow> u64 \<Rightarrow> bool" where
  "expired_invite K checks now now' \<longleftrightarrow>
     encoded_then K checks now' (make_payload ONION (now - 600)) (Some 300) (\<lambda>r. unwrap_err r is_expired)"

definition ttl_zero_skips_expiry :: "crates \<Rightarrow> bool \<Rightarrow> u64 \<Rightarrow> u64 \<Rightarrow> bool" where
  "ttl_zero_skips_expiry K checks now now' \<longleftrightarrow>
     encoded_then K checks now' (make_payload ONION (now - 999999)) (Some 0) is_ok"

definition no_ttl_skips_expiry :: "crates \<Rightarrow> bool \<Rightarrow> u64 \<Rightarrow> u64 \<Rightarrow> bool" where
  "no_ttl_skips_expiry K checks now now' \<longleftrightarrow>
     encoded_then K checks now' (make_payload ONION (now - 999999)) None is_ok"

definition fresh_invite_with_ttl :: "crates \<Rightarrow> bool \<Rightarrow> u64 \<Rightarrow> u64 \<Rightarrow> bool" where
  "fresh_invite_with_ttl K checks now now' \<longleftrightarrow>
     encoded_then K checks now' (make_payload ONION now) (Some 600) is_ok"

definition future_beyond_skew_rejected :: "crates \<Rightarrow> bool \<Rightarrow> u64 \<Rightarrow> u64 \<Rightarrow> bool" where
  "future_beyond_skew_rejected K checks now now' \<longleftrightarrow>
     encoded_then K checks now' (make_payload ONION (now + 600)) None (\<lambda>r. unwrap_err r is_invalid)"

definition future_within_skew_accepted :: "crates \<Rightarrow> bool \<Rightarrow> u64 \<Rightarrow> u64 \<Rightarrow> bool" where
  "future_within_skew_accepted K checks now now' \<longleftrightarrow>
     encoded_then K checks now' (make_payload ONION (now + 60)) None is_ok"

section \<open>They pass\<close>

text \<open>A test takes less than a minute, and the clock is neither near its start nor near its end.\<close>

definition clock_ok :: "u64 \<Rightarrow> u64 \<Rightarrow> bool" where
  "clock_ok now now' \<longleftrightarrow> 999999 \<le> unat now \<and> unat now \<le> unat now' \<and> unat now' \<le> unat now + 60
     \<and> unat now' + 2000 < 2 ^ 64"

lemma payload_ok: "length n = 16 \<Longrightarrow> wf_invite ((make_payload ONION ts)\<lparr>ip_nonce := n\<rparr>)"
  using sample_address_ok
  by (simp add: wf_invite_def make_payload_def wf_nonce_def ONION_def sample_address_def)

lemma payload_fields [simp]:
  "ip_timestamp (make_payload a ts) = ts" "ip_onion_address (make_payload a ts) = a"
  "ip_nonce (make_payload a ts) = replicate 16 66" "ip_suggested_name (make_payload a ts) = None"
  "(make_payload a ts)\<lparr>ip_nonce := replicate 16 66\<rparr> = make_payload a ts"
  by (simp_all add: make_payload_def)

lemma encoded_then_exact:
  assumes K: "base58_ok K" "hex_ok K" and p: "wf_invite p" "ip_suggested_name p = None"
    and fit: "times_fit now' (ip_timestamp p) ttl"
  shows "encoded_then K checks now' p ttl k \<longleftrightarrow> k
    (if unat now' + 300 < unat (ip_timestamp p) then Inl (too_far_error (ip_timestamp p) now')
     else if (case ttl of None \<Rightarrow> False | Some t \<Rightarrow> t \<noteq> 0 \<and> unat (ip_timestamp p) + unat t < unat now')
     then Inl (InviteExpired (ip_timestamp p)) else Inr p)"
proof -
  obtain token where e: "encode_invite K p = Inr token" using encode_wf [OF p(1)] by blast
  have "normalise p = p" using p(2) by (simp add: normalise_id)
  with e show ?thesis
    using decode_encoded [OF K p(1) e] check_times_exact [of now' "normalise p" ttl checks] fit
    by (simp add: encoded_then_def returns_def split: option.split)
qed

lemma clock_sub: "clock_ok now now' \<Longrightarrow> k \<le> 999999 \<Longrightarrow> unat (now - word_of_nat k) = unat now - k"
  by (subst unat_sub) (auto simp: clock_ok_def word_le_nat_alt unat_of_nat take_bit_nat_eq_self)

lemma clock_add: "clock_ok now now' \<Longrightarrow> k \<le> 1000 \<Longrightarrow> unat (now + word_of_nat k) = unat now + k"
  by (simp add: clock_ok_def unat_word_ariths unat_of_nat)

lemma invite_roundtrips_pass:
  assumes K: "base58_ok K" "hex_ok K" and c: "clock_ok now now'"
  shows "roundtrip_basic K checks now now'" "roundtrip_zero_nonce K checks now now'"
    "roundtrip_ff_nonce K checks now now'" "fresh_invite_with_ttl K checks now now'"
    "1700000000 \<le> unat now \<Longrightarrow> roundtrip_past_timestamp K checks now'"
proof -
  note exact = encoded_then_exact [OF K payload_ok, of "replicate 16 66", simplified]
    encoded_then_exact [OF K payload_ok, of "replicate 16 0", simplified]
    encoded_then_exact [OF K payload_ok, of "replicate 16 255", simplified]
  show "roundtrip_basic K checks now now'" "roundtrip_zero_nonce K checks now now'"
    "roundtrip_ff_nonce K checks now now'" "fresh_invite_with_ttl K checks now now'"
    using c by (simp_all add: exact times_fit_def clock_ok_def roundtrip_basic_def Let_def
      roundtrip_zero_nonce_def roundtrip_ff_nonce_def fresh_invite_with_ttl_def)
  show "1700000000 \<le> unat now \<Longrightarrow> roundtrip_past_timestamp K checks now'"
    using c by (simp add: exact times_fit_def clock_ok_def roundtrip_past_timestamp_def)
qed

lemma times_pass:
  assumes K: "base58_ok K" "hex_ok K" and c: "clock_ok now now'"
  shows "expired_invite K checks now now'" "ttl_zero_skips_expiry K checks now now'"
    "no_ttl_skips_expiry K checks now now'" "future_beyond_skew_rejected K checks now now'"
    "future_within_skew_accepted K checks now now'"
proof -
  note exact = encoded_then_exact [OF K payload_ok, of "replicate 16 66", simplified]
  show "expired_invite K checks now now'" "ttl_zero_skips_expiry K checks now now'"
    "no_ttl_skips_expiry K checks now now'" "future_beyond_skew_rejected K checks now now'"
    "future_within_skew_accepted K checks now now'"
    using c clock_sub [OF c, of 600] clock_sub [OF c, of 999999] clock_add [OF c, of 600]
      clock_add [OF c, of 60]
    by (auto simp: exact times_fit_def clock_ok_def expired_invite_def ttl_zero_skips_expiry_def
      no_ttl_skips_expiry_def future_beyond_skew_rejected_def future_within_skew_accepted_def too_far_error_def)
qed

lemma parse_fields_short:
  assumes "length s < 62"
  shows "\<exists>msg. parse_fields K s = Inl (InvalidInvite msg)"
proof -
  have "length (splitn 4 (CHR '':'') s ! 0) \<le> length s"
    by (cases "split_once (CHR '':'') s")
       (auto simp: eval_nat_numeral dest!: split_once_Some split: option.split)
  then show ?thesis
    using assms by (auto simp: parse_fields_def validate_address_def Let_def)
qed

lemma tokens_pass:
  assumes K: "base58_ok K" "hex_ok K" "base58_strict K"
  shows "token_is_contiguous_no_whitespace K now" "token_is_deterministic K"
    "different_nonce_different_token K now" "decode_empty_string K checks now'"
    "decode_invalid_base58 K checks now'" "decode_garbage_too_short K checks now'"
    "decode_non_onion_address K now" "decode_short_address K now"
proof -
  have enc: "encode_invite K ((make_payload ONION ts)\<lparr>ip_nonce := n\<rparr>)
      = Inr (to_base58 K (as_bytes (invite_text K ((make_payload ONION ts)\<lparr>ip_nonce := n\<rparr>))))"
    if "length n = 16" for ts n
    using payload_ok [OF that] by (simp add: encode_invite_def wf_invite_def)
  note e = enc [of "replicate 16 66", simplified]
  have "set (to_base58 K bs) \<subseteq> set base58_alphabet" for bs using K(3) by (simp add: base58_strict_def)
  moreover have "CHR '' '' \<notin> set base58_alphabet" "CHR ''.'' \<notin> set base58_alphabet"
      "char_of (10 :: nat) \<notin> set base58_alphabet"
    by (code_simp, code_simp, code_simp)
  ultimately show "token_is_contiguous_no_whitespace K now"
    unfolding token_is_contiguous_no_whitespace_def e unwrap_simps by blast
  show "token_is_deterministic K" by (simp add: token_is_deterministic_def e)
  have "(replicate 16 (66 :: u8))[0 := 255] ! 0 \<noteq> replicate 16 66 ! 0" by simp
  then have "replicate 16 (66 :: u8) \<noteq> (replicate 16 66)[0 := 255]" by metis
  then show "different_nonce_different_token K now"
    using K(1,2) by (simp add: different_nonce_different_token_def Let_def e enc base58_inject
      invite_text_def hex_inject)
  show "decode_empty_string K checks now'"
    by (simp add: decode_empty_string_def decode_invite_def returns_def)
  have "\<not> set ''0OIl'' \<subseteq> set base58_alphabet" by code_simp
  then obtain x where "from_base58 K ''0OIl'' = Inl x"
    using K(3) unfolding base58_strict_def by (cases "from_base58 K ''0OIl''") blast+
  then show "decode_invalid_base58 K checks now'"
    by (simp add: decode_invalid_base58_def decode_invite_def returns_def)
  let ?t = "to_base58 K (as_bytes (invite_text K (make_payload ONION 1)))"
  have "length (as_bytes (invite_text K (make_payload ONION 1))) \<le> length ?t"
    using K(1,3) base58_inverse unfolding base58_strict_def by blast
  then have "2 \<le> length ?t" by (simp add: invite_text_def ONION_def)
  moreover have "returns (decode_invite K checks now' s None) (\<lambda>r. unwrap_err r is_invalid)"
    if s: "length s \<le> 2" for s
  proof (cases "from_base58 K s")
    case (Inl x)
    then show ?thesis by (simp add: decode_invite_def returns_def)
  next
    case (Inr bs)
    then have "length bs \<le> 2" using K(3) s unfolding base58_strict_def by fastforce
    then show ?thesis
      using Inr parse_fields_short [of "str_of_bytes bs" K]
      by (auto simp: decode_invite_def returns_def from_utf8_def str_of_bytes_def)
  qed
  ultimately show "decode_garbage_too_short K checks now'"
    by (simp add: decode_garbage_too_short_def e)
  show "decode_non_onion_address K now"
    by (simp add: decode_non_onion_address_def encode_invite_def validate_address_def ends_with_def)
  show "decode_short_address K now"
    by (simp add: decode_short_address_def encode_invite_def validate_address_def ends_with_def)
qed

end
