(* ===== verification/Hub_Tests.thy ===== *)
theory Hub_Tests
  imports Hub Wire_Tests
begin

text \<open>
  The unit tests of \<open>crates/core/src/hub.rs\<close>: the registry, the handshake, registration, the reader
  and the writer task. A \<open>duplex\<close> stream whose other end has sent some bytes is \<open>mem_net\<close>, a
  channel is its number and what it was sent is read off the log. The tests of constants and of
  Rust's hash set are left out, and so are those that only call a function and assert nothing,
  unless the call could fail to return.
\<close>

section \<open>The registry\<close>

text \<open>What the receiver of channel \<open>tx\<close> gets.\<close>

fun received_on :: "nat \<Rightarrow> chan_msg list \<Rightarrow> bytes list" where
  "received_on tx [] = []"
| "received_on tx (ToWriter t f # xs) = (if t = tx then f # received_on tx xs else received_on tx xs)"
| "received_on tx (x # xs) = received_on tx xs"

definition peer_registry_len_starts_at_zero :: bool where
  "peer_registry_len_starts_at_zero \<longleftrightarrow> registry_len registry_new = 0"

definition peer_registry_register_increments_len :: "nat \<Rightarrow> nat \<Rightarrow> bool" where
  "peer_registry_register_increments_len now tx \<longleftrightarrow>
     registry_len (registry_register (PeerId ''alice'') ''alice'' tx now registry_new) = 1"

definition peer_registry_register_multiple_peers :: "nat \<Rightarrow> nat \<Rightarrow> nat \<Rightarrow> bool" where
  "peer_registry_register_multiple_peers now tx1 tx2 \<longleftrightarrow>
     (let reg = registry_register (PeerId ''a'') ''alice'' tx1 now registry_new;
          reg = registry_register (PeerId ''b'') ''bob'' tx2 now reg
      in registry_len reg = 2)"

definition peer_registry_register_same_id_twice_overwrites :: "nat \<Rightarrow> nat \<Rightarrow> nat \<Rightarrow> bool" where
  "peer_registry_register_same_id_twice_overwrites now tx1 tx2 \<longleftrightarrow>
     (let reg = registry_register (PeerId ''alice'') ''alice'' tx1 now registry_new;
          reg = registry_register (PeerId ''alice'') ''alice2'' tx2 now reg
      in registry_len reg = 1)"

definition peer_registry_deregister_decrements_len :: "nat \<Rightarrow> nat \<Rightarrow> bool" where
  "peer_registry_deregister_decrements_len now tx \<longleftrightarrow>
     (let reg = registry_register (PeerId ''alice'') ''alice'' tx now registry_new;
          reg = registry_deregister (PeerId ''alice'') reg
      in registry_len reg = 0)"

definition peer_registry_deregister_unknown_is_noop :: "nat \<Rightarrow> nat \<Rightarrow> bool" where
  "peer_registry_deregister_unknown_is_noop now tx \<longleftrightarrow>
     (let reg = registry_register (PeerId ''alice'') ''alice'' tx now registry_new;
          reg = registry_deregister (PeerId ''ghost'') reg
      in registry_len reg = 1)"

definition peer_registry_deregister_empty_registry_no_panic :: bool where
  "peer_registry_deregister_empty_registry_no_panic \<longleftrightarrow>
     registry_len (registry_deregister (PeerId ''ghost'') registry_new) = 0"

definition peer_registry_snapshot_returns_all_peers :: "nat \<Rightarrow> nat \<Rightarrow> nat \<Rightarrow> bool" where
  "peer_registry_snapshot_returns_all_peers now tx1 tx2 \<longleftrightarrow>
     (let reg = registry_register (PeerId ''a'') ''alice'' tx1 now registry_new;
          reg = registry_register (PeerId ''b'') ''bob'' tx2 now reg;
          snap = registry_snapshot reg
      in length snap = 2
       \<and> sort (map pi_id snap) = [PeerId ''a'', PeerId ''b'']
       \<and> sort (map (PeerId \<circ> pi_name) snap) = [PeerId ''alice'', PeerId ''bob''])"

definition peer_registry_snapshot_empty_registry :: bool where
  "peer_registry_snapshot_empty_registry \<longleftrightarrow> registry_snapshot registry_new = []"

definition peer_registry_broadcast_to_all_delivers_to_each_peer :: "net \<Rightarrow> nat \<Rightarrow> nat \<Rightarrow> nat \<Rightarrow> bool" where
  "peer_registry_broadcast_to_all_delivers_to_each_peer N now tx1 tx2 \<longleftrightarrow>
     (let reg = registry_register (PeerId ''a'') ''alice'' tx1 now registry_new;
          reg = registry_register (PeerId ''b'') ''bob'' tx2 now reg;
          frame = as_bytes ''hello everyone'';
          got = accepted (broadcast_to_all N frame reg [])
      in received_on tx1 got = [frame] \<and> received_on tx2 got = [frame])"

definition peer_registry_broadcast_skips_deregistered_peers :: "net \<Rightarrow> nat \<Rightarrow> nat \<Rightarrow> nat \<Rightarrow> bool" where
  "peer_registry_broadcast_skips_deregistered_peers N now tx1 tx2 \<longleftrightarrow>
     (let reg = registry_register (PeerId ''a'') ''alice'' tx1 now registry_new;
          reg = registry_register (PeerId ''b'') ''bob'' tx2 now reg;
          reg = registry_deregister (PeerId ''b'') reg;
          frame = as_bytes ''only for alice''
      in received_on tx1 (accepted (broadcast_to_all N frame reg [])) = [frame])"

definition peer_registry_register_and_deregister_toggle :: "nat \<Rightarrow> nat \<Rightarrow> bool" where
  "peer_registry_register_and_deregister_toggle now tx \<longleftrightarrow>
     (let reg = registry_register (PeerId ''x'') ''x'' tx now registry_new;
          reg' = registry_deregister (PeerId ''x'') reg;
          reg'' = registry_register (PeerId ''x'') ''x'' tx now reg'
      in registry_len reg = 1 \<and> registry_len reg' = 0 \<and> registry_len reg'' = 1)"

text \<open>\<open>now\<close> is the clock's reading inside \<open>register\<close>, between \<open>before\<close> and \<open>after\<close>.\<close>

definition peer_registry_snapshot_includes_joined_at :: "nat \<Rightarrow> nat \<Rightarrow> nat \<Rightarrow> nat \<Rightarrow> bool" where
  "peer_registry_snapshot_includes_joined_at before now after tx \<longleftrightarrow>
     (let snap = registry_snapshot (registry_register (PeerId ''alice'') ''alice'' tx now registry_new)
      in length snap = 1 \<and> before \<le> pi_joined_at (snap ! 0) \<and> pi_joined_at (snap ! 0) \<le> after)"

section \<open>The handshake\<close>

definition test_nonce :: nonce where
  "test_nonce = replicate 16 66"

definition test_disc :: bytes where
  "test_disc = replicate 16 171"

definition handshake_accepts_valid_nonce :: "crates \<Rightarrow> bool" where
  "handshake_accepts_valid_nonce K \<longleftrightarrow>
     (case legacy_handshake K (mem_net (test_nonce @ test_disc)) {} [] of (result, used, h) \<Rightarrow>
        ready_then result (\<lambda>(peer_id, name).
          peer_id = PeerId (to_base58 K test_disc)
        \<and> name = ''peer-'' @ hex_encode K (take 4 test_disc)))"

definition handshake_rejects_reused_nonce :: "crates \<Rightarrow> bool" where
  "handshake_rejects_reused_nonce K \<longleftrightarrow>
     (case legacy_handshake K (mem_net (test_nonce @ test_disc)) {test_nonce} [] of (result, used, h) \<Rightarrow>
        result = Ready (Inl NonceReused))"

definition handshake_rejects_wrong_length :: "crates \<Rightarrow> bool" where
  "handshake_rejects_wrong_length K \<longleftrightarrow>
     (case legacy_handshake K (mem_net (replicate 16 0)) {} [] of (result, used, h) \<Rightarrow>
        (\<exists>e. result = Ready (Inl e)))"

definition handshake_nonce_is_consumed_on_success :: "crates \<Rightarrow> bool" where
  "handshake_nonce_is_consumed_on_success K \<longleftrightarrow>
     (case legacy_handshake K (mem_net (replicate 16 0 @ test_disc)) {} [] of (result, used, h) \<Rightarrow>
        ready_then result (\<lambda>x. replicate 16 0 \<in> used))"

definition handshake_writes_ack_on_success :: "crates \<Rightarrow> bool" where
  "handshake_writes_ack_on_success K \<longleftrightarrow>
     (case legacy_handshake K (mem_net (replicate 16 0 @ test_disc)) {} [] of (result, used, h) \<Rightarrow>
        ready_then result (\<lambda>x. take 1 (written h) = [0]))"

definition handshake_writes_nack_on_rejected_nonce :: "crates \<Rightarrow> bool" where
  "handshake_writes_nack_on_rejected_nonce K \<longleftrightarrow>
     (case legacy_handshake K (mem_net (test_nonce @ test_disc)) {test_nonce} [] of (result, used, h) \<Rightarrow>
        take 1 (written h) = [1])"

definition handshake_writes_nack_on_bad_length :: "crates \<Rightarrow> bool" where
  "handshake_writes_nack_on_bad_length K \<longleftrightarrow>
     (case legacy_handshake K (mem_net (replicate 16 0)) {} [] of (result, used, h) \<Rightarrow>
        take 1 (written h) = [1])"

section \<open>Registration\<close>

fun broadcasts_of :: "chan_msg list \<Rightarrow> chat_event list" where
  "broadcasts_of [] = []"
| "broadcasts_of (ToBroadcast e # xs) = e # broadcasts_of xs"
| "broadcasts_of (x # xs) = broadcasts_of xs"

definition register_peer_adds_to_registry :: "net \<Rightarrow> nat \<Rightarrow> nat \<Rightarrow> nat \<Rightarrow> bool" where
  "register_peer_adds_to_registry N tx now now' \<longleftrightarrow>
     (case register_peer N tx now now' (PeerId ''alice'') ''alice'' registry_new [] of (reg, h) \<Rightarrow>
        registry_len reg = 1)"

definition register_peer_emits_peer_join_event :: "net \<Rightarrow> nat \<Rightarrow> nat \<Rightarrow> nat \<Rightarrow> bool" where
  "register_peer_emits_peer_join_event N tx now now' \<longleftrightarrow>
     (case register_peer N tx now now' (PeerId ''bob'') ''bob'' registry_new [] of (reg, h) \<Rightarrow>
        (case broadcasts_of (accepted h) of
           PeerJoin info # evs \<Rightarrow> pi_id info = PeerId ''bob'' \<and> pi_name info = ''bob''
         | _ \<Rightarrow> False))"

definition deregister_peer_removes_from_registry :: "net \<Rightarrow> nat \<Rightarrow> nat \<Rightarrow> nat \<Rightarrow> bool" where
  "deregister_peer_removes_from_registry N tx now now' \<longleftrightarrow>
     (case register_peer N tx now now' (PeerId ''alice'') ''alice'' registry_new [] of (reg, h) \<Rightarrow>
        registry_len reg = 1
      \<and> (case deregister_peer N (PeerId ''alice'') ''alice'' reg h of (done, reg', h') \<Rightarrow>
           done \<and> registry_len reg' = 0))"

definition deregister_peer_emits_peer_leave_event :: "net \<Rightarrow> nat \<Rightarrow> nat \<Rightarrow> nat \<Rightarrow> bool" where
  "deregister_peer_emits_peer_leave_event N tx now now' \<longleftrightarrow>
     (case register_peer N tx now now' (PeerId ''carol'') ''carol'' registry_new [] of (reg, h) \<Rightarrow>
        (case deregister_peer N (PeerId ''carol'') ''carol'' reg h of (done, reg', h') \<Rightarrow>
           done \<and> (case broadcasts_of (accepted h') of
             e1 # e2 # evs \<Rightarrow> e2 = PeerLeave (PeerId ''carol'') | _ \<Rightarrow> False)))"

definition deregister_peer_deregistering_unknown_is_noop :: "net \<Rightarrow> bool" where
  "deregister_peer_deregistering_unknown_is_noop N \<longleftrightarrow>
     (case deregister_peer N (PeerId ''ghost'') ''ghost'' registry_new [] of (done, reg, h) \<Rightarrow>
        done \<and> registry_len reg = 0)"

section \<open>The reader and the writer\<close>

text \<open>A reader on a stream that holds \<open>bs\<close>; \<open>fuel\<close> is the number of frames it may read.\<close>

definition run_reader :: "crates \<Rightarrow> nat \<Rightarrow> nat \<Rightarrow> bytes \<Rightarrow> (log \<Rightarrow> bool) \<Rightarrow> bool" where
  "run_reader K writer_tx fuel bs k \<longleftrightarrow>
     (case reader_task (PeerId ''p'') ''alice'' writer_tx K (mem_net bs) fuel [] of
        Some (Ended, h) \<Rightarrow> k h | _ \<Rightarrow> False)"

definition reader_task_forwards_chat_message :: "crates \<Rightarrow> nat \<Rightarrow> bool" where
  "reader_task_forwards_chat_message K writer_tx \<longleftrightarrow>
     unwrap (encode_message K (wire_chat ''alice'' ''hello'')) (\<lambda>frame.
       run_reader K writer_tx 2 frame (\<lambda>h. case accepted h of
         ToMsg peer_id wire_msg # xs \<Rightarrow> peer_id = PeerId ''p'' \<and> wm_kind wire_msg = Chat
           \<and> wm_name wire_msg = ''alice'' \<and> wm_text wire_msg = ''hello''
       | _ \<Rightarrow> False))"

definition reader_task_responds_to_ping_with_pong :: "crates \<Rightarrow> nat \<Rightarrow> bool" where
  "reader_task_responds_to_ping_with_pong K writer_tx \<longleftrightarrow>
     unwrap (encode_message K wire_ping) (\<lambda>frame.
       run_reader K writer_tx 2 frame (\<lambda>h. case received_on writer_tx (accepted h) of
         pong_frame # fs \<Rightarrow> unwrap (decode_message K pong_frame) (\<lambda>pong. wm_kind pong = Pong)
       | _ \<Rightarrow> False))"

definition reader_task_handles_eof_gracefully :: "crates \<Rightarrow> nat \<Rightarrow> bool" where
  "reader_task_handles_eof_gracefully K writer_tx \<longleftrightarrow> run_reader K writer_tx 1 [] (\<lambda>h. True)"

definition reader_task_stops_on_malformed_data :: "crates \<Rightarrow> nat \<Rightarrow> bool" where
  "reader_task_stops_on_malformed_data K writer_tx \<longleftrightarrow>
     run_reader K writer_tx 1 (as_bytes ''not-a-frame'') (\<lambda>h. True)"

text \<open>
  The writer's tests send before the task starts and drop senders, so that every pass finds the
  channels the same way.
\<close>

definition run_writer :: "crates \<Rightarrow> bytes list \<Rightarrow> bcast list \<Rightarrow> bool \<Rightarrow> bool \<Rightarrow> (bytes \<Rightarrow> bool) \<Rightarrow> bool" where
  "run_writer K frames evs tx_gone bcast_gone k \<longleftrightarrow>
     (let p = \<lparr>wp_frames = [], wp_events = [], wp_tx_gone = tx_gone, wp_bcast_gone = bcast_gone\<rparr> in
      case writer_task K (mem_net []) [p\<lparr>wp_frames := frames, wp_events := evs\<rparr>, p]
             \<lparr>ws_rx = [], ws_bc = [], ws_log = []\<rparr> of (done, s) \<Rightarrow> done \<and> k (written (ws_log s)))"

definition writer_task_writes_from_direct_channel :: "crates \<Rightarrow> bool" where
  "writer_task_writes_from_direct_channel K \<longleftrightarrow>
     unwrap (encode_message K (wire_chat ''alice'' ''hi'')) (\<lambda>frame.
       run_writer K [frame] [] True False (\<lambda>buf. buf = frame))"

definition writer_task_writes_from_broadcast_channel :: "crates \<Rightarrow> bool" where
  "writer_task_writes_from_broadcast_channel K \<longleftrightarrow>
     unwrap (encode_message K (wire_chat ''bob'' ''hey'')) (\<lambda>frame.
       run_writer K [] [Event (Message (PeerId ''b'') ''bob'' ''hey'')] False True (\<lambda>buf. buf = frame))"

definition writer_task_exits_when_all_channels_closed :: "crates \<Rightarrow> bool" where
  "writer_task_exits_when_all_channels_closed K \<longleftrightarrow> run_writer K [] [] True True (\<lambda>buf. True)"

section \<open>They pass\<close>

lemmas registry_defs = registry_len_def registry_register_def registry_deregister_def registry_new_def
  registry_snapshot_def Let_def

lemma names_ordered: "PeerId ''a'' \<le> PeerId ''b''" "PeerId ''alice'' \<le> PeerId ''bob''"
  by (code_simp, code_simp)

lemma registry_tests_pass:
  "peer_registry_len_starts_at_zero" "peer_registry_register_increments_len now tx"
  "peer_registry_register_multiple_peers now tx1 tx2"
  "peer_registry_register_same_id_twice_overwrites now tx1 tx2"
  "peer_registry_deregister_decrements_len now tx" "peer_registry_deregister_unknown_is_noop now tx"
  "peer_registry_deregister_empty_registry_no_panic"
  "peer_registry_snapshot_returns_all_peers now tx1 tx2" "peer_registry_snapshot_empty_registry"
  "peer_registry_register_and_deregister_toggle now tx"
  "before \<le> now \<Longrightarrow> now \<le> after \<Longrightarrow> peer_registry_snapshot_includes_joined_at before now after tx"
  by (simp_all add: registry_defs names_ordered peer_registry_len_starts_at_zero_def
    peer_registry_register_increments_len_def peer_registry_register_multiple_peers_def
    peer_registry_register_same_id_twice_overwrites_def peer_registry_deregister_decrements_len_def
    peer_registry_deregister_unknown_is_noop_def peer_registry_deregister_empty_registry_no_panic_def
    peer_registry_snapshot_returns_all_peers_def peer_registry_snapshot_empty_registry_def
    peer_registry_register_and_deregister_toggle_def peer_registry_snapshot_includes_joined_at_def)

lemma registry_broadcasts_pass:
  assumes "sends_succeed N" and "tx1 \<noteq> tx2"
  shows "peer_registry_broadcast_to_all_delivers_to_each_peer N now tx1 tx2"
    "peer_registry_broadcast_skips_deregistered_peers N now tx1 tx2"
  using assms
  by (simp_all add: registry_defs peer_registry_broadcast_to_all_delivers_to_each_peer_def
    peer_registry_broadcast_skips_deregistered_peers_def try_send_def sends_succeed_def)

lemma mem_hello:
  assumes "length bs = 32"
  shows "read_hello (mem_net bs) [] [] = (Hello bs, [ReadSome 32 (Ready (Inr bs))])"
  using assms
  by (subst read_hello.simps, subst read_hello.simps)
     (auto simp: read_some_def mem_net_def HANDSHAKE_LEN_def Let_def)

lemma mem_hello_short:
  "read_hello (mem_net (replicate 16 0)) [] [] = (HelloEof,
     [ReadSome 32 (Ready (Inr (replicate 16 0))), ReadSome 16 (Ready (Inr []))])"
  by (subst read_hello.simps, subst read_hello.simps)
     (simp add: read_some_def mem_net_def HANDSHAKE_LEN_def Let_def)

lemma mem_ack: "send_ack (mem_net bs) h = (Inr (), h @ [WriteAll [0] (Ready (Inr ())), Flush (Ready (Inr ()))])"
  by (simp add: send_ack_def write_flush_succeeds)

lemma mem_write: "write_all (mem_net bs) w h = (Ready (Inr ()), h @ [WriteAll w (Ready (Inr ()))])"
  by (simp add: write_all_def mem_net_def Let_def)

lemma handshake_tests_pass:
  "handshake_accepts_valid_nonce K" "handshake_rejects_reused_nonce K"
  "handshake_rejects_wrong_length K" "handshake_nonce_is_consumed_on_success K"
  "handshake_writes_ack_on_success K" "handshake_writes_nack_on_rejected_nonce K"
  "handshake_writes_nack_on_bad_length K"
  by (simp_all add: handshake_accepts_valid_nonce_def handshake_rejects_reused_nonce_def
    handshake_rejects_wrong_length_def handshake_nonce_is_consumed_on_success_def
    handshake_writes_ack_on_success_def handshake_writes_nack_on_rejected_nonce_def
    handshake_writes_nack_on_bad_length_def legacy_handshake_def mem_hello mem_hello_short mem_ack
    test_nonce_def test_disc_def claim_nonce_def reject_def mem_write Let_def)

lemma registration_tests_pass:
  assumes "sends_succeed N"
  shows "register_peer_adds_to_registry N tx now now'" "register_peer_emits_peer_join_event N tx now now'"
    "deregister_peer_removes_from_registry N tx now now'"
    "deregister_peer_emits_peer_leave_event N tx now now'"
    "deregister_peer_deregistering_unknown_is_noop N"
  using assms
  by (simp_all add: register_peer_adds_to_registry_def register_peer_emits_peer_join_event_def
    deregister_peer_removes_from_registry_def deregister_peer_emits_peer_leave_event_def
    deregister_peer_deregistering_unknown_is_noop_def register_peer_def deregister_peer_def
    registry_defs try_send_def send_await_def sends_succeed_def)

lemma reader_tests_pass:
  assumes K: "json_ok K" "json_sized K"
  shows "reader_task_forwards_chat_message K tx" "reader_task_responds_to_ping_with_pong K tx"
    "reader_task_handles_eof_gracefully K tx" "reader_task_stops_on_malformed_data K tx"
proof -
  have run: "\<exists>h. reader_task (PeerId ''p'') ''alice'' tx K (mem_net f) 2 [] = Some (Ended, h)
      \<and> accepted h = reader_out (PeerId ''p'') ''alice'' tx K m"
    if "wf_wire m" "encode_message K m = Inr f" for m f
    using hub_reader.loop_delivers [OF K(1), of "mem_net f" "[m]" "[f]" 2] that
    by (simp add: reader_task_def) metis
  have chat: "wf_wire (wire_chat ''alice'' ''hello'')" by (simp add: ascii_is_utf8)
  obtain f where f: "encode_message K (wire_chat ''alice'' ''hello'') = Inr f"
    using small_encodes [OF K chat] by auto
  from run [OF chat this] show "reader_task_forwards_chat_message K tx"
    by (auto simp: reader_task_forwards_chat_message_def run_reader_def f reader_out_def)
  have small: "length (wm_name wire_ping) + length (wm_text wire_ping) \<le> 2700"
    "length (wm_name wire_pong) + length (wm_text wire_pong) \<le> 2700"
    by (simp_all add: wire_ping_def wire_pong_def)
  obtain g where g: "encode_message K wire_ping = Inr g"
    using small_encodes [OF K wf_wire_simps(3) small(1)] .
  obtain v where v: "encode_message K wire_pong = Inr (frame_of v)"
      "decode_message K (frame_of v) = Inr wire_pong"
    using small_encodes [OF K wf_wire_simps(4) small(2)] by metis
  from run [OF wf_wire_simps(3) g] v show "reader_task_responds_to_ping_with_pong K tx"
    by (auto simp: reader_task_responds_to_ping_with_pong_def run_reader_def g reader_out_def)
  show "reader_task_handles_eof_gracefully K tx"
    by (simp add: reader_task_handles_eof_gracefully_def run_reader_def reader_task_def read_frame_def
      read_exact_def mem_net_def Let_def)
  have header: "take 4 (as_bytes ''not-a-frame'') = [110, 111, 116, 45]" by (simp add: eval_nat_numeral)
  have "run_reader K tx 1 bs (\<lambda>h. True)"
    if "4 \<le> length bs" "MAX_PAYLOAD_BYTES < unat (from_be_bytes (take 4 bs))" for bs
    using that by (simp add: run_reader_def reader_task_def read_frame_def read_exact_def mem_net_def Let_def)
  moreover have "4 \<le> length (as_bytes ''not-a-frame'')"
      "MAX_PAYLOAD_BYTES < unat (from_be_bytes (take 4 (as_bytes ''not-a-frame'')))"
    by (simp, simp add: header MAX_PAYLOAD_BYTES_def)
  ultimately show "reader_task_stops_on_malformed_data K tx"
    unfolding reader_task_stops_on_malformed_data_def by blast
qed

lemma writer_tests_pass:
  assumes K: "json_ok K" "json_sized K"
  shows "writer_task_writes_from_direct_channel K" "writer_task_writes_from_broadcast_channel K"
    "writer_task_exits_when_all_channels_closed K"
proof -
  have wf: "wf_wire (wire_chat ''alice'' ''hi'')" "wf_wire (wire_chat ''bob'' ''hey'')"
    by (simp_all add: ascii_is_utf8)
  obtain f where f: "encode_message K (wire_chat ''alice'' ''hi'') = Inr f"
    using small_encodes [OF K wf(1)] by auto
  obtain g where "encode_message K (wire_chat ''bob'' ''hey'') = Inr g"
    using small_encodes [OF K wf(2)] by auto
  with f show "writer_task_writes_from_direct_channel K" "writer_task_writes_from_broadcast_channel K"
    by (simp_all add: writer_task_writes_from_direct_channel_def
      writer_task_writes_from_broadcast_channel_def run_writer_def writer_step_def
      write_unless_late_def mem_write bcast_message_def Let_def)
  show "writer_task_exits_when_all_channels_closed K"
    by (simp add: writer_task_exits_when_all_channels_closed_def run_writer_def writer_step_def Let_def)
qed

end
