(* ===== verification/Joiner_Tests.thy ===== *)
theory Joiner_Tests
  imports Joiner Room_Host Invite_Tests
begin

text \<open>
  The unit tests of \<open>crates/core/src/joiner.rs\<close>. The random discriminator is an argument. The tests
  of \<open>run\<close> spawn it and send to it meanwhile: they are stated for every list of polls that such a
  test can give it, that is for every interleaving. Sleeps and the timeouts of \<open>drain\<close> are left out.
\<close>

section \<open>Closing\<close>

definition make_joiner :: "unit joiner" where
  "make_joiner = \<lparr>j_stream = None, j_peer_id = PeerId ''test'', j_name = ''test''\<rparr>"

definition close_is_idempotent :: bool where
  "close_is_idempotent \<longleftrightarrow> j_stream (joiner_close (joiner_close make_joiner)) = None"

section \<open>The handshake\<close>

text \<open>
  \<open>simulate_hub\<close>: the joiner reads the answer byte; of what the joiner has written, the hub reads
  32 bytes and, if it accepts, the frame of the name.
\<close>

definition simulate_hub :: "u8 \<Rightarrow> bytes \<Rightarrow> bool" where
  "simulate_hub accept_byte w \<longleftrightarrow> 32 \<le> length w
     \<and> (accept_byte = 0 \<longrightarrow>
          (let len = unat (from_be_bytes (take 4 (drop 32 w))) in
           36 + len \<le> length w \<and> len < 65536))"

definition handshake_accept_returns_peer_id :: "crates \<Rightarrow> bytes \<Rightarrow> bool" where
  "handshake_accept_returns_peer_id K disc \<longleftrightarrow>
     (case joiner_handshake K (mem_net [0]) ''alice'' (replicate 16 0) disc [] of (result, h) \<Rightarrow>
        simulate_hub 0 (written h) \<and> unwrap result (\<lambda>peer_id. display_peer_id peer_id \<noteq> []))"

definition handshake_reject_returns_error :: "crates \<Rightarrow> bytes \<Rightarrow> bool" where
  "handshake_reject_returns_error K disc \<longleftrightarrow>
     (case joiner_handshake K (mem_net [1]) ''alice'' (replicate 16 0) disc [] of (result, h) \<Rightarrow>
        simulate_hub 1 (written h)
      \<and> unwrap_err result (\<lambda>e. sublist ''rejected'' (display_chat_error e)))"

definition expected_nonce :: nonce where
  "expected_nonce = [17, 34, 51, 68] @ replicate 12 0"

definition handshake_sends_provided_nonce_on_wire :: "crates \<Rightarrow> bytes \<Rightarrow> bool" where
  "handshake_sends_provided_nonce_on_wire K disc \<longleftrightarrow>
     (case joiner_handshake K (mem_net [0]) ''test'' expected_nonce disc [] of (result, h) \<Rightarrow>
        is_ok result \<and> simulate_hub 0 (written h) \<and> take 16 (written h) = expected_nonce)"

text \<open>Two connections with the nonce of one invite, and a hub that keeps the set of used nonces.\<close>

definition handshake_invite_nonce_enables_duplicate_detection :: "crates \<Rightarrow> bytes \<Rightarrow> bytes \<Rightarrow> bool" where
  "handshake_invite_nonce_enables_duplicate_detection K disc1 disc2 \<longleftrightarrow>
     (let invite_nonce = replicate 16 66; nonces = {} in
      case joiner_handshake K (mem_net [0]) ''alice'' invite_nonce disc1 [] of (r1, h1) \<Rightarrow>
        (let seen1 = take 16 (written h1); nonces1 = insert seen1 nonces in
         simulate_hub 0 (written h1) \<and> seen1 = invite_nonce \<and> seen1 \<notin> nonces \<and> is_ok r1
       \<and> (case joiner_handshake K (mem_net [1]) ''alice'' invite_nonce disc2 [] of (r2, h2) \<Rightarrow>
            (let seen2 = take 16 (written h2) in
             simulate_hub 1 (written h2) \<and> seen2 = invite_nonce \<and> seen2 \<in> nonces1 \<and> is_err r2))))"

section \<open>Connecting\<close>

text \<open>A call of \<open>connect\<close> with a mock connector: its result and the connector afterwards.\<close>

definition connect_mock :: "crates \<Rightarrow> bool \<Rightarrow> u64 \<Rightarrow> bytes \<Rightarrow> unit mock_connector \<Rightarrow> string
    \<Rightarrow> (chat_error + unit joiner \<Rightarrow> unit mock_connector \<Rightarrow> bool) \<Rightarrow> bool" where
  "connect_mock K checks now disc mock code k \<longleftrightarrow>
     (case joiner_connect K (\<lambda>_. mem_net []) mock_connect checks now disc mock code ''alice'' of
        None \<Rightarrow> False | Some (result, mock', h) \<Rightarrow> k result mock')"

definition rejected_uncalled :: "chat_error + unit joiner \<Rightarrow> unit mock_connector \<Rightarrow> bool" where
  "rejected_uncalled result mock \<longleftrightarrow> is_err result \<and> mock_call_count mock = 0"

definition connect_rejects_empty_invite :: "crates \<Rightarrow> bool \<Rightarrow> u64 \<Rightarrow> bytes \<Rightarrow> bool" where
  "connect_rejects_empty_invite K checks now disc \<longleftrightarrow>
     connect_mock K checks now disc mock_new '''' rejected_uncalled"

definition connect_rejects_garbage_invite :: "crates \<Rightarrow> bool \<Rightarrow> u64 \<Rightarrow> bytes \<Rightarrow> bool" where
  "connect_rejects_garbage_invite K checks now disc \<longleftrightarrow>
     connect_mock K checks now disc mock_new ''!!!not-base58!!!'' rejected_uncalled"

definition connect_rejects_truncated_invite :: "crates \<Rightarrow> bool \<Rightarrow> u64 \<Rightarrow> bytes \<Rightarrow> bool" where
  "connect_rejects_truncated_invite K checks now disc \<longleftrightarrow>
     connect_mock K checks now disc mock_new ''abc'' rejected_uncalled"

definition connect_rejects_expired_invite :: "crates \<Rightarrow> bool \<Rightarrow> u64 \<Rightarrow> bytes \<Rightarrow> bool" where
  "connect_rejects_expired_invite K checks now disc \<longleftrightarrow>
     unwrap (encode_invite K (make_payload ONION 1700000000)) (\<lambda>code.
       connect_mock K checks now disc mock_new code rejected_uncalled)"

definition connect_rejects_invite_with_bad_onion_address :: "crates \<Rightarrow> bool \<Rightarrow> u64 \<Rightarrow> bytes \<Rightarrow> bool" where
  "connect_rejects_invite_with_bad_onion_address K checks now disc \<longleftrightarrow>
     (let raw = ''short.onion:00000000000000000000000000000000:1700000000'' in
      connect_mock K checks now disc mock_new (to_base58 K (as_bytes raw)) rejected_uncalled)"

text \<open>The clock is read when the code is made (\<open>now\<close>) and when it is decoded (\<open>now'\<close>).\<close>

definition connect_calls_tor_with_correct_target :: "crates \<Rightarrow> bool \<Rightarrow> u64 \<Rightarrow> u64 \<Rightarrow> bytes \<Rightarrow> bool" where
  "connect_calls_tor_with_correct_target K checks now now' disc \<longleftrightarrow>
     unwrap (encode_invite K ((make_payload ONION now)\<lparr>ip_nonce := replicate 16 171\<rparr>)) (\<lambda>code.
       connect_mock K checks now' disc mock_new code (\<lambda>result mock.
         mock_call_count mock = 1 \<and> mock_last_target mock = Some (ONION, 80)))"

definition connect_propagates_tor_error :: "crates \<Rightarrow> bool \<Rightarrow> u64 \<Rightarrow> u64 \<Rightarrow> bytes \<Rightarrow> bool" where
  "connect_propagates_tor_error K checks now now' disc \<longleftrightarrow>
     unwrap (encode_invite K ((make_payload ONION now)\<lparr>ip_nonce := replicate 16 171\<rparr>)) (\<lambda>code.
       connect_mock K checks now' disc (mock_with_result (Inl (Connection ''network down''))) code
         (\<lambda>result mock. is_err result))"

section \<open>Running\<close>

text \<open>\<open>run\<close> without a stream: its result and the events that it sent.\<close>

definition run_joiner :: "crates \<Rightarrow> net \<Rightarrow> poll list \<Rightarrow> unit joiner
    \<Rightarrow> (chat_error + unit \<Rightarrow> chat_event list \<Rightarrow> bool) \<Rightarrow> bool" where
  "run_joiner K N polls j k \<longleftrightarrow>
     (case joiner_run K (\<lambda>_. N) N polls 0 j of
        (None, s, rd, j') \<Rightarrow> False
      | (Some result, s, rd, j') \<Rightarrow> k result (events_of (accepted (ls_log s))))"

fun message_text :: "chat_event \<Rightarrow> string list" where
  "message_text (Message pid name txt) = [txt]"
| "message_text ev = []"

definition message_texts :: "chat_event list \<Rightarrow> string list" where
  "message_texts evs = concat (map message_text evs)"

definition run_exits_on_shutdown :: "crates \<Rightarrow> net \<Rightarrow> poll list \<Rightarrow> bool" where
  "run_exits_on_shutdown K N polls \<longleftrightarrow> run_joiner K N polls make_joiner (\<lambda>result evs. is_ok result)"

definition run_exits_when_message_channel_closes :: "crates \<Rightarrow> net \<Rightarrow> poll list \<Rightarrow> bool" where
  "run_exits_when_message_channel_closes K N polls \<longleftrightarrow>
     run_joiner K N polls make_joiner (\<lambda>result evs. is_ok result)"

definition run_exits_when_event_receiver_dropped :: "crates \<Rightarrow> net \<Rightarrow> poll list \<Rightarrow> bool" where
  "run_exits_when_event_receiver_dropped K N polls \<longleftrightarrow>
     run_joiner K N polls make_joiner (\<lambda>result evs. is_err result)"

definition run_forwards_messages_to_events :: "crates \<Rightarrow> net \<Rightarrow> poll list \<Rightarrow> bool" where
  "run_forwards_messages_to_events K N polls \<longleftrightarrow> run_joiner K N polls make_joiner
     (\<lambda>result evs. is_ok result \<and> ''hello'' \<in> set (message_texts evs))"

definition run_forwards_multiple_messages_in_order :: "crates \<Rightarrow> net \<Rightarrow> poll list \<Rightarrow> bool" where
  "run_forwards_multiple_messages_in_order K N polls \<longleftrightarrow> run_joiner K N polls make_joiner
     (\<lambda>result evs. is_ok result \<and> message_texts evs = [''first'', ''second'', ''third''])"

definition run_handles_empty_message :: "crates \<Rightarrow> net \<Rightarrow> poll list \<Rightarrow> bool" where
  "run_handles_empty_message K N polls \<longleftrightarrow> run_joiner K N polls make_joiner
     (\<lambda>result evs. is_ok result \<and> [] \<in> set (message_texts evs))"

definition hello_zh :: string where
  "hello_zh = utf8_string [228, 189, 160, 229, 165, 189, 32, 240, 159, 140, 141]"

definition run_handles_unicode_message :: "crates \<Rightarrow> net \<Rightarrow> poll list \<Rightarrow> bool" where
  "run_handles_unicode_message K N polls \<longleftrightarrow> run_joiner K N polls make_joiner
     (\<lambda>result evs. is_ok result \<and> hello_zh \<in> set (message_texts evs))"

definition run_handles_long_message :: "crates \<Rightarrow> net \<Rightarrow> poll list \<Rightarrow> bool" where
  "run_handles_long_message K N polls \<longleftrightarrow> run_joiner K N polls make_joiner
     (\<lambda>result evs. is_ok result \<and> list_ex (\<lambda>t. length t = 8192) (message_texts evs))"

definition run_shutdown_while_message_in_flight :: "crates \<Rightarrow> net \<Rightarrow> poll list \<Rightarrow> bool" where
  "run_shutdown_while_message_in_flight K N polls \<longleftrightarrow>
     run_joiner K N polls make_joiner (\<lambda>result evs. is_ok result)"

definition rapid_texts :: "string list" where
  "rapid_texts = map (\<lambda>i. ''msg-'' @ show_nat i) [0..<50]"

definition run_rapid_message_then_shutdown :: "crates \<Rightarrow> net \<Rightarrow> poll list \<Rightarrow> bool" where
  "run_rapid_message_then_shutdown K N polls \<longleftrightarrow> run_joiner K N polls make_joiner
     (\<lambda>result evs. is_ok result \<and> length (message_texts evs) = 50)"

definition run_emits_correct_peer_name :: "crates \<Rightarrow> net \<Rightarrow> poll list \<Rightarrow> bool" where
  "run_emits_correct_peer_name K N polls \<longleftrightarrow>
     run_joiner K N polls \<lparr>j_stream = None, j_peer_id = PeerId ''peer-abc'', j_name = ''alice''\<rparr>
       (\<lambda>result evs. is_ok result
          \<and> (case find (\<lambda>e. message_text e \<noteq> []) evs of
               Some (Message pid name txt) \<Rightarrow> name = ''alice'' | _ \<Rightarrow> False))"

section \<open>They pass\<close>

lemma close_test_passes: "close_is_idempotent"
  by (simp add: close_is_idempotent_def joiner_close_def)

text \<open>An accepted and a rejected handshake, as the simulated hub sees them.\<close>

lemma accepted_handshake:
  assumes K: "json_ok K" "json_sized K" "is_utf8 name" "length name \<le> 2000"
    and n: "length n = 16" "length d = 16"
  shows "\<exists>h. joiner_handshake K (mem_net [0]) name n d [] = (Inr (PeerId (to_base58 K d)), h)
    \<and> take 16 (written h) = n \<and> simulate_hub 0 (written h)"
proof -
  have "wf_wire (wire_system name)" "length (wm_name (wire_system name)) + length (wm_text (wire_system name)) \<le> 2700"
    using K(3,4) by simp_all
  then obtain v where v: "encode_message K (wire_system name) = Inr (frame_of v)" "length v \<le> MAX_PAYLOAD_BYTES"
    using small_encodes [OF K(1,2)] by metis
  then have "unat (from_be_bytes (take 4 (frame_of v))) = length v"
    by (simp add: frame_of_def unat_frame_length)
  with v n show ?thesis
    using joiner_handshake_answer [of "mem_net [0]" 0 K name n d]
    by (simp add: Let_def simulate_hub_def MAX_PAYLOAD_BYTES_def)
qed

lemma rejected_handshake:
  assumes "length n = 16" and "length d = 16"
  shows "\<exists>h. joiner_handshake K (mem_net [1]) name n d [] = (Inl (Connection ''handshake rejected by hub''), h)
    \<and> take 16 (written h) = n \<and> simulate_hub 1 (written h)"
  using joiner_handshake_answer [of "mem_net [1]" 1 K name n d] assms
  by (simp add: Let_def simulate_hub_def)

lemma handshakes_pass:
  assumes K: "json_ok K" "json_sized K" "base58_ok K" and d: "length disc = 16" "length disc2 = 16"
  shows "handshake_accept_returns_peer_id K disc" "handshake_reject_returns_error K disc"
    "handshake_sends_provided_nonce_on_wire K disc"
    "handshake_invite_nonce_enables_duplicate_detection K disc disc2"
proof -
  have "disc \<noteq> []" using d(1) by auto
  then have ne: "to_base58 K disc \<noteq> []" by (rule base58_nonempty [OF K(3)])
  have utf8: "is_utf8 ''alice''" "is_utf8 ''test''" by (simp_all add: ascii_is_utf8)
  note acc = accepted_handshake [OF K(1,2)]
  obtain h where "joiner_handshake K (mem_net [0]) ''alice'' (replicate 16 0) disc [] =
      (Inr (PeerId (to_base58 K disc)), h)" "simulate_hub 0 (written h)"
    using acc [OF utf8(1) _ _ d(1), of "replicate 16 0"] by auto
  with ne show "handshake_accept_returns_peer_id K disc"
    by (simp add: handshake_accept_returns_peer_id_def)
  obtain h where h: "joiner_handshake K (mem_net [1]) ''alice'' (replicate 16 0) disc [] =
      (Inl (Connection ''handshake rejected by hub''), h)" "simulate_hub 1 (written h)"
    using rejected_handshake [OF _ d(1), of "replicate 16 0"] by auto
  have "sublist ''rejected'' (display_chat_error (Connection ''handshake rejected by hub''))" by code_simp
  with h show "handshake_reject_returns_error K disc"
    by (simp add: handshake_reject_returns_error_def del: display_chat_error.simps)
  have "length expected_nonce = 16" by (simp add: expected_nonce_def)
  then show "handshake_sends_provided_nonce_on_wire K disc"
    using acc [OF utf8(2) _ _ d(1), of expected_nonce] by (auto simp: handshake_sends_provided_nonce_on_wire_def)
  show "handshake_invite_nonce_enables_duplicate_detection K disc disc2"
    using acc [OF utf8(1) _ _ d(1), of "replicate 16 66"] rejected_handshake [OF _ d(2), of "replicate 16 66" K "''alice''"]
    by (auto simp: handshake_invite_nonce_enables_duplicate_detection_def Let_def)
qed

text \<open>A code that does not decode never reaches the connector.\<close>

lemma undecoded_rejected:
  assumes "decode_invite K checks now code (Some 300) = Some (Inl e)"
  shows "connect_mock K checks now disc mock_new code rejected_uncalled"
  using assms
  by (simp add: connect_mock_def joiner_connect_def rejected_uncalled_def mock_call_count_def mock_new_def)

lemma short_code_rejected:
  assumes "base58_strict K" and "length code < 62"
  shows "\<exists>e. decode_invite K checks now code (Some 300) = Some (Inl e)"
proof (cases "from_base58 K code")
  case (Inl x)
  then show ?thesis by (simp add: decode_invite_def)
next
  case (Inr bs)
  then have "length bs < 62" using assms unfolding base58_strict_def by fastforce
  then show ?thesis
    using Inr parse_fields_short [of "str_of_bytes bs" K]
    by (auto simp: decode_invite_def from_utf8_def str_of_bytes_def)
qed

lemma refusals_pass:
  assumes K: "base58_ok K" "hex_ok K" "base58_strict K"
  shows "connect_rejects_empty_invite K checks now disc" "connect_rejects_garbage_invite K checks now disc"
    "connect_rejects_truncated_invite K checks now disc"
    "connect_rejects_invite_with_bad_onion_address K checks now disc"
    "1700000300 < unat now \<Longrightarrow> unat now + 300 < 2 ^ 64 \<Longrightarrow> connect_rejects_expired_invite K checks now disc"
proof -
  have short: "connect_mock K checks now disc mock_new code rejected_uncalled" if "length code < 62" for code
    using short_code_rejected [OF K(3) that] undecoded_rejected by blast
  show "connect_rejects_empty_invite K checks now disc" "connect_rejects_garbage_invite K checks now disc"
    "connect_rejects_truncated_invite K checks now disc"
    unfolding connect_rejects_empty_invite_def connect_rejects_garbage_invite_def
      connect_rejects_truncated_invite_def
    by (rule short, simp)+
  let ?raw = "''short.onion:00000000000000000000000000000000:1700000000''"
  have raw: "length ?raw < 62" "is_utf8 ?raw" "?raw \<noteq> []" by (simp, rule ascii_is_utf8, simp_all)
  have "to_base58 K (as_bytes ?raw) \<noteq> []"
    by (rule base58_nonempty [OF K(1)]) simp
  then have "\<exists>e. decode_invite K checks now (to_base58 K (as_bytes ?raw)) (Some 300) = Some (Inl e)"
    using parse_fields_short [OF raw(1), of K] K(1) from_utf8_as_bytes [OF raw(2)]
    by (auto simp: decode_invite_def simp del: as_bytes_Cons)
  then show "connect_rejects_invite_with_bad_onion_address K checks now disc"
    using undecoded_rejected unfolding connect_rejects_invite_with_bad_onion_address_def Let_def by blast
  assume now: "1700000300 < unat now" "unat now + 300 < 2 ^ 64"
  let ?p = "make_payload ONION 1700000000"
  have wf: "wf_invite ?p" using payload_ok [of "replicate 16 66" 1700000000] by simp
  obtain code where code: "encode_invite K ?p = Inr code" using encode_wf [OF wf] by blast
  have "decode_invite K checks now code (Some 300) = Some (Inl (InviteExpired 1700000000))"
    using decode_encoded [OF K(1,2) wf code] check_times_exact [of now "normalise ?p" "Some 300" checks] now
    by (simp add: times_fit_def)
  then show "connect_rejects_expired_invite K checks now disc"
    using undecoded_rejected by (simp add: connect_rejects_expired_invite_def code)
qed

lemma connections_pass:
  assumes K: "base58_ok K" "hex_ok K" and c: "clock_ok now now'"
  shows "connect_calls_tor_with_correct_target K checks now now' disc"
    "connect_propagates_tor_error K checks now now' disc"
proof -
  let ?p = "(make_payload ONION now)\<lparr>ip_nonce := replicate 16 171\<rparr>"
  have wf: "wf_invite ?p" by (rule payload_ok) simp
  obtain code where code: "encode_invite K ?p = Inr code" using encode_wf [OF wf] by blast
  have "decode_invite K checks now' code (Some 300) = Some (Inr (normalise ?p))"
    using decode_encoded [OF K wf code] check_times_exact [of now' "normalise ?p" "Some 300" checks] c
    by (simp add: times_fit_def clock_ok_def)
  then show "connect_calls_tor_with_correct_target K checks now now' disc"
    "connect_propagates_tor_error K checks now now' disc"
    by (simp_all add: connect_calls_tor_with_correct_target_def connect_propagates_tor_error_def code
      connect_mock_def joiner_connect_def mock_connect_def mock_new_def mock_with_result_def
      mock_call_count_def mock_last_target_def Let_def)
qed

text \<open>
  What a test can give to a run that it shuts down: its texts arrive in order, at any passes, and
  the last pass finds the shutdown signalled, all channels being open until then.
\<close>

definition until_shutdown :: "string list \<Rightarrow> poll list \<Rightarrow> bool" where
  "until_shutdown ts ps \<longleftrightarrow> ps \<noteq> [] \<and> concat (map p_arrivals ps) = ts \<and> p_shutdown (last ps)
     \<and> list_all (\<lambda>p. \<not> p_shutdown p \<and> \<not> p_senders_gone p \<and> \<not> p_events_closed p) (butlast ps)"

text \<open>Then every text becomes an event, in order.\<close>

lemma drain_state_all:
  assumes "sends_succeed N" and "ls_pending s = []"
  shows "\<exists>k. drain_state N pid name s = \<lparr>ls_queue = [], ls_pending = [], ls_log = ls_log s @ k\<rparr>
    \<and> accepted k = map (ToEvents \<circ> make_event pid name) (ls_queue s)"
  using drain_messages_all [OF assms(1), of pid name "ls_queue s" "[]" "ls_log s"] assms(2)
  by (auto simp: drain_state_def drain_and_flush_def flush_pending.simps)

lemma run_disconnected_all:
  assumes "sends_succeed N"
  shows "ls_pending s = [] \<Longrightarrow> until_shutdown ts ps \<Longrightarrow> \<exists>s' k.
    run_disconnected N name pid ps s = (Some (Inr ()), s') \<and> ls_log s' = ls_log s @ k
    \<and> accepted k = map (ToEvents \<circ> make_event pid name) (ls_queue s @ ts)"
proof (induction ps arbitrary: s ts)
  case (Cons p ps)
  let ?s = "s\<lparr>ls_queue := ls_queue s @ p_arrivals p\<rparr>"
  show ?case
  proof (cases "p_shutdown p")
    case True
    with Cons.prems(2) have "ps = []" by (cases ps) (auto simp: until_shutdown_def)
    with True Cons.prems show ?thesis
      using drain_state_all [OF assms, of ?s pid name]
      by (auto simp: run_disconnected_step_def until_shutdown_def)
  next
    case False
    with Cons.prems(2) have "ps \<noteq> []" by (auto simp: until_shutdown_def)
    with Cons.prems(2) have rest: "until_shutdown (concat (map p_arrivals ps)) ps"
        "\<not> p_senders_gone p" "\<not> p_events_closed p" "ts = p_arrivals p @ concat (map p_arrivals ps)"
      by (auto simp: until_shutdown_def)
    show ?thesis
    proof (cases "ls_queue s @ p_arrivals p")
      case Nil
      then have "run_disconnected_step N name pid p s = (None, s)"
        using False rest(2,3) by (simp add: run_disconnected_step_def)
      then show ?thesis using Cons.IH [OF Cons.prems(1) rest(1)] Nil rest(4) by simp
    next
      case q: (Cons t us)
      let ?c = "TrySend (ToEvents (make_event pid name t)) True"
      let ?s1 = "\<lparr>ls_queue = us, ls_pending = [], ls_log = ls_log s @ [?c]\<rparr>"
      have "run_disconnected_step N name pid p s = (None, ?s1)"
        using False q Cons.prems(1) assms
        by (simp add: run_disconnected_step_def try_emit_def try_send_def sends_succeed_def Let_def)
      moreover obtain s' k where "run_disconnected N name pid ps ?s1 = (Some (Inr ()), s')"
          "ls_log s' = (ls_log s @ [?c]) @ k"
          "accepted k = map (ToEvents \<circ> make_event pid name) (us @ concat (map p_arrivals ps))"
        using Cons.IH [OF _ rest(1), of ?s1] by auto
      moreover have "ls_queue s @ ts = t # us @ concat (map p_arrivals ps)"
        using q rest(4) by (metis append.assoc append_Cons)
      ultimately show ?thesis
        by (intro exI [of _ s'] exI [of _ "?c # k"]) simp
    qed
  qed
qed (simp add: until_shutdown_def)

lemma run_joiner_all:
  assumes "sends_succeed N" and "until_shutdown ts ps" and "j_stream j = None"
  shows "run_joiner K N ps j k = k (Inr ()) (map (make_event (j_peer_id j) (j_name j)) ts)"
proof -
  let ?s = "\<lparr>ls_queue = [], ls_pending = [], ls_log = []\<rparr>"
  obtain s' k' where r: "run_disconnected N (j_name j) (j_peer_id j) ps ?s = (Some (Inr ()), s')"
      "ls_log s' = k'" "accepted k' = map ToEvents (map (make_event (j_peer_id j) (j_name j)) ts)"
    using run_disconnected_all [OF assms(1) _ assms(2), of ?s "j_name j" "j_peer_id j"] by auto
  then show ?thesis
    using assms(3) unfolding run_joiner_def joiner_run_def Let_def by (simp only: option.case prod.case of_map)
qed

lemma made_texts: "message_texts (map (make_event pid name) ts) = ts"
  by (induction ts) (simp_all add: message_texts_def make_event_def)

lemma runs_pass:
  assumes N: "sends_succeed N"
  shows "until_shutdown [] ps \<Longrightarrow> run_exits_on_shutdown K N ps"
    "until_shutdown [''hello''] ps \<Longrightarrow> run_forwards_messages_to_events K N ps"
    "until_shutdown [''first'', ''second'', ''third''] ps \<Longrightarrow> run_forwards_multiple_messages_in_order K N ps"
    "until_shutdown [[]] ps \<Longrightarrow> run_handles_empty_message K N ps"
    "until_shutdown [hello_zh] ps \<Longrightarrow> run_handles_unicode_message K N ps"
    "until_shutdown [replicate 8192 (CHR ''x'')] ps \<Longrightarrow> run_handles_long_message K N ps"
    "until_shutdown [''in-flight''] ps \<Longrightarrow> run_shutdown_while_message_in_flight K N ps"
    "until_shutdown rapid_texts ps \<Longrightarrow> run_rapid_message_then_shutdown K N ps"
    "until_shutdown [''hi''] ps \<Longrightarrow> run_emits_correct_peer_name K N ps"
proof -
  have "length rapid_texts = 50" by (simp add: rapid_texts_def)
  then show "until_shutdown rapid_texts ps \<Longrightarrow> run_rapid_message_then_shutdown K N ps"
    by (simp add: run_joiner_all [OF N] made_texts make_joiner_def run_rapid_message_then_shutdown_def)
qed (simp_all add: run_joiner_all [OF N] message_texts_def make_joiner_def run_exits_on_shutdown_def
    run_forwards_messages_to_events_def run_forwards_multiple_messages_in_order_def
    run_handles_empty_message_def run_handles_unicode_message_def run_handles_long_message_def
    run_shutdown_while_message_in_flight_def run_emits_correct_peer_name_def make_event_def)

text \<open>The runs that a closed channel ends at their first pass.\<close>

lemma closed_runs_pass:
  assumes "p_arrivals p = []" and "\<not> p_shutdown p"
  shows "p_senders_gone p \<Longrightarrow> run_exits_when_message_channel_closes K N (p # ps)"
    "\<not> p_senders_gone p \<Longrightarrow> p_events_closed p \<Longrightarrow> run_exits_when_event_receiver_dropped K N (p # ps)"
  using assms
  by (simp_all add: run_exits_when_message_channel_closes_def run_exits_when_event_receiver_dropped_def
    run_joiner_def joiner_run_def make_joiner_def run_disconnected_step_def Let_def)

end
