(* ===== verification/App_Tests.thy ===== *)
theory App_Tests
  imports Cli_App Room_Handle Wire_Tests
begin

text \<open>
  The unit tests of \<open>crates/core/src/room.rs\<close> and \<open>crates/cli/src/main.rs\<close> that assert something
  of the program. Those that only check that a type exists or implements a trait (and all those of
  \<open>crates/core/src/factory.rs\<close> are of this kind) are left out, and so is the one that needs the Tor
  network.
\<close>

section \<open>Handles\<close>

definition quit_is_idempotent :: bool where
  "quit_is_idempotent \<longleftrightarrow>
     (let inner = room_inner_new ''test'' :: unit room_inner in
      ri_quit_flag (room_quit (room_quit (room_quit inner))))"

definition send_after_quit_fails :: "net \<Rightarrow> bool" where
  "send_after_quit_fails N \<longleftrightarrow>
     (let inner = room_quit (room_inner_new ''test'' :: unit room_inner) in
      case room_send N ''hello'' inner [] of (result, h) \<Rightarrow> (\<exists>e. result = Ready (Inl e)))"

definition invite_on_joiner_fails :: "crates \<Rightarrow> nonce \<Rightarrow> u64 \<Rightarrow> bool" where
  "invite_on_joiner_fails K random_nonce now \<longleftrightarrow>
     is_err (room_invite K random_nonce now None (room_inner_new ''joiner'' :: unit room_inner))"

lemma room_tests_pass:
  "quit_is_idempotent" "send_after_quit_fails N" "invite_on_joiner_fails K random_nonce now"
  by (simp_all add: quit_is_idempotent_def send_after_quit_fails_def invite_on_joiner_fails_def
    room_quit_def room_send_def room_invite_def room_inner_new_def)

section \<open>The terminal interface\<close>

definition test_app :: app where
  "test_app = (app_new 0 False)\<lparr>app_cmd_tx := True\<rparr>"

text \<open>Keys one after the other, with an assertion after each; a panic fails the test.\<close>

fun press :: "key_event list \<Rightarrow> (app \<Rightarrow> bool) \<Rightarrow> app \<Rightarrow> (app \<Rightarrow> bool) \<Rightarrow> bool" where
  "press [] each a k \<longleftrightarrow> k a"
| "press (key # keys) each a k \<longleftrightarrow>
     (case handle_key 0 key a of None \<Rightarrow> False | Some (a', sp) \<Rightarrow> each a' \<and> press keys each a' k)"

definition typing_and_sending_does_not_quit :: bool where
  "typing_and_sending_does_not_quit \<longleftrightarrow>
     (let app = test_app\<lparr>app_mode := ModeRunning\<rparr> in
      \<not> app_quit app
    \<and> press (map (\<lambda>c. plain_key (KChar [c])) ''hello'') (\<lambda>a. True) app (\<lambda>a.
        app_input a = ''hello'' \<and> \<not> app_quit a
      \<and> press [plain_key KEnter] (\<lambda>a. True) a (\<lambda>a. app_input a = [] \<and> \<not> app_quit a)))"

definition typing_individual_chars_does_not_quit :: bool where
  "typing_individual_chars_does_not_quit \<longleftrightarrow>
     (let app = test_app\<lparr>app_mode := ModeRunning\<rparr> in
      \<not> app_quit app
    \<and> press (map char_key [(''a'', False), (''b'', False), ('' '', False), (''Z'', True), (''1'', False)])
        (\<lambda>a. \<not> app_quit a) app (\<lambda>a. app_input a = ''ab Z1''))"

definition ctrl_c_sets_quit :: bool where
  "ctrl_c_sets_quit \<longleftrightarrow> \<not> app_quit test_app
     \<and> press [\<lparr>ke_code = KChar ''c'', ke_modifiers = {Control}\<rparr>] (\<lambda>a. True) test_app (\<lambda>a. app_quit a)"

lemmas app_test_defs = test_app_def app_new_def handle_key_def plain_key_def char_key_def app_send_def
  str_insert_def is_char_boundary_def Let_def

lemma app_tests_pass:
  "typing_and_sending_does_not_quit" "typing_individual_chars_does_not_quit" "ctrl_c_sets_quit"
  by (simp_all add: app_test_defs typing_and_sending_does_not_quit_def
    typing_individual_chars_does_not_quit_def ctrl_c_sets_quit_def)

end
