(* ===== verification/Spec2Isabelle.thy ===== *)
theory Spec2Isabelle
  imports Wire Invite Handshake Joiner Hub Room_Handle Room_Host Room_System Room_Delivery Room_Join Joiner_System Cli_Main Cli_Room
    Wire_Tests Invite_Tests Hub_Tests Joiner_Tests App_Tests
begin

text \<open>
  Verification of nullpipe, an ephemeral chat between peers over Tor (\<open>crates/core\<close>, the room
  library, and \<open>crates/cli\<close>, its command line).

  \<^bold>\<open>The program.\<close> A user hosts a room or joins one. The host bootstraps Tor (\<open>bootstrap.rs\<close>), launches
  an onion service (\<open>HostedRoom\<close> of \<open>hub.rs\<close>), makes invite codes (\<open>invite.rs\<close>) and serves each incoming
  stream with a handler (\<open>handle_hub_connection\<close> of \<open>room.rs\<close>): handshake, registration, a reader and
  a writer task, removal. Its main loop (\<open>run_host_loop\<close>) broadcasts the texts of its user and shows
  those of the peers. A joiner (\<open>joiner.rs\<close>) decodes the invite, connects, does the other side of the
  handshake, and runs a reader and a write loop. Messages are length-prefixed JSON frames (\<open>wire.rs\<close>).
  The user sees a room through a handle and a stream of events (\<open>RoomHandle\<close> of \<open>room.rs\<close>), which the
  terminal and the headless interface of \<open>main.rs\<close> drive.

  \<^bold>\<open>Theories.\<close>
  \<^item> \<open>Chat_Prelude\<close>, \<open>Rust_Std\<close>, \<open>Rust_Text\<close>: machine integers, byte strings, timeouts; the string and
    parsing functions of the Rust library that the code uses.
  \<^item> \<open>Chat_Types\<close>: \<open>error.rs\<close>, \<open>types.rs\<close> and the data of \<open>wire.rs\<close> and \<open>invite.rs\<close>.
  \<^item> \<open>Crates\<close>: the third-party codecs (base58, hex, JSON) as a record of functions, with what is relied
    on as named hypotheses (\<open>base58_ok\<close>, \<open>hex_ok\<close>, \<open>json_ok\<close>); \<open>Sample_Crates\<close> has concrete
    functions that satisfy them.
  \<^item> \<open>Async_IO\<close>: streams and channels. An operation asks an environment \<open>net\<close>, which may answer
    anything or never, and appends the call to a log; \<open>writes\<close>, \<open>written\<close>, \<open>offers\<close> and \<open>accepted\<close> read
    the log. The environments \<open>feeds\<close>, \<open>writes_succeed\<close> and \<open>sends_succeed\<close> are a network that delivers.
  \<^item> \<open>Wire\<close>, \<open>Invite\<close>, \<open>Handshake\<close>: the codecs, and both sides of the handshake. The locale \<open>admission\<close> is
    the contract of a hub side; both hub sides of the program satisfy it.
  \<^item> \<open>Frame_Loop\<close>: the loop that reads frames and hands them to a handler, with the locales
    \<open>frame_handler\<close> (the loop ends, and reads are bounded) and \<open>frame_consumer\<close> (everything is
    delivered in order), which the four readers of the program interpret.
  \<^item> \<open>Connector\<close>, \<open>Joiner\<close>: \<open>connector.rs\<close> and \<open>joiner.rs\<close>.
  \<^item> \<open>Acceptor\<close>: the sources of streams and the accept loop, with the trait \<open>StreamSource\<close> as the locale
    \<open>stream_source\<close>.
  \<^item> \<open>Peer_Table\<close>: the locales \<open>peer_table\<close> and \<open>listed_table\<close> of a table of connected peers, which the
    registry of \<open>hub.rs\<close> and the peer map of \<open>room.rs\<close> interpret.
  \<^item> \<open>Hub\<close>: the registry, the hub and the life of a connection of \<open>hub.rs\<close>.
  \<^item> \<open>Bootstrap\<close>: the control flow of \<open>bootstrap.rs\<close> around arti.
  \<^item> \<open>Room_Handle\<close>, \<open>Room_Host\<close>, \<open>Room_Join\<close>: the public side of a room, the tasks of a host and of a
    joined room, their mock variants, and \<open>factory.rs\<close>.
  \<^item> \<open>Room_System\<close>: all the tasks of a hosted room together (handlers, readers, writers, the main loop,
    a quit) and the interface that receives the events, as a step relation on the nonce set, the nonce
    mutex, the peer map, the connections, the channel to the main loop, the broadcast and the event
    channel, which drops what finds it full; a peer that takes no byte stalls the writes that have no
    timeout. The sequential definitions of \<open>Room_Host\<close>
    refine it: the handler (\<open>handler_refines_steps\<close>), a pass of the main loop (\<open>host_pass_refines\<close>), a
    frame of a reader (\<open>reader_frame_refines\<close>); what a subscription yields (\<open>recv_from\<close>) is what the
    writer is given. \<open>Room_Delivery\<close>: what the room delivers in both directions and how it ends.
  \<^item> \<open>Joiner_System\<close>: the tasks of a joined room together (reader, write loop, user, interface) over the
    bounded event channel; the write loop of \<open>Joiner\<close> refines it (\<open>write_pass_refines\<close>).
  \<^item> \<open>Cli_App\<close>, \<open>Cli_Main\<close>: the state and drawing of the terminal interface, and the two interfaces as
    loops over what their \<open>select!\<close> receives. \<open>Cli_Room\<close>: the tasks that they spawn for typed texts and
    commands, run in any order beside the room.
  \<^item> \<open>Wire_Tests\<close>, \<open>Invite_Tests\<close>, \<open>Hub_Tests\<close>, \<open>Joiner_Tests\<close>, \<open>App_Tests\<close>: the unit tests of the program,
    each as the value of its assertions over the model, proved true. Left out are the tests of
    constants, of the traits of library types, those that assert nothing, and the one that needs Tor.
  \<^item> This theory: properties that cross components, from invite to admission and from one user's text to
    the other user's event.

  \<^bold>\<open>How the model is made.\<close> A \<open>tokio::select!\<close> loop is a function of the list of what each pass finds
  ready, so that a theorem holds for every schedule; a list that is used up is a loop still running.
  Loops that read a stream take fuel, one unit for a frame: \<open>joiner_reader_terminates\<close> gives the fuel
  that is enough for a finite stream, and the delivery theorems need one unit more than there are
  messages. A panic is \<open>None\<close>, an error \<open>Inl\<close>, a future that does not complete \<open>Elapsed\<close>. Integers
  have their width; times of invites are \<open>u64\<close>, with checked or wrapping addition as an argument.
  Random values are arguments. The step relation has the capacities of the channel to the main loop
  (128), of the broadcast (256) and of the event channel (256); what is offered to the full event
  channel is dropped, as in the code, so that the history \<open>sy_events\<close> of what is offered is a merge of
  what got into the channel (\<open>sy_put\<close>) and what did not (\<open>sy_dropped\<close>), and \<open>sy_seen\<close> is what the
  interface has received.

  \<^bold>\<open>What is shown.\<close> Admission: nonces are single-use on the hub, under any streams and any interleaving,
  and so an invite admits one joiner (\<open>invite_admits_once\<close>); a fresh invite does admit
  (\<open>invite_admits\<close>); the answer byte is truthful. Delivery: what either user types is what the screen
  of the other one shows, each text once and in the order in which its task got it into the channel
  (\<open>joiner_text_reaches_host\<close>, \<open>host_text_reaches_joiner\<close>), through the write loops, the codec and the
  readers, and but for what a lag of the host's broadcast skips, which is counted (\<open>yields\<close> of
  \<open>Room_Host\<close>). The room, under any interleaving of its tasks: nothing that the readers pass on is
  lost or doubled on its way to the event channel, nor in it before it is full
  (\<open>interleaved_delivery\<close>), every connection receives what is said from its subscription on
  (\<open>broadcast_delivery\<close>) and all that keep up the same (\<open>peers_agree\<close>); the peer map is the set of live
  connections, the events of a peer are causal, also as they are received unless its join was
  dropped, a connection leaves no trace but its nonce, quitting is final and silent, and a closed
  room winds down in a bounded number of steps to one without peers, but for peers whose notice has
  stalled (\<open>room_winds_down\<close>, \<open>stalled_notice_stays\<close>). A joined room: its user sees
  every message of the hub and each own text once, with those that a full event channel held back
  at the end and in reverse (\<open>joined_user_sees\<close>, \<open>own_texts_reversed\<close>). The
  codecs: round trips, soundness and bounds. The interfaces: the terminal one is well formed and never
  panics on ASCII, edits and draws correctly, and ends after the room; the headless one sends exactly
  what it should; the two agree on lines without white space around them. Where the code does less than its documents say, the theorem
  states what it does (\<open>identifier_collision\<close>, \<open>last_drop_quits\<close>, \<open>host_invite_window\<close>,
  \<open>typed_line_sent\<close>, \<open>typed_texts_sent\<close>, \<open>replay_blocks_room\<close>, \<open>missed_while_joining\<close>, \<open>late_events\<close>,
  \<open>dropped_join\<close>, \<open>late_client_kept\<close>).

  \<^bold>\<open>Not modelled.\<close> arti, tokio, serde, clap, crossterm and ratatui themselves: their results are
  parameters. The setting up of the terminal and its panic hook, colours and layout; fairness of the
  scheduler; \<open>lib.rs\<close>, which only re-exports; the tests under \<open>tests/\<close>, which run the program or Tor;
  the files \<open>*.rs.bak\<close>, old versions that are not compiled.
\<close>

section \<open>From the invite to admission\<close>

lemma decode_same:
  "decode_invite K c1 now1 code ttl1 = Some (Inr p1) \<Longrightarrow> decode_invite K c2 now2 code ttl2 = Some (Inr p2) \<Longrightarrow>
   p1 = p2"
  by (auto simp: decode_invite_def split: if_splits sum.splits option.splits dest!: check_times_Inr)

lemma decode_nonce: "decode_invite K c now code ttl = Some (Inr p) \<Longrightarrow> length (ip_nonce p) = 16"
  by (drule decode_invite_Inr) (simp add: wf_invite_def wf_nonce_def)

text \<open>What a joiner presents is what the hub reads.\<close>

lemma hub_reads_hello:
  assumes "feeds N (n @ d @ rest)" and "length n = 16" and "length d = 16"
  shows "hub_hello N [] = Some (n @ d)"
  using hub_hello_feeds [OF assms] assms(2,3) by (simp add: hub_hello_def HANDSHAKE_LEN_def)

lemma silent_not_admitted:
  assumes "feeds N []" and "hub_handshake K N used [] = (r, used', h)"
  shows "\<not> is_admitted r"
proof
  assume "is_admitted r"
  then obtain pid name where r: "r = Ready (Inr (pid, name))" by (auto elim!: is_admittedE)
  obtain e where "n_read_exact N [] HANDSHAKE_LEN = Ready (Inl e)"
    using feeds_eof [OF assms(1), of "[]" HANDSHAKE_LEN] by (auto simp: HANDSHAKE_LEN_def)
  then have "hub_hello N [] = None" by (simp add: hub_hello_def)
  with hub_handshake_admits [OF assms(2) [unfolded r]] show False by simp
qed

lemma joiner_refused:
  assumes N: "writes_succeed N" "feeds N bs" and bs: "bs = [] \<or> bs = [1]"
    and js: "joiner_handshake K N name nonce disc [] = (r, h)"
  shows "\<exists>e. r = Inl e"
proof (cases "bs = []")
  case True
  let ?h = "[WriteAll (nonce @ disc) (Ready (Inr ())), Flush (Ready (Inr ()))]"
  obtain e where "n_read_exact N ?h 1 = Ready (Inl e)"
    using feeds_eof [of N "[]" ?h 1] N(2) True by auto
  then show ?thesis using js N(1)
    by (auto simp: joiner_handshake_def write_flush_succeeds read_exact_def timed_conn_def Let_def)
next
  case False
  with bs N(2) have "feeds N [1]" by simp
  from joiner_handshake_answer [OF N(1) this, of K name nonce disc] js show ?thesis
    by (simp add: Let_def)
qed

lemma joined_presents:
  assumes "joiner_connect K net_of connect checks now disc tor code name = Some (Inr j, tor', h)"
  obtains p rest where "decode_invite K checks now code (Some 300) = Some (Inr p)"
    "written h = ip_nonce p @ disc @ rest"
  using assms
proof (cases rule: joiner_connect_cases)
  case (connected p stream)
  let ?hs = "joiner_handshake K (net_of stream) (effective_name name p) (ip_nonce p) disc []"
  from connected(3) obtain pid where "fst ?hs = Inr pid" by (cases "fst ?hs") auto
  then have "?hs = (Inr pid, h)" using connected(4) by (cases ?hs) simp
  from joiner_handshake_Inr [OF this] connected(1) that show ?thesis by auto
qed simp_all

text \<open>
  C1. An invite admits one joiner, whoever holds the code and whenever it is used: once a joiner has
  connected with it and the hub has admitted it, every later attempt with the same code fails on
  the joiner's side and admits nobody on the hub's, whatever connections the hub served in
  between (\<open>used1\<close> only grows), and whether or not the refusal, which the hub does not flush,
  reaches the joiner.
\<close>

theorem invite_admits_once:
  assumes j1: "joiner_connect K net1 connect1 c1 now1 disc1 tor1 code name1 = Some (Inr j1, t1, h1)"
    and hub1: "hub_handshake K N1 used [] = (Ready (Inr peer1), used1, hh1)"
    and heard1: "feeds N1 (written h1)" "length disc1 = 16"
    and between: "used1 \<subseteq> used2"
    and j2: "joiner_connect K net2 connect2 c2 now2 disc2 tor2 code name2 = Some (r2, t2, h2)"
    and hub2: "hub_handshake K N2 used2 [] = (r, used3, hh2)"
    and heard2: "feeds N2 (written h2)" "writes_succeed N2" "length disc2 = 16"
      "\<And>st. writes_succeed (net2 st) \<and> (\<exists>bs. prefix bs (written hh2) \<and> feeds (net2 st) bs)"
  shows "(\<exists>e. r2 = Inl e) \<and> \<not> is_admitted r"
proof -
  obtain p rest where p: "decode_invite K c1 now1 code (Some 300) = Some (Inr p)"
      "written h1 = ip_nonce p @ disc1 @ rest"
    using joined_presents [OF j1] .
  note n = decode_nonce [OF p(1)]
  have "hub_hello N1 [] = Some (ip_nonce p @ disc1)"
    using heard1 p(2) n by (auto intro: hub_reads_hello)
  then have used: "ip_nonce p \<in> used2"
    using hub_handshake_nonces [OF hub1] n between by auto
  from j2 show ?thesis
  proof (cases rule: joiner_connect_cases)
    case (connected q st)
    with p(1) have q: "q = p" using decode_same by blast
    let ?N = "net2 st"
    obtain rj where js: "joiner_handshake K ?N (effective_name name2 p) (ip_nonce p) disc2 [] = (rj, h2)"
      using connected(4) q by (metis prod.collapse)
    obtain bs where net: "writes_succeed ?N" "prefix bs (written hh2)" "feeds ?N bs"
      using heard2(4) by blast
    obtain rest2 where w: "written h2 = ip_nonce p @ disc2 @ rest2"
      using joiner_handshake_sends_hello [OF net(1) js] .
    obtain h' where "hub_handshake K N2 used2 [] = (Ready (Inl NonceReused), used2, h')" "written h' = [1]"
      using hub_handshake_replay [OF heard2(1) [unfolded w] heard2(2) n heard2(3) used] by blast
    with hub2 net(2) have r: "r = Ready (Inl NonceReused)" and "bs = [] \<or> bs = [1]"
      by (auto simp: prefix_Cons)
    from joiner_refused [OF net(1,3) this(2) js] obtain e where "rj = Inl e" by blast
    then show ?thesis using connected(3) js q r by simp
  qed (use silent_not_admitted [OF _ hub2] heard2(1) in simp_all)
qed

text \<open>
  C3. An invite works: a code that a host issues lets a joiner that uses it within 300 s in, over
  a network that delivers, if the nonce has not been presented before; both sides then agree on
  the joiner's identifier and on its name, which is its own or else the one the invite suggests,
  and the nonce is used up.
\<close>

theorem invite_admits:
  assumes K: "base58_ok K" "hex_ok K" "json_ok K"
    and room: "ri_quit_flag rm = False"
    and p: "wf_invite p"
    and code: "room_invite K (ip_nonce p) (ip_timestamp p) (ip_suggested_name p)
        (set_invite (ip_onion_address p) port config rm) = Inr code"
    and time: "times_fit now (ip_timestamp p) (Some 300)" "unat (ip_timestamp p) \<le> unat now + 300"
      "unat now \<le> unat (ip_timestamp p) + 300"
    and tor: "connect tor (ip_onion_address p) 80 = (Inr st, tor')"
    and name: "is_utf8 (effective_name name (normalise p))"
      "encode_message K (wire_system (effective_name name (normalise p))) = Inr f"
    and j: "joiner_connect K net_of connect checks now disc tor code name = Some (rj, tor2, hj)"
    and hub: "hub_handshake K N used [] = (rh, used', hh)"
    and fresh: "ip_nonce p \<notin> used" "length disc = 16"
    and net: "writes_succeed (net_of st)" "writes_succeed N" "feeds N (written hj)"
      "feeds (net_of st) (written hh)"
  shows "rj = Inr \<lparr>j_stream = Some st, j_peer_id = PeerId (to_base58 K disc),
        j_name = effective_name name (normalise p)\<rparr>
    \<and> rh = Ready (Inr (PeerId (to_base58 K disc), effective_name name (normalise p)))
    \<and> used' = insert (ip_nonce p) used"
proof -
  let ?n = "effective_name name (normalise p)"
  have "encode_invite K p = Inr code"
    using code room by (cases p) (simp add: room_invite_def set_invite_def)
  then have d: "decode_invite K checks now code (Some 300) = Some (Inr (normalise p))"
    using decode_encoded [OF K(1,2) p] check_times_exact [of now "normalise p" "Some 300" checks] time
    by simp
  from j have js: "joiner_handshake K (net_of st) ?n (ip_nonce p) disc []
      = (fst (joiner_handshake K (net_of st) ?n (ip_nonce p) disc []), hj)"
    and rj: "rj = map_sum id (\<lambda>pid. \<lparr>j_stream = Some st, j_peer_id = pid, j_name = ?n\<rparr>)
      (fst (joiner_handshake K (net_of st) ?n (ip_nonce p) disc []))"
    using d tor by (cases rule: joiner_connect_cases; simp)+
  have "length (ip_nonce p) = 16" using p by (simp add: wf_invite_def wf_nonce_def)
  from handshake_agrees [OF K(3) name this fresh(2,1) js hub net] rj
  show ?thesis by simp
qed

section \<open>Messages end to end\<close>

definition encodes :: "crates \<Rightarrow> wire_message \<Rightarrow> bool" where
  "encodes K m \<longleftrightarrow> (\<exists>f. encode_message K m = Inr f)"

lemma wire_frames_all2:
  "\<forall>m \<in> set ms. wf_wire m \<Longrightarrow>
   list_all2 (\<lambda>m f. wf_wire m \<and> encode_message K m = Inr f) (filter (encodes K) ms)
     (concat (map (wire_frames K) ms))"
proof (induction ms)
  case (Cons m ms)
  then show ?case by (cases "encode_message K m") (auto simp: encodes_def wire_frames_def)
qed simp

text \<open>
  The texts that a task takes from the room's channel are in the order of the channel, and among
  those that were typed.
\<close>

lemma channel_typed:
  assumes "front_reach K N r typed f" and "prefix texts (texts_of (accepted (fr_log f)))"
  shows "mset texts \<subseteq># mset (sends typed)" and "set texts \<subseteq> set (sends typed)"
proof -
  obtain refused where "mset (sends typed)
      = mset (texts_of (accepted (fr_log f))) + mset refused + mset (sends (fr_tasks f))"
    using front_reach_texts [OF assms(1)] by blast
  moreover obtain rest where "texts_of (accepted (fr_log f)) = texts @ rest"
    using assms(2) by (auto elim: prefixE)
  ultimately show *: "mset texts \<subseteq># mset (sends typed)" by simp
  then show "set texts \<subseteq> set (sends typed)" using set_mset_mono by fastforce
qed

lemma subseq_map_chat:
  assumes "subseq ms (map f ts)"
  obtains us where "ms = map f us" and "subseq us ts"
  using assms that unfolding subseq_conv_nths nths_map by blast

text \<open>
  C5. From the host's keyboard to the joiner's screen: what the joiner sees of the host's user are
  texts that this user typed, in the order in which they entered the room's channel (\<open>ts\<close> of them
  have been taken by the loop), from the moment the joiner subscribed on (after \<open>n\<close> of them), each
  once and under the host's name. Exactly those are missing that a lag of the broadcast skipped, by
  the number that it reports, that are still waiting, or that are too long to send.
\<close>

theorem host_text_reaches_joiner:
  assumes K: "json_ok K"
    and typed: "front_reach K Nf r typed f" "prefix (concat (map hp_texts ps)) (texts_of (accepted (fr_log f)))"
    and utf8: "is_utf8 name" "\<forall>t \<in> set (sends typed). is_utf8 t"
    and loop: "host_loop Nh name ps \<lparr>hs_texts = [], hs_msgs = [], hs_log = []\<rparr> = (ended, s')"
    and subscription: "yields (drop n (wires_of (offers (hs_log s')))) rs"
    and writer: "room_writer K Nw rs [] = (b, hw)" "writes_succeed Nw"
    and reader: "feeds Nj (written hw)" "sends_succeed Nj" "length (received rs) < fuel"
  shows "\<exists>ts tr us waiting hj. concat (map hp_texts ps) = ts @ tr \<and> (\<not> ended \<longrightarrow> tr = hs_texts s')
    \<and> mset ts \<subseteq># mset (sends typed)
    \<and> subseq us (drop n ts) \<and> (skipped rs = 0 \<longrightarrow> prefix us (drop n ts))
    \<and> length (drop n ts) = length us + skipped rs + waiting \<and> (WireClosed \<in> set rs \<longrightarrow> waiting = 0)
    \<and> joiner_reader_loop K Nj fuel [] = Some (Ended, hj)
    \<and> accepted hj = map (\<lambda>t. ToEvents (Message (PeerId name) name t)) (filter (\<lambda>t. encodes K (wire_chat name t)) us)
    \<and> (\<forall>now a. \<exists>a'. handle_events now (events_of (accepted hj)) a = Some a'
        \<and> map shown_line (app_msgs a') = map shown_line (app_msgs a)
            @ map (\<lambda>t. (name, t, False)) (filter (\<lambda>t. encodes K (wire_chat name t)) us))"
proof -
  obtain k ts tr where k: "hs_log s' = k" "wires_of (offers k) = map (wire_chat name) ts"
      "concat (map hp_texts ps) = ts @ tr" "\<not> ended \<longrightarrow> tr = hs_texts s'"
    using host_loop_log [OF loop] unfolding host_trace_def by auto
  have ts: "mset ts \<subseteq># mset (sends typed)" "set ts \<subseteq> set (sends typed)"
    using channel_typed [OF typed(1), of ts] typed(2) unfolding k(3) by (auto dest: append_prefixD)
  have y: "yields (map (wire_chat name) (drop n ts)) rs"
    using subscription k(1,2) by (simp add: drop_map)
  obtain wait where w: "subseq (received rs) (map (wire_chat name) (drop n ts))"
      "length (map (wire_chat name) (drop n ts)) = length (received rs) + skipped rs + length wait"
      "WireClosed \<in> set rs \<longrightarrow> wait = []"
      "skipped rs = 0 \<longrightarrow> map (wire_chat name) (drop n ts) = received rs @ wait"
    using yields_received [OF y] by (elim exE conjE)
  obtain us where us: "received rs = map (wire_chat name) us" "subseq us (drop n ts)"
    using subseq_map_chat [OF w(1)] .
  have pre: "skipped rs = 0 \<longrightarrow> prefix us (drop n ts)"
  proof
    assume "skipped rs = 0"
    with w(4) us(1) have "map wm_text (map (wire_chat name) (drop n ts)) = map wm_text (map (wire_chat name) us @ wait)"
      by simp
    then have "drop n ts = us @ map wm_text wait" by (simp add: comp_def)
    then show "prefix us (drop n ts)" by (rule prefixI)
  qed
  have wf: "\<forall>m \<in> set (received rs). wf_wire m"
    using utf8 ts(2) unfolding us(1) by (auto dest: in_set_dropD elim!: list_emb_set [OF us(2)])
  have "written hw = concat (concat (map (wire_frames K) (received rs)))"
    using room_writer_all [OF writer(2) y, of K "[]"] writer(1) by auto
  with reader(1) have "feeds Nj (concat (concat (map (wire_frames K) (received rs))))" by simp
  moreover have "length (filter (encodes K) (received rs)) < fuel"
    using length_filter_le [of "encodes K" "received rs"] reader(3) by linarith
  ultimately obtain hj where hj: "frame_loop Ended (handle_incoming_frame K Nj) Nj fuel [] = Some (Ended, hj)"
      "accepted hj = concat (map (\<lambda>m. [ToEvents (joiner_event m)]) (filter (encodes K) (received rs)))"
    using joiner_reader.loop_delivers [OF K reader(2) wire_frames_all2 [OF wf]] by blast
  let ?us = "filter (\<lambda>t. encodes K (wire_chat name t)) us"
  have acc: "accepted hj = map (\<lambda>t. ToEvents (Message (PeerId name) name t)) ?us"
    unfolding hj(2) us(1) by (induction us) (simp_all add: joiner_event_def)
  then have "events_of (accepted hj) = map (Message (PeerId name) name) ?us"
    using of_map(1) [of "map (Message (PeerId name) name) ?us"] by (simp add: comp_def)
  then have "\<exists>a'. handle_events now (events_of (accepted hj)) a = Some a'
      \<and> map shown_line (app_msgs a') = map shown_line (app_msgs a) @ map (\<lambda>t. (name, t, False)) ?us" for now a
    using handle_messages [of "map (Message (PeerId name) name) ?us" now a] by (simp add: comp_def)
  moreover have "length (drop n ts) = length us + skipped rs + length wait" using w(2) us(1) by simp
  moreover have "WireClosed \<in> set rs \<longrightarrow> length wait = 0" using w(3) by simp
  ultimately show ?thesis
    using k(3,4) ts(1) us(2) pre hj(1) acc unfolding joiner_reader_loop_def
    by - (rule exI [of _ ts], rule exI [of _ tr], rule exI [of _ us], rule exI [of _ "length wait"],
          rule exI [of _ hj], simp)
qed

text \<open>The messages of a peer among the events of a room.\<close>

fun said_by :: "peer_id \<Rightarrow> chat_event \<Rightarrow> bool" where
  "said_by pid (Message q name txt) \<longleftrightarrow> q = pid"
| "said_by pid ev \<longleftrightarrow> False"

lemma host_events_said:
  assumes "evs \<in> shuffles (map (own_event hname) own) (map peer_event (filter is_chat xs))"
    and "pid \<noteq> PeerId ''[hub]''"
  shows "filter (said_by pid) evs = map peer_event (filter is_chat (filter (\<lambda>x. fst x = pid) xs))"
    and "\<forall>ev \<in> set evs. is_message ev"
proof -
  have own: "filter (said_by pid) (map (own_event hname) own) = []"
    using assms(2) by (induction own) (simp_all add: own_event_def)
  have peers: "filter (said_by pid) (map peer_event (filter is_chat xs))
      = map peer_event (filter is_chat (filter (\<lambda>x. fst x = pid) xs))"
    by (induction xs) (auto simp: peer_event_def)
  have "filter (said_by pid) evs \<in> filter (said_by pid) `
      shuffles (map (own_event hname) own) (map peer_event (filter is_chat xs))"
    using assms(1) by (rule imageI)
  then show "filter (said_by pid) evs = map peer_event (filter is_chat (filter (\<lambda>x. fst x = pid) xs))"
    unfolding filter_shuffles own peers by simp
  show "\<forall>ev \<in> set evs. is_message ev"
    using set_shuffles [OF assms(1)] by (auto simp: own_event_def peer_event_def)
qed

text \<open>
  C4. From a joiner's keyboard to the host's screen: the texts that the joiner's loop has taken from
  its channel (they were typed, each at most once) arrive at the hub, each once, in order and
  under the identifier of the connection; among the events of a host that takes them from its
  channel, what this peer says is exactly these texts in this order, as far as the loop has come,
  and the host's terminal adds a line for each of them, among those of the others.
\<close>

theorem joiner_text_reaches_host:
  assumes K: "json_ok K"
    and typed: "front_reach K Nf r0 typed f" "prefix (concat (map p_arrivals ps)) (texts_of (accepted (fr_log f)))"
    and utf8: "is_utf8 name" "\<forall>t \<in> set (sends typed). is_utf8 t"
    and loop: "write_loop K Nj name jid ps \<lparr>ls_queue = [], ls_pending = [], ls_log = []\<rparr> = (r, s')"
      "writes_succeed Nj"
    and reader: "feeds Nh (written (ls_log s'))" "sends_succeed Nh"
      "length (concat (map p_arrivals ps)) < fuel"
    and pid: "pid \<noteq> PeerId ''[hub]''"
  shows "\<exists>ts rest h. concat (map p_arrivals ps) = ts @ rest \<and> (r = None \<longrightarrow> rest = ls_queue s')
    \<and> mset ts \<subseteq># mset (sends typed)
    \<and> hub_reader_task pid K Nh fuel [] = Some (Ended, h)
    \<and> accepted h = map (\<lambda>t. ToMsg pid (wire_chat name t)) ts
    \<and> (\<forall>N hname hps ended s2. sends_succeed N
        \<and> host_loop N hname hps \<lparr>hs_texts = [], hs_msgs = [], hs_log = []\<rparr> = (ended, s2)
        \<and> prefix (filter (\<lambda>x. fst x = pid) (concat (map hp_msgs hps))) (msgs_of (accepted h)) \<longrightarrow>
        (\<exists>us evs close. prefix us ts \<and> events_of (accepted (hs_log s2)) = evs @ close
         \<and> close \<in> {[], [RoomClosed]} \<and> filter (said_by pid) evs = map (Message pid name) us
         \<and> (\<not> ended \<and> hs_msgs s2 = [] \<and> filter (\<lambda>x. fst x = pid) (concat (map hp_msgs hps))
              = msgs_of (accepted h) \<longrightarrow> us = ts)
         \<and> (\<forall>now a. \<exists>a'. handle_events now evs a = Some a'
              \<and> map shown_line (app_msgs a') = map shown_line (app_msgs a) @ map event_line evs)))"
proof -
  obtain ts k rest where k: "ls_log s' = k" "list_all2 (sent_as K name) ts (writes k)"
      "concat (map p_arrivals ps) = ts @ rest" "r = None \<longrightarrow> rest = ls_queue s'"
    using write_loop_ordered [OF loop(1)] by auto
  have ts: "mset ts \<subseteq># mset (sends typed)" "set ts \<subseteq> set (sends typed)"
    using channel_typed [OF typed(1), of ts] typed(2) unfolding k(3) by (auto dest: append_prefixD)
  have "all_written (ls_log s')"
    using write_loop_written [OF loop(2,1)] by (simp add: all_written_def)
  then have feed: "feeds Nh (concat (writes k))" using reader(1) k(1) by (simp add: all_written_def)
  let ?m = "wire_chat name"
  have "list_all2 (\<lambda>m f. wf_wire m \<and> encode_message K m = Inr f) (map ?m ts) (writes k)"
    using k(2) ts(2) utf8 by (auto simp: list_all2_conv_all_nth subset_iff)
  moreover have "length (map ?m ts) < fuel" using reader(3) unfolding k(3) by simp
  ultimately obtain h where h: "frame_loop Ended (room_reader_frame pid K Nh) Nh fuel [] = Some (Ended, h)"
      "accepted h = concat (map (room_reader_out pid K) (map ?m ts))"
    using room_reader.loop_delivers [OF K reader(2) _ feed] by blast
  have acc: "accepted h = map (\<lambda>t. ToMsg pid (?m t)) ts"
    unfolding h(2) by (induction ts) (simp_all add: room_reader_out_def)
  have msgs: "msgs_of (map (\<lambda>t. ToMsg pid (?m t)) us) = map (\<lambda>t. (pid, ?m t)) us" for us
    by (induction us) simp_all
  have "\<exists>us evs close. prefix us ts \<and> events_of (accepted (hs_log s2)) = evs @ close
       \<and> close \<in> {[], [RoomClosed]} \<and> filter (said_by pid) evs = map (Message pid name) us
       \<and> (\<not> ended \<and> hs_msgs s2 = [] \<and> filter (\<lambda>x. fst x = pid) (concat (map hp_msgs hps))
            = msgs_of (accepted h) \<longrightarrow> us = ts)
       \<and> (\<forall>now a. \<exists>a'. handle_events now evs a = Some a'
            \<and> map shown_line (app_msgs a') = map shown_line (app_msgs a) @ map event_line evs)"
    if N: "sends_succeed N" and run: "host_loop N hname hps \<lparr>hs_texts = [], hs_msgs = [], hs_log = []\<rparr> = (ended, s2)"
      and chan: "prefix (filter (\<lambda>x. fst x = pid) (concat (map hp_msgs hps))) (msgs_of (accepted h))"
    for N hname hps ended s2
  proof -
    let ?P = "\<lambda>x. fst x = pid"
    obtain own xs xr where tr: "host_trace hname (offers (hs_log s2)) own xs"
        "concat (map hp_msgs hps) = xs @ xr" "\<not> ended \<longrightarrow> xr = hs_msgs s2"
      using host_loop_log [OF run] by auto
    obtain evs close where evs: "events_of (offers (hs_log s2)) = evs @ close" "close \<in> {[], [RoomClosed]}"
        "evs \<in> shuffles (map (own_event hname) own) (map peer_event (filter is_chat xs))"
      using tr(1) unfolding host_trace_def by blast
    have off: "accepted (hs_log s2) = offers (hs_log s2)" using host_loop_accepted [OF N run] by simp
    have "prefix (filter ?P xs) (map (\<lambda>t. (pid, ?m t)) ts)"
      using chan unfolding tr(2) acc msgs by (auto dest: append_prefixD)
    then obtain us where us: "filter ?P xs = map (\<lambda>t. (pid, ?m t)) us" "prefix us ts"
      by (auto simp: prefix_def map_eq_append_conv)
    have "filter (said_by pid) evs = map (Message pid name) us"
      unfolding host_events_said(1) [OF evs(3) pid] us(1) by (simp add: filter_map comp_def peer_event_def)
    moreover have "\<not> ended \<and> hs_msgs s2 = [] \<and> filter ?P (concat (map hp_msgs hps)) = msgs_of (accepted h) \<longrightarrow> us = ts"
    proof
      assume *: "\<not> ended \<and> hs_msgs s2 = [] \<and> filter ?P (concat (map hp_msgs hps)) = msgs_of (accepted h)"
      then have "map (\<lambda>t. (pid, ?m t)) us = map (\<lambda>t. (pid, ?m t)) ts"
        using tr(2,3) us(1) unfolding acc msgs by simp
      from map_eq_imp_length_eq [OF this] us(2) show "us = ts" by (auto simp: prefix_def)
    qed
    ultimately show ?thesis
      using us(2) evs(1,2) off handle_messages [OF host_events_said(2) [OF evs(3) pid]] by metis
  qed
  note host = this
  have hub: "hub_reader_task pid K Nh fuel [] = Some (Ended, h)"
    using h(1) by (simp add: hub_reader_task_def)
  show ?thesis
    by (rule exI [of _ ts], rule exI [of _ rest], rule exI [of _ h], intro conjI allI impI,
        rule k(3), erule k(4) [rule_format], rule ts(1), rule hub, rule acc, elim conjE, rule host)
qed

section \<open>Witnesses\<close>

text \<open>A joiner and a hub that hear each other, on the invite of the samples.\<close>

definition demo_tor :: "nat \<Rightarrow> string \<Rightarrow> u16 \<Rightarrow> (chat_error + string) \<times> nat" where
  "demo_tor n addr p = (Inr addr, Suc n)"

definition demo_rm :: "unit room_inner" where
  "demo_rm = room_inner_new ''h''"

abbreviation demo_config :: host_config where
  "demo_config \<equiv> \<lparr>hc_name = ''h'', hc_invite_ttl_secs = 300\<rparr>"

lemma demo_code:
  obtains code where "encode_invite sample_crates (sample_invite 1000) = Inr code"
    "decode_invite sample_crates True 1000 code (Some 300) = Some (Inr (sample_invite 1000))"
    "room_invite sample_crates demo_nonce 1000 (ip_suggested_name (sample_invite 1000))
       (set_invite sample_address 80 demo_config demo_rm) = Inr code"
proof -
  obtain code where c: "encode_invite sample_crates (sample_invite 1000) = Inr code"
      "decode_invite sample_crates True 1000 code (Some 300) = Some (Inr (sample_invite 1000))"
    using sample_decodes .
  moreover have "sample_invite 1000 = \<lparr>ip_onion_address = sample_address, ip_nonce = demo_nonce,
      ip_timestamp = 1000, ip_suggested_name = ip_suggested_name (sample_invite 1000)\<rparr>"
    by (simp add: demo_nonce_def)
  ultimately have "room_invite sample_crates demo_nonce 1000 (ip_suggested_name (sample_invite 1000))
      (set_invite sample_address 80 demo_config demo_rm) = Inr code"
    by (simp add: room_invite_def set_invite_def demo_rm_def room_inner_new_def)
  with c that show ?thesis by blast
qed

text \<open>The joiner hears 0, and then 1.\<close>

definition demo_joined :: "string joiner" where
  "demo_joined = \<lparr>j_stream = Some sample_address,
     j_peer_id = PeerId (to_base58 sample_crates demo_disc), j_name = ''al''\<rparr>"

lemma demo_connects:
  assumes "decode_invite sample_crates True 1000 code (Some 300) = Some (Inr (sample_invite 1000))"
  shows "\<exists>h. joiner_connect sample_crates (\<lambda>_. mem_net [0]) demo_tor True 1000 demo_disc 0 code ''al''
        = Some (Inr demo_joined, 1, h) \<and> written h = demo_nonce @ demo_disc @ demo_frame"
    and "\<exists>h. joiner_connect sample_crates (\<lambda>_. mem_net [1]) demo_tor True 1000 demo_disc 0 code ''al''
        = Some (Inl (Connection ''handshake rejected by hub''), 1, h) \<and> written h = demo_nonce @ demo_disc"
proof -
  have n: "ip_nonce (sample_invite 1000) = demo_nonce" by (simp add: demo_nonce_def)
  note a = joiner_handshake_answer [where K = sample_crates and name = "''al''" and n = demo_nonce
    and d = demo_disc]
  note step = joiner_connect_def effective_name_def demo_tor_def demo_joined_def Let_def assms
  show "\<exists>h. joiner_connect sample_crates (\<lambda>_. mem_net [0]) demo_tor True 1000 demo_disc 0 code ''al''
        = Some (Inr demo_joined, 1, h) \<and> written h = demo_nonce @ demo_disc @ demo_frame"
    using a [of "mem_net [0]" 0] n by (simp add: step del: sample_invite_simps(3))
  show "\<exists>h. joiner_connect sample_crates (\<lambda>_. mem_net [1]) demo_tor True 1000 demo_disc 0 code ''al''
        = Some (Inl (Connection ''handshake rejected by hub''), 1, h) \<and> written h = demo_nonce @ demo_disc"
    using a [of "mem_net [1]" 1] n by (simp add: step del: sample_invite_simps(3))
qed

theorem invite_admits_once_witness:
  "\<exists>code r. room_invite sample_crates demo_nonce 1000 (Some ''al:ice'')
        (set_invite sample_address 80 demo_config demo_rm) = Inr code
    \<and> fst (hub_handshake sample_crates (mem_net (demo_nonce @ demo_disc)) {demo_nonce} []) = r
    \<and> \<not> is_admitted r"
proof -
  obtain code where c: "decode_invite sample_crates True 1000 code (Some 300) = Some (Inr (sample_invite 1000))"
      "room_invite sample_crates demo_nonce 1000 (ip_suggested_name (sample_invite 1000))
         (set_invite sample_address 80 demo_config demo_rm) = Inr code"
    using demo_code by blast
  obtain h1 where j1: "joiner_connect sample_crates (\<lambda>_. mem_net [0]) demo_tor True 1000 demo_disc 0 code ''al''
      = Some (Inr demo_joined, 1, h1)" "written h1 = demo_nonce @ demo_disc @ demo_frame"
    using demo_connects(1) [OF c(1)] by blast
  obtain h2 where j2: "joiner_connect sample_crates (\<lambda>_. mem_net [1]) demo_tor True 1000 demo_disc 0 code ''al''
      = Some (Inl (Connection ''handshake rejected by hub''), 1, h2)" "written h2 = demo_nonce @ demo_disc"
    using demo_connects(2) [OF c(1)] by blast
  obtain hh1 where hub1: "hub_handshake sample_crates (mem_net (demo_nonce @ demo_disc @ demo_frame)) {} []
      = (Ready (Inr (PeerId (to_base58 sample_crates demo_disc), ''al'')), {demo_nonce}, hh1)"
    using demo_admits by blast
  obtain hh2 where hub2: "hub_handshake sample_crates (mem_net (demo_nonce @ demo_disc)) {demo_nonce} []
      = (Ready (Inl NonceReused), {demo_nonce}, hh2)" "written hh2 = [1]"
    using hub_handshake_replay [of "mem_net (demo_nonce @ demo_disc)" demo_nonce demo_disc "[]"
        "{demo_nonce}" sample_crates] by auto
  from invite_admits_once [OF j1(1) hub1 _ _ _ j2(1) hub2(1)] j1(2) j2(2) hub2 c(2)
  show ?thesis by (auto intro: exI [of _ "[1]"])
qed

theorem invite_admits_witness:
  "\<exists>code hj hh. room_invite sample_crates demo_nonce 1000 (Some ''al:ice'')
        (set_invite sample_address 80 demo_config demo_rm) = Inr code
    \<and> joiner_connect sample_crates (\<lambda>_. mem_net [0]) demo_tor True 1000 demo_disc 0 code ''al''
        = Some (Inr demo_joined, 1, hj)
    \<and> hub_handshake sample_crates (mem_net (written hj)) {} []
        = (Ready (Inr (PeerId (to_base58 sample_crates demo_disc), ''al'')), {demo_nonce}, hh)"
proof -
  obtain code where c: "decode_invite sample_crates True 1000 code (Some 300) = Some (Inr (sample_invite 1000))"
      "room_invite sample_crates demo_nonce 1000 (ip_suggested_name (sample_invite 1000))
         (set_invite sample_address 80 demo_config demo_rm) = Inr code"
    using demo_code by blast
  obtain hj where j: "joiner_connect sample_crates (\<lambda>_. mem_net [0]) demo_tor True 1000 demo_disc 0 code ''al''
      = Some (Inr demo_joined, 1, hj)" "written hj = demo_nonce @ demo_disc @ demo_frame"
    using demo_connects(1) [OF c(1)] by blast
  obtain rh used' hh where h: "hub_handshake sample_crates (mem_net (written hj)) {} [] = (rh, used', hh)"
      "written hh = [0]"
    using demo_admits j(2) by metis
  have n: "ip_nonce (sample_invite 1000) = demo_nonce" by (simp add: demo_nonce_def)
  have e: "effective_name ''al'' (sample_invite 1000) = ''al''" by (simp add: effective_name_def)
  note * = invite_admits [of sample_crates demo_rm "sample_invite 1000" 80 demo_config code 1000 demo_tor 0
      sample_address 1 "''al''" demo_frame "\<lambda>_. mem_net [0]" True demo_disc "Inr demo_joined" 1 hj "mem_net (written hj)" "{}"
      rh used' hh]
  show ?thesis
    using * c(2) j h by (simp add: e n times_fit_def demo_tor_def demo_rm_def room_inner_new_def
      demo_joined_def del: sample_invite_simps(3))
qed

lemma demo_encodes: "encode_message sample_crates (wire_chat ''h'' ''hi'') =
    Inr (frame_of (sample_json (wire_chat ''h'' ''hi'')))"
  by (rule sample_encode) code_simp

text \<open>A user who has typed one line.\<close>

lemma demo_typed:
  obtains f :: "unit front" where "front_reach sample_crates (mem_net []) demo_rm [SpawnSend ''hi''] f"
    and "texts_of (accepted (fr_log f)) = [''hi'']"
  using front_any_order [of "mem_net []" demo_rm "[''hi'']" "[''hi'']" sample_crates]
  by (auto simp: demo_rm_def room_inner_new_def)

theorem host_text_reaches_joiner_witness:
  "\<exists>s' hw hj. host_loop (mem_net []) ''h'' [demo_host_poll [''hi''] [] False]
        \<lparr>hs_texts = [], hs_msgs = [], hs_log = []\<rparr> = (False, s')
    \<and> room_writer sample_crates (mem_net []) [WireMsg (wire_chat ''h'' ''hi''), WireClosed] [] = (True, hw)
    \<and> joiner_reader_loop sample_crates (mem_net (written hw)) 3 [] = Some (Ended, hj)
    \<and> accepted hj = [ToEvents (Message (PeerId ''h'') ''h'' ''hi'')]"
proof -
  let ?ps = "[demo_host_poll [''hi''] [] False]" and ?rs = "[WireMsg (wire_chat ''h'' ''hi''), WireClosed]"
  obtain s' where l: "host_loop (mem_net []) ''h'' ?ps \<lparr>hs_texts = [], hs_msgs = [], hs_log = []\<rparr> = (False, s')"
      "hs_texts s' = []" "wires_of (offers (hs_log s')) = [wire_chat ''h'' ''hi'']"
    by (simp add: host_step_def demo_host_poll_def try_send_def Let_def)
  obtain hw where w: "room_writer sample_crates (mem_net []) ?rs [] = (True, hw)"
    by (simp add: demo_encodes write_all_def flush_def mem_net_def Let_def)
  obtain f :: "unit front" where f: "front_reach sample_crates (mem_net []) demo_rm [SpawnSend ''hi''] f"
      "texts_of (accepted (fr_log f)) = [''hi'']" using demo_typed .
  obtain us waiting hj where us: "subseq us [''hi'']" "length [''hi''] = length us + skipped ?rs + waiting"
      "WireClosed \<in> set ?rs \<longrightarrow> waiting = 0"
      "joiner_reader_loop sample_crates (mem_net (written hw)) 3 [] = Some (Ended, hj)"
      "accepted hj = map (\<lambda>t. ToEvents (Message (PeerId ''h'') ''h'' t))
        (filter (\<lambda>t. encodes sample_crates (wire_chat ''h'' t)) us)"
    using host_text_reaches_joiner [OF _ f(1) _ _ _ l(1) _ w, of 0 "mem_net (written hw)" 3] f(2) l(2,3)
    by (auto simp: demo_host_poll_def ascii_is_utf8)
  have "us = [''hi'']" using us(1-3) by (intro subseq_same_length) simp_all
  moreover have "encodes sample_crates (wire_chat ''h'' ''hi'')"
    by (simp add: encodes_def demo_encodes)
  ultimately show ?thesis using l w us(4,5) by auto
qed

theorem joiner_text_reaches_host_witness:
  "\<exists>r s' h. write_loop sample_crates (mem_net []) ''h'' (PeerId ''p'') [demo_poll [''hi''] False]
        \<lparr>ls_queue = [], ls_pending = [], ls_log = []\<rparr> = (r, s')
    \<and> hub_reader_task (PeerId ''q'') sample_crates (mem_net (written (ls_log s'))) 3 [] = Some (Ended, h)
    \<and> (\<exists>ts rest. [''hi''] = ts @ rest \<and> accepted h = map (\<lambda>t. ToMsg (PeerId ''q'') (wire_chat ''h'' t)) ts)"
proof -
  obtain r s' where w: "write_loop sample_crates (mem_net []) ''h'' (PeerId ''p'') [demo_poll [''hi''] False]
      \<lparr>ls_queue = [], ls_pending = [], ls_log = []\<rparr> = (r, s')" by fastforce
  obtain f :: "unit front" where f: "front_reach sample_crates (mem_net []) demo_rm [SpawnSend ''hi''] f"
      "texts_of (accepted (fr_log f)) = [''hi'']" using demo_typed .
  obtain ts rest h where "concat (map p_arrivals [demo_poll [''hi''] False]) = ts @ rest"
      "hub_reader_task (PeerId ''q'') sample_crates (mem_net (written (ls_log s'))) 3 [] = Some (Ended, h)"
      "accepted h = map (\<lambda>t. ToMsg (PeerId ''q'') (wire_chat ''h'' t)) ts"
    using joiner_text_reaches_host [OF _ f(1) _ _ _ w, of "mem_net (written (ls_log s'))" 3 "PeerId ''q''"] f(2)
    by (auto simp: demo_poll_def ascii_is_utf8)
  with w show ?thesis by (auto simp: demo_poll_def)
qed

end
